(* ===== verification/Kern_Prelude.thy ===== *)
theory Kern_Prelude
  imports Main "HOL-Library.Word"
begin

text \<open>
  Shared vocabulary of the development: machine words and addresses, the byte memory of the
  kernel, the little-endian codec used by every multi-byte access, panics as values, and the
  two loop shapes that occur throughout the sources (a counting loop with an early exit, and a
  forward search).  The lemmas are collected in \<open>mem_simps\<close> (memory reads after writes),
  \<open>codec\<close> (little-endian round trips) and \<open>res_simps\<close> (results that may be panics).
\<close>

unbundle bit_operations_syntax

named_theorems mem_simps
named_theorems codec
named_theorems res_simps

section \<open>Machine types\<close>

type_synonym byte = "8 word"
type_synonym u16 = "16 word"
type_synonym u32 = "32 word"
type_synonym u64 = "64 word"
type_synonym addr = "64 word"
type_synonym mem = "addr \<Rightarrow> byte"

section \<open>Panics\<close>

text \<open>\<open>PANIC\<close> and a failing \<open>PANIC_COND\<close> never return: the result of the enclosing function is
  the panic itself, tagged with the subsystem name the source passes.\<close>

datatype panic = Panic string

type_synonym 'a res = "panic + 'a"

definition res_bind :: "'a res \<Rightarrow> ('a \<Rightarrow> 'b res) \<Rightarrow> 'b res" where
  "res_bind r f = (case r of Inl e \<Rightarrow> Inl e | Inr v \<Rightarrow> f v)"

definition panic_cond :: "bool \<Rightarrow> string \<Rightarrow> unit res" where
  "panic_cond c who = (if c then Inl (Panic who) else Inr ())"

definition no_panic :: "'a res \<Rightarrow> bool" where
  "no_panic r \<longleftrightarrow> (case r of Inl _ \<Rightarrow> False | Inr _ \<Rightarrow> True)"

section \<open>Little-endian codec\<close>

fun le_nat :: "byte list \<Rightarrow> nat" where
  "le_nat [] = 0"
| "le_nat (b # bs) = unat b + 256 * le_nat bs"

fun nat_le :: "nat \<Rightarrow> nat \<Rightarrow> byte list" where
  "nat_le 0 x = []"
| "nat_le (Suc n) x = of_nat x # nat_le n (x div 256)"

section \<open>Byte memory\<close>

definition load_bytes :: "mem \<Rightarrow> addr \<Rightarrow> nat \<Rightarrow> byte list" where
  "load_bytes m a n = map (\<lambda>i. m (a + of_nat i)) [0..<n]"

definition store_bytes :: "mem \<Rightarrow> addr \<Rightarrow> byte list \<Rightarrow> mem" where
  "store_bytes m a bs = (\<lambda>x. if unat (x - a) < length bs then bs ! unat (x - a) else m x)"

definition load16 :: "mem \<Rightarrow> addr \<Rightarrow> u16" where
  "load16 m a = of_nat (le_nat (load_bytes m a 2))"

definition load32 :: "mem \<Rightarrow> addr \<Rightarrow> u32" where
  "load32 m a = of_nat (le_nat (load_bytes m a 4))"

definition load64 :: "mem \<Rightarrow> addr \<Rightarrow> u64" where
  "load64 m a = of_nat (le_nat (load_bytes m a 8))"

definition store16 :: "mem \<Rightarrow> addr \<Rightarrow> u16 \<Rightarrow> mem" where
  "store16 m a v = store_bytes m a (nat_le 2 (unat v))"

definition store32 :: "mem \<Rightarrow> addr \<Rightarrow> u32 \<Rightarrow> mem" where
  "store32 m a v = store_bytes m a (nat_le 4 (unat v))"

definition store64 :: "mem \<Rightarrow> addr \<Rightarrow> u64 \<Rightarrow> mem" where
  "store64 m a v = store_bytes m a (nat_le 8 (unat v))"

text \<open>Two address ranges \<open>[a, a + n)\<close> and \<open>[b, b + k)\<close> share no byte.\<close>

definition apart :: "addr \<Rightarrow> nat \<Rightarrow> addr \<Rightarrow> nat \<Rightarrow> bool" where
  "apart a n b k \<longleftrightarrow> (\<forall>i < n. \<forall>j < k. a + of_nat i \<noteq> b + of_nat j)"

text \<open>Two memories agree on the \<open>n\<close> bytes from \<open>a\<close>.\<close>

definition agree :: "mem \<Rightarrow> mem \<Rightarrow> addr \<Rightarrow> nat \<Rightarrow> bool" where
  "agree m m' a n \<longleftrightarrow> (\<forall>x. unat (x - a) < n \<longrightarrow> m x = m' x)"

section \<open>C strings\<close>

text \<open>The characters of a string literal as bytes, without the terminator, and \<open>!strncmp(s, a, n)\<close>
  for a literal \<open>s\<close> and a string in memory.\<close>

definition cbytes :: "string \<Rightarrow> byte list" where
  "cbytes s = map of_char s"

fun strncmp_eq :: "byte list \<Rightarrow> mem \<Rightarrow> addr \<Rightarrow> nat \<Rightarrow> bool" where
  "strncmp_eq s m a 0 = True"
| "strncmp_eq [] m a (Suc n) = (m a = 0)"
| "strncmp_eq (c # s) m a (Suc n) = (m a = c \<and> (c = 0 \<or> strncmp_eq s m (a + 1) n))"

section \<open>Loop shapes\<close>

text \<open>\<open>for (i = start; i < n; i++) if (!ok(i)) break;\<close> returns the index at which it stops.\<close>

function scan_while :: "(nat \<Rightarrow> bool) \<Rightarrow> nat \<Rightarrow> nat \<Rightarrow> nat" where
  "scan_while ok i n = (if i < n \<and> ok i then scan_while ok (Suc i) n else i)"
  by pat_completeness auto
termination
  by (relation "measure (\<lambda>(ok, i, n). n - i)") auto

declare scan_while.simps [simp del]

text \<open>\<open>while (cur <= last) { if (hit(cur)) return cur; cur++; }\<close>\<close>

function find_from :: "(nat \<Rightarrow> bool) \<Rightarrow> nat \<Rightarrow> nat \<Rightarrow> nat option" where
  "find_from hit cur lst =
     (if cur \<le> lst then (if hit cur then Some cur else find_from hit (Suc cur) lst) else None)"
  by pat_completeness auto
termination
  by (relation "measure (\<lambda>(hit, cur, lst). Suc lst - cur)") auto

declare find_from.simps [simp del]

section \<open>Lemmas on results\<close>

lemma res_bind_Inl [simp, res_simps]: "res_bind (Inl e) f = Inl e"
  by (simp add: res_bind_def)

lemma res_bind_Inr [simp, res_simps]: "res_bind (Inr v) f = f v"
  by (simp add: res_bind_def)

lemma res_bind_eq_Inr [res_simps]:
  "res_bind r f = Inr w \<longleftrightarrow> (\<exists>v. r = Inr v \<and> f v = Inr w)"
  by (cases r) auto

lemma panic_cond_simps [simp, res_simps]:
  "panic_cond True w = Inl (Panic w)" "panic_cond False w = Inr ()"
  by (simp_all add: panic_cond_def)

lemma panic_cond_Inr [res_simps]: "panic_cond c w = Inr u \<longleftrightarrow> \<not> c"
  by (auto simp: panic_cond_def)

lemma no_panic_simps [simp]: "no_panic (Inr v)" "\<not> no_panic (Inl e)"
  by (simp_all add: no_panic_def)

lemma no_panic_iff: "no_panic r \<longleftrightarrow> (\<exists>v. r = Inr v)"
  by (cases r) auto

section \<open>Lemmas on the codec\<close>

lemma unat_byte: "unat (b :: byte) < 256"
  using unsigned_less [of b, where ?'a = nat] by simp

lemma length_nat_le [simp]: "length (nat_le n x) = n"
  by (induction n arbitrary: x) auto

lemma le_nat_bound: "le_nat bs < 256 ^ length bs"
proof (induction bs)
  case Nil
  then show ?case by simp
next
  case (Cons b bs)
  have "unat b < 256" by (rule unat_byte)
  moreover have "le_nat bs + 1 \<le> 256 ^ length bs" using Cons by simp
  then have "256 * (le_nat bs + 1) \<le> 256 * 256 ^ length bs" by (rule mult_le_mono2)
  ultimately show ?case by simp
qed

lemma le_nat_nat_le: "le_nat (nat_le n x) = x mod 256 ^ n"
proof (induction n arbitrary: x)
  case 0
  then show ?case by simp
next
  case (Suc n)
  have "unat (of_nat x :: byte) = x mod 256"
    by (simp add: unsigned_of_nat take_bit_eq_mod)
  then show ?case by (simp add: Suc mod_mult2_eq)
qed

lemma nat_le_le_nat: "nat_le (length bs) (le_nat bs) = bs"
proof (induction bs)
  case Nil
  then show ?case by simp
next
  case (Cons b bs)
  have lt: "unat b < 256" by (rule unat_byte)
  then have "(unat b + 256 * le_nat bs) div 256 = le_nat bs" by simp
  moreover have "of_nat (unat b + 256 * le_nat bs) = (b :: byte)"
  proof -
    have "(256 :: byte) = 0" by simp
    then have "(of_nat (256 * le_nat bs) :: byte) = 0" by (simp only: of_nat_mult of_nat_numeral) simp
    then show ?thesis by (simp only: of_nat_add) simp
  qed
  ultimately show ?case using Cons by simp
qed

lemma of_nat_le16 [codec]: "(of_nat (le_nat (nat_le 2 (unat v))) :: u16) = v"
  using unsigned_less [of v, where ?'a = nat] by (simp add: le_nat_nat_le)

lemma of_nat_le32 [codec]: "(of_nat (le_nat (nat_le 4 (unat v))) :: u32) = v"
  using unsigned_less [of v, where ?'a = nat] by (simp add: le_nat_nat_le)

lemma of_nat_le64 [codec]: "(of_nat (le_nat (nat_le 8 (unat v))) :: u64) = v"
  using unsigned_less [of v, where ?'a = nat] by (simp add: le_nat_nat_le)

section \<open>Lemmas on memory\<close>

lemma length_load_bytes [simp]: "length (load_bytes m a n) = n"
  by (simp add: load_bytes_def)

lemma nth_load_bytes [simp]: "i < n \<Longrightarrow> load_bytes m a n ! i = m (a + of_nat i)"
  by (simp add: load_bytes_def)

lemma unat_of_nat_small64: "i < 2 ^ 64 \<Longrightarrow> unat (of_nat i :: u64) = i"
  by (simp add: unsigned_of_nat take_bit_eq_mod)

lemma unat_minus_one64 [simp]: "unat (- 1 :: u64) = 2 ^ 64 - 1"
  by (simp add: unsigned_minus_1_eq_mask mask_eq_exp_minus_1)

lemma unat_add_small64: "unat a + unat b < 2 ^ 64 \<Longrightarrow> unat (a + b :: u64) = unat a + unat b"
  by (simp only: unat_plus_if_size) (simp add: word_size)

lemma unat_sub64: "b \<le> a \<Longrightarrow> unat (a - b :: u64) = unat a - unat b"
  by (simp only: unat_sub_if_size) (simp add: word_le_nat_alt)

lemma unat_u32: "unat (x :: u32) < 2 ^ 32"
  using unsigned_less [of x, where ?'a = nat] by simp

lemma unat_ucast32: "unat (ucast (x :: u32) :: u64) = unat x"
  using unat_u32 [of x] by (simp add: unsigned_ucast_eq take_bit_nat_eq_self)

lemma store_bytes_at [mem_simps]:
  assumes "i < length bs" and "length bs \<le> 2 ^ 64"
  shows "store_bytes m a bs (a + of_nat i) = bs ! i"
proof -
  have "unat (of_nat i :: addr) = i" using assms by (intro unat_of_nat_small64) simp
  then show ?thesis using assms(1) by (simp add: store_bytes_def)
qed

lemma store_bytes_other [mem_simps]:
  "length bs \<le> unat (x - a) \<Longrightarrow> store_bytes m a bs x = m x"
  by (simp add: store_bytes_def)

lemma store_bytes_Nil [simp]: "store_bytes m a [] = m"
  by (simp add: store_bytes_def)

lemma load_store_same [mem_simps]:
  assumes "length bs = n" and "n \<le> 2 ^ 64"
  shows "load_bytes (store_bytes m a bs) a n = bs"
  using assms by (intro nth_equalityI) (auto simp: store_bytes_at)

lemma load_store_prefix:
  assumes "n \<le> length bs" and "length bs \<le> 2 ^ 64"
  shows "load_bytes (store_bytes m a bs) a n = take n bs"
  using assms by (intro nth_equalityI) (auto simp: store_bytes_at)

lemma store_load_id [mem_simps]: "store_bytes m a (load_bytes m a n) = m"
proof
  fix x
  show "store_bytes m a (load_bytes m a n) x = m x"
    by (cases "unat (x - a) < n") (simp_all add: store_bytes_def)
qed

lemma apart_store:
  assumes "apart a n b (length bs)" and "i < n"
  shows "store_bytes m b bs (a + of_nat i) = m (a + of_nat i)"
proof -
  have "\<not> unat (a + of_nat i - b) < length bs"
  proof
    assume lt: "unat (a + of_nat i - b) < length bs"
    have "a + of_nat i = b + of_nat (unat (a + of_nat i - b))" by simp
    with assms lt show False unfolding apart_def by blast
  qed
  then show ?thesis by (simp add: store_bytes_def)
qed

lemma load_store_apart [mem_simps]:
  "apart a n b (length bs) \<Longrightarrow> load_bytes (store_bytes m b bs) a n = load_bytes m a n"
  by (intro nth_equalityI) (auto simp: apart_store)

lemma load_store16 [mem_simps]: "load16 (store16 m a v) a = v"
  by (simp add: load16_def store16_def load_store_same codec)

lemma load_store32 [mem_simps]: "load32 (store32 m a v) a = v"
  by (simp add: load32_def store32_def load_store_same codec)

lemma load_store64 [mem_simps]: "load64 (store64 m a v) a = v"
  by (simp add: load64_def store64_def load_store_same codec)

lemma load_bytes_Suc: "load_bytes m x (Suc n) = m x # load_bytes m (x + 1) n"
proof (rule nth_equalityI)
  fix i
  assume "i < length (load_bytes m x (Suc n))"
  then show "load_bytes m x (Suc n) ! i = (m x # load_bytes m (x + 1) n) ! i"
    by (cases i) (auto simp: algebra_simps)
qed simp

lemma agree_at: "agree m m' a n \<Longrightarrow> unat (x - a) < n \<Longrightarrow> m x = m' x"
  by (simp add: agree_def)

lemma unat_offset_sub:
  fixes x a :: addr
  assumes "unat (x - a) + i < 2 ^ 64"
  shows "unat (x + of_nat i - a) = unat (x - a) + i"
proof -
  have "x + of_nat i - a = (x - a) + of_nat i" by simp
  moreover have "unat (of_nat i :: addr) = i" using assms by (intro unat_of_nat_small64) simp
  ultimately show ?thesis using assms by (simp only: unat_plus_if_size) (simp add: word_size)
qed

lemma agree_load:
  assumes "agree m m' a n" and "unat (x - a) + k \<le> n" and "n < 2 ^ 64"
  shows "load_bytes m x k = load_bytes m' x k"
  using assms by (intro nth_equalityI) (auto intro!: agree_at simp: unat_offset_sub)

lemma agree_load16: "agree m m' a n \<Longrightarrow> unat (x - a) + 2 \<le> n \<Longrightarrow> n < 2 ^ 64 \<Longrightarrow> load16 m x = load16 m' x"
  using agree_load [of m m' a n x 2] by (simp add: load16_def)

lemma agree_load32: "agree m m' a n \<Longrightarrow> unat (x - a) + 4 \<le> n \<Longrightarrow> n < 2 ^ 64 \<Longrightarrow> load32 m x = load32 m' x"
  using agree_load [of m m' a n x 4] by (simp add: load32_def)

lemma agree_load64: "agree m m' a n \<Longrightarrow> unat (x - a) + 8 \<le> n \<Longrightarrow> n < 2 ^ 64 \<Longrightarrow> load64 m x = load64 m' x"
  using agree_load [of m m' a n x 8] by (simp add: load64_def)

lemma agree_strncmp:
  "agree m m' a n \<Longrightarrow> unat (x - a) + k \<le> n \<Longrightarrow> n < 2 ^ 64 \<Longrightarrow> strncmp_eq s m x k = strncmp_eq s m' x k"
proof (induction s m x k rule: strncmp_eq.induct)
  case (2 m x k)
  then show ?case using agree_at [of m m' a n x] by simp
next
  case (3 c s m x k)
  then have "m x = m' x" using agree_at [of m m' a n x] by simp
  moreover have "unat (x + 1 - a) = unat (x - a) + 1" using 3 unat_offset_sub [of x a 1] by simp
  ultimately show ?case using 3 by auto
qed simp

text \<open>With the terminator inside the compared length, the comparison is equality with the literal
  followed by a terminator.\<close>

lemma strncmp_full:
  "0 \<notin> set s \<Longrightarrow> strncmp_eq s m x (Suc (length s)) \<longleftrightarrow> load_bytes m x (Suc (length s)) = s @ [0]"
proof (induction s arbitrary: x)
  case Nil
  then show ?case by (simp add: load_bytes_def)
next
  case (Cons c s)
  then show ?case by (auto simp: load_bytes_Suc [of m x "Suc (length s)"])
qed

text \<open>A byte loop that rewrites a range in place is one store of the rewritten bytes.\<close>

lemma store_bytes_snoc:
  assumes "length bs < 2 ^ 64"
  shows "(store_bytes m a bs)(a + of_nat (length bs) := b) = store_bytes m a (bs @ [b])"
proof
  fix x
  have n: "unat (of_nat (length bs) :: addr) = length bs"
    using assms by (rule unat_of_nat_small64)
  show "((store_bytes m a bs)(a + of_nat (length bs) := b)) x = store_bytes m a (bs @ [b]) x"
  proof (cases "x = a + of_nat (length bs)")
    case True
    then show ?thesis using n by (simp add: store_bytes_def)
  next
    case False
    then have "unat (x - a) \<noteq> length bs"
      by (metis add.commute diff_add_cancel of_nat_unat ucast_id)
    with False show ?thesis by (auto simp: store_bytes_def nth_append)
  qed
qed

lemma fold_update_store:
  assumes "n \<le> 2 ^ 64"
  shows "fold (\<lambda>i d. d(b + of_nat i := g i (d (b + of_nat i)))) [0..<n] m =
     store_bytes m b (map (\<lambda>i. g i (m (b + of_nat i))) [0..<n])"
  using assms
proof (induction n)
  case 0
  then show ?case by simp
next
  case (Suc n)
  let ?bs = "map (\<lambda>i. g i (m (b + of_nat i))) [0..<n]"
  have n: "n < 2 ^ 64" using Suc.prems by simp
  then have at: "store_bytes m b ?bs (b + of_nat n) = m (b + of_nat n)"
    by (simp add: store_bytes_def unat_of_nat_small64)
  note IH = Suc.IH [OF less_imp_le [OF n]]
  have "fold (\<lambda>i d. d(b + of_nat i := g i (d (b + of_nat i)))) [0..<Suc n] m =
      (store_bytes m b ?bs)(b + of_nat n := g n (m (b + of_nat n)))"
    by (simp only: upt_Suc_append [OF le0] fold_append fold.simps comp_apply id_apply IH at)
  also have "\<dots> = store_bytes m b (?bs @ [g n (m (b + of_nat n))])"
    using store_bytes_snoc [of ?bs m b "g n (m (b + of_nat n))"] n by simp
  also have "?bs @ [g n (m (b + of_nat n))] = map (\<lambda>i. g i (m (b + of_nat i))) [0..<Suc n]"
    by simp
  finally show ?case .
qed

text \<open>Adjacent, disjoint and unchanged stores.\<close>

lemma unat_past:
  fixes x a :: addr
  assumes "n \<le> unat (x - a)"
  shows "unat (x - (a + of_nat n)) = unat (x - a) - n"
proof -
  have n: "unat (of_nat n :: addr) = n"
    using assms unsigned_less [of "x - a", where ?'a = nat] by (intro unat_of_nat_small64) simp
  have e: "x - (a + of_nat n) = (x - a) - of_nat n" by simp
  show ?thesis unfolding e using assms n unat_sub64 [of "of_nat n" "x - a"] by (simp add: word_le_nat_alt)
qed

lemma unat_before:
  fixes x a :: addr
  assumes "unat (x - a) < n" and "n + k \<le> 2 ^ 64"
  shows "k \<le> unat (x - (a + of_nat n))"
proof (rule ccontr)
  assume lt: "\<not> k \<le> unat (x - (a + of_nat n))"
  then have n: "unat (of_nat n :: addr) = n" using assms(2) by (intro unat_of_nat_small64) simp
  have e: "x - a = of_nat n + (x - (a + of_nat n))" by simp
  have "unat (x - a) = n + unat (x - (a + of_nat n))"
    using unat_add_small64 [of "of_nat n" "x - (a + of_nat n)"] n lt assms(2) unfolding e [symmetric] by simp
  with assms(1) show False by simp
qed

lemma store_append:
  assumes "length bs + length cs \<le> 2 ^ 64"
  shows "store_bytes m a (bs @ cs) = store_bytes (store_bytes m a bs) (a + of_nat (length bs)) cs"
proof
  fix x
  show "store_bytes m a (bs @ cs) x = store_bytes (store_bytes m a bs) (a + of_nat (length bs)) cs x"
  proof (cases "unat (x - a) < length bs")
    case True
    then show ?thesis using unat_before [OF True assms] by (simp add: store_bytes_def nth_append)
  next
    case False
    then show ?thesis using unat_past [of "length bs" x a] by (auto simp: store_bytes_def nth_append)
  qed
qed

lemma apart_sym: "apart a n b k \<Longrightarrow> apart b k a n"
  by (fastforce simp: apart_def)

lemma apart_next: "n + k \<le> 2 ^ 64 \<Longrightarrow> apart a n (a + of_nat n) k"
proof (unfold apart_def, intro allI impI notI)
  fix i j
  assume *: "n + k \<le> 2 ^ 64" "i < n" "j < k" "a + of_nat i = a + of_nat n + of_nat j"
  from *(4) have "(of_nat i :: addr) = of_nat (n + j)" by (simp only: add.assoc add_left_cancel of_nat_add)
  then have "unat (of_nat i :: addr) = unat (of_nat (n + j) :: addr)" by (rule arg_cong)
  moreover have lt: "i < 2 ^ 64" "n + j < 2 ^ 64" using *(1-3) by simp_all
  ultimately have "i = n + j" by (simp only: unat_of_nat_small64 [OF lt(1)] unat_of_nat_small64 [OF lt(2)])
  with *(2) show False by simp
qed

lemma apart_shift:
  assumes "apart a n b k" and "d + n' \<le> n"
  shows "apart (a + of_nat d) n' b k"
  unfolding apart_def
proof (intro allI impI)
  fix i j
  assume "i < n'" and j: "j < k"
  with assms(2) have "d + i < n" by simp
  with assms(1) j have "a + of_nat (d + i) \<noteq> b + of_nat j" unfolding apart_def by blast
  then show "a + of_nat d + of_nat i \<noteq> b + of_nat j" by (simp add: add.assoc)
qed

lemma store_commute:
  assumes "apart a (length bs) b (length cs)"
  shows "store_bytes (store_bytes m a bs) b cs = store_bytes (store_bytes m b cs) a bs"
proof
  fix x
  have "\<not> (unat (x - a) < length bs \<and> unat (x - b) < length cs)"
  proof
    assume *: "unat (x - a) < length bs \<and> unat (x - b) < length cs"
    have "a + of_nat (unat (x - a)) = b + of_nat (unat (x - b))" by simp
    with * assms show False unfolding apart_def by blast
  qed
  then show "store_bytes (store_bytes m a bs) b cs x = store_bytes (store_bytes m b cs) a bs x"
    by (auto simp: store_bytes_def)
qed

lemma store_same_tail:
  assumes "length bs + k \<le> 2 ^ 64" and "load_bytes m (a + of_nat (length bs)) k = load_bytes m' (a + of_nat (length bs)) k"
  shows "store_bytes m a (bs @ load_bytes m' (a + of_nat (length bs)) k) = store_bytes m a bs"
proof -
  have "apart a (length bs) (a + of_nat (length bs)) k" using assms(1) by (rule apart_next)
  then have "load_bytes (store_bytes m a bs) (a + of_nat (length bs)) k = load_bytes m (a + of_nat (length bs)) k"
    by (intro load_store_apart) (rule apart_sym)
  with assms(2) have "load_bytes m' (a + of_nat (length bs)) k
      = load_bytes (store_bytes m a bs) (a + of_nat (length bs)) k" by simp
  then show ?thesis using assms(1) store_load_id [of "store_bytes m a bs" "a + of_nat (length bs)" k]
    by (simp add: store_append)
qed

section \<open>Lemmas on the loop shapes\<close>

lemma scan_while_le: "i \<le> n \<Longrightarrow> scan_while ok i n \<le> n"
proof (induction ok i n rule: scan_while.induct)
  case (1 ok i n)
  then show ?case by (subst scan_while.simps) auto
qed

lemma scan_while_full:
  "i \<le> n \<Longrightarrow> scan_while ok i n = n \<longleftrightarrow> (\<forall>j. i \<le> j \<and> j < n \<longrightarrow> ok j)"
proof (induction ok i n rule: scan_while.induct)
  case (1 ok i n)
  show ?case
  proof (cases "i < n \<and> ok i")
    case True
    then have "scan_while ok i n = scan_while ok (Suc i) n" by (subst scan_while.simps) simp
    moreover have "(\<forall>j. i \<le> j \<and> j < n \<longrightarrow> ok j) \<longleftrightarrow> (\<forall>j. Suc i \<le> j \<and> j < n \<longrightarrow> ok j)"
      using True by (metis Suc_leI Suc_leD le_neq_implies_less)
    ultimately show ?thesis using 1 True by simp
  next
    case False
    then have "scan_while ok i n = i" by (subst scan_while.simps) auto
    then show ?thesis using False 1(2) by auto
  qed
qed

lemma scan_while_full0: "scan_while ok 0 n = n \<longleftrightarrow> (\<forall>j < n. ok j)"
  by (simp add: scan_while_full)

lemma find_from_Some:
  "find_from hit cur lst = Some p \<Longrightarrow>
     cur \<le> p \<and> p \<le> lst \<and> hit p \<and> (\<forall>q. cur \<le> q \<and> q < p \<longrightarrow> \<not> hit q)"
proof (induction hit cur lst rule: find_from.induct)
  case (1 hit cur lst)
  show ?case
  proof (cases "cur \<le> lst \<and> \<not> hit cur")
    case True
    with "1.prems" have "find_from hit (Suc cur) lst = Some p"
      by (subst (asm) find_from.simps) simp
    with 1 True have *: "Suc cur \<le> p \<and> p \<le> lst \<and> hit p \<and> (\<forall>q. Suc cur \<le> q \<and> q < p \<longrightarrow> \<not> hit q)"
      by simp
    then show ?thesis using True by (metis Suc_leD Suc_leI le_neq_implies_less)
  next
    case False
    with "1.prems" have "cur \<le> lst \<and> hit cur \<and> p = cur"
      by (subst (asm) find_from.simps) (auto split: if_splits)
    then show ?thesis by auto
  qed
qed

lemma find_from_None:
  "find_from hit cur lst = None \<longleftrightarrow> (\<forall>q. cur \<le> q \<and> q \<le> lst \<longrightarrow> \<not> hit q)"
proof (induction hit cur lst rule: find_from.induct)
  case (1 hit cur lst)
  show ?case
  proof (cases "cur \<le> lst \<and> \<not> hit cur")
    case True
    then have "find_from hit cur lst = find_from hit (Suc cur) lst"
      by (subst find_from.simps) simp
    with 1 True show ?thesis by (metis Suc_leD Suc_leI le_neq_implies_less)
  next
    case False
    then show ?thesis by (subst find_from.simps) auto
  qed
qed

lemma find_from_eqI:
  assumes "cur \<le> p" "p \<le> lst" "hit p" "\<And>q. cur \<le> q \<Longrightarrow> q < p \<Longrightarrow> \<not> hit q"
  shows "find_from hit cur lst = Some p"
proof (cases "find_from hit cur lst")
  case None
  then show ?thesis using assms by (simp add: find_from_None)
next
  case (Some r)
  from find_from_Some [OF this] assms have "\<not> r < p" "\<not> p < r" by auto
  then show ?thesis using Some by simp
qed

section \<open>Evaluation\<close>

text \<open>The memory operations go through \<open>nat\<close>; evaluation uses these word-level equations, which
  compute on the binary representation.\<close>

fun word_le :: "nat \<Rightarrow> 'a :: len word \<Rightarrow> byte list" where
  "word_le 0 v = []"
| "word_le (Suc n) v = ucast v # word_le n (v div 256)"

lemma of_nat_le_nat [code_unfold]:
  "(of_nat (le_nat bs) :: 'a :: len word) = foldr (\<lambda>b acc. ucast b + 256 * acc) bs 0"
  by (induction bs) simp_all

lemma nat_le_unat:
  assumes "unat (256 :: 'a :: len word) = 256"
  shows "nat_le n (unat (v :: 'a :: len word)) = word_le n v"
proof (induction n arbitrary: v)
  case (Suc n)
  have "unat v div 256 = unat (v div 256)" by (simp only: unat_div_distrib assms)
  with Suc show ?case by simp
qed simp

lemma store_bytes_Cons: "store_bytes m a (b # bs) = (store_bytes m (a + 1) bs)(a := b)"
proof
  fix x
  show "store_bytes m a (b # bs) x = ((store_bytes m (a + 1) bs)(a := b)) x"
  proof (cases "x = a")
    case True
    then show ?thesis by (simp add: store_bytes_def)
  next
    case False
    then have "1 \<le> x - a" by (simp add: word_le_nat_alt unat_gt_0 Suc_le_eq)
    then have "unat (x - a) = Suc (unat (x - (a + 1)))"
      using unat_sub64 [of 1 "x - a"] by (simp add: algebra_simps word_le_nat_alt)
    with False show ?thesis by (simp add: store_bytes_def)
  qed
qed

declare store_bytes_Nil [code] store_bytes_Cons [code]

lemma store16_code [code]: "store16 m a v = store_bytes m a (word_le 2 v)"
  by (simp add: store16_def nat_le_unat)

lemma store32_code [code]: "store32 m a v = store_bytes m a (word_le 4 v)"
  by (simp add: store32_def nat_le_unat)

lemma store64_code [code]: "store64 m a v = store_bytes m a (word_le 8 v)"
  by (simp add: store64_def nat_le_unat)

lemma load16_code [code]: "load16 m a = foldr (\<lambda>b acc. ucast b + 256 * acc) (load_bytes m a 2) 0"
  by (simp only: load16_def of_nat_le_nat)

lemma load32_code [code]: "load32 m a = foldr (\<lambda>b acc. ucast b + 256 * acc) (load_bytes m a 4) 0"
  by (simp only: load32_def of_nat_le_nat)

lemma load64_code [code]: "load64 m a = foldr (\<lambda>b acc. ucast b + 256 * acc) (load_bytes m a 8) 0"
  by (simp only: load64_def of_nat_le_nat)

end
