(* ===== verification/Kern_CPU.thy ===== *)
theory Kern_CPU
  imports Kern_Prelude
begin

text \<open>
  The write window of \<^verbatim>\<open>Lilu/Lilu/Sources/kern_mach.cpp\<close>: \<open>setInterrupts\<close>, \<open>setWPBit\<close> and
  \<open>setKernelWriting\<close>.  The processor state is what these three functions read and write: the
  CR0 register, the interrupt flag, the depth of the spin lock passed in, the kernel memory that
  the window protects, and the two function-local statics.  \<open>cr0_latch v\<close> is the value CR0 holds
  after the instruction that writes \<open>v\<close> to it: the identity on bare metal, while a hypervisor may
  pin the write-protect bit.
\<close>

section \<open>State and operations\<close>

record cpu =
  kmem :: mem
  cr0 :: u64
  eflags_if :: bool
  lock_depth :: nat
  writeProtectionDisabled :: bool
  interruptsDisabled :: bool
  cr0_latch :: "u64 \<Rightarrow> u64"

definition CR0_WP :: u64 where
  "CR0_WP = 0x10000"

definition wp_set :: "'a cpu_scheme \<Rightarrow> bool" where
  "wp_set s \<longleftrightarrow> cr0 s AND CR0_WP \<noteq> 0"

text \<open>\<open>setInterrupts\<close>: reads the flags, then \<open>sti\<close> or \<open>cli\<close>; true when the flag changed.\<close>

definition setInterrupts :: "bool \<Rightarrow> 'a cpu_scheme \<Rightarrow> bool \<times> 'a cpu_scheme" where
  "setInterrupts enable s = (eflags_if s \<noteq> enable, s\<lparr>eflags_if := enable\<rparr>)"

definition setWPBit :: "bool \<Rightarrow> 'a cpu_scheme \<Rightarrow> bool \<times> 'a cpu_scheme" where
  "setWPBit enable s =
     (if enable \<and> \<not> writeProtectionDisabled s then
        (let s1 = s\<lparr>cr0 := cr0_latch s (cr0 s OR CR0_WP)\<rparr>
         in (cr0 s1 AND CR0_WP \<noteq> 0, s1))
      else
        (let s1 = (if \<not> enable then
                     (let wpd = (cr0 s AND CR0_WP = 0);
                          t = s\<lparr>writeProtectionDisabled := wpd\<rparr>
                      in if \<not> wpd then t\<lparr>cr0 := cr0_latch t (cr0 t AND NOT CR0_WP)\<rparr> else t)
                   else s)
         in (cr0 s1 AND CR0_WP = 0, s1)))"

text \<open>\<open>setKernelWriting(enable, lock)\<close>; \<open>lock\<close> is whether a lock object is passed, the result is
  whether the call returned \<open>KERN_SUCCESS\<close>.\<close>

definition setKernelWriting :: "bool \<Rightarrow> bool \<Rightarrow> 'a cpu_scheme \<Rightarrow> bool \<times> 'a cpu_scheme" where
  "setKernelWriting enable lock s =
     (let s1 = (if enable then
                  (let t = (if lock then s\<lparr>lock_depth := Suc (lock_depth s)\<rparr> else s);
                       (changed, t') = setInterrupts False t
                   in t'\<lparr>interruptsDisabled := \<not> changed\<rparr>)
                else s);
          (ok, s2) = setWPBit (\<not> enable) s1;
          enable' = (enable \<and> ok);
          s3 = (if \<not> enable' then
                  (let t = (if \<not> interruptsDisabled s2 then snd (setInterrupts True s2) else s2)
                   in if lock then t\<lparr>lock_depth := lock_depth t - 1\<rparr> else t)
                else s2)
      in (ok, s3))"

section \<open>The write window\<close>

text \<open>Two states agree on everything outside the window's own state: the memory it lets the
  caller edit and its two private statics.\<close>

definition same_cpu :: "'a cpu_scheme \<Rightarrow> 'a cpu_scheme \<Rightarrow> bool" where
  "same_cpu t s \<longleftrightarrow>
     t = s\<lparr>kmem := kmem t, writeProtectionDisabled := writeProtectionDisabled t,
           interruptsDisabled := interruptsDisabled t\<rparr>"

lemma same_cpu_refl [simp]: "same_cpu s s"
  by (simp add: same_cpu_def)

lemma same_cpu_trans: "same_cpu t s \<Longrightarrow> same_cpu s r \<Longrightarrow> same_cpu t r"
  by (cases t, cases s, cases r) (simp add: same_cpu_def)

lemma same_cpu_fields:
  assumes "same_cpu t s"
  shows "cr0 t = cr0 s" "eflags_if t = eflags_if s" "lock_depth t = lock_depth s"
    "cr0_latch t = cr0_latch s" "cpu.more t = cpu.more s"
  using assms by (cases t, cases s, simp add: same_cpu_def)+

lemma same_cpu_kmem [simp]: "same_cpu (s\<lparr>kmem := m\<rparr>) t \<longleftrightarrow> same_cpu s t"
  by (cases s, cases t) (auto simp: same_cpu_def)

lemma CR0_WP_exp: "CR0_WP = 2 ^ 16"
  by (simp add: CR0_WP_def)

lemma bit_CR0_WP: "bit CR0_WP n \<longleftrightarrow> n = 16"
  unfolding CR0_WP_exp bit_exp_iff by auto

lemma wp_bit: "c AND CR0_WP = 0 \<longleftrightarrow> \<not> bit c 16"
  unfolding CR0_WP_exp by (rule and_exp_eq_0_iff_not_bit)

lemma wp_clear: "(c AND NOT CR0_WP) AND CR0_WP = 0"
  by (simp add: wp_bit bit_CR0_WP bit_simps)

lemma wp_raise: "(c OR CR0_WP) AND CR0_WP \<noteq> 0"
proof -
  have "CR0_WP \<noteq> 0" by (simp add: CR0_WP_def)
  then show ?thesis by simp
qed

lemma wp_restore: "c AND CR0_WP \<noteq> 0 \<Longrightarrow> (c AND NOT CR0_WP) OR CR0_WP = c"
  by (rule bit_word_eqI) (auto simp: wp_bit bit_CR0_WP bit_simps)

text \<open>Opening and closing the window, on hardware where writes to CR0 take effect.\<close>

definition bare_metal :: "'a cpu_scheme \<Rightarrow> bool" where
  "bare_metal s \<longleftrightarrow> (\<forall>v. cr0_latch s v = v)"

text \<open>The contract a client of the window relies on: on usable states entering succeeds and keeps
  the memory, and leaving after an arbitrary edit succeeds, keeps the edit and gives everything
  else back as it was.\<close>

locale write_window =
  fixes enter :: "'s \<Rightarrow> bool \<times> 's"
    and leave :: "'s \<Rightarrow> bool \<times> 's"
    and memory :: "'s \<Rightarrow> mem"
    and put :: "mem \<Rightarrow> 's \<Rightarrow> 's"
    and usable :: "'s \<Rightarrow> bool"
    and same :: "'s \<Rightarrow> 's \<Rightarrow> bool"
  assumes enter_ok: "usable s \<Longrightarrow> fst (enter s)"
    and enter_memory: "memory (snd (enter s)) = memory s"
    and leave_ok: "usable s \<Longrightarrow> fst (leave (put m (snd (enter s))))"
    and leave_memory: "memory (snd (leave (put m t))) = m"
    and leave_same: "usable s \<Longrightarrow> same (snd (leave (put m (snd (enter s))))) s"
    and same_usable: "same t s \<Longrightarrow> usable t \<longleftrightarrow> usable s"
    and same_refl: "same s s"
    and same_trans: "same t s \<Longrightarrow> same s r \<Longrightarrow> same t r"
begin

definition edit :: "(mem \<Rightarrow> mem) \<Rightarrow> 's \<Rightarrow> 's" where
  "edit f s = snd (leave (put (f (memory (snd (enter s)))) (snd (enter s))))"

lemma edit_memory: "memory (edit f s) = f (memory s)"
  by (simp add: edit_def leave_memory enter_memory)

lemma edit_same: "usable s \<Longrightarrow> same (edit f s) s"
  by (simp add: edit_def leave_same)

lemma edit_usable: "usable s \<Longrightarrow> usable (edit f s)"
  using edit_same same_usable by blast

lemma edits:
  "usable s \<Longrightarrow> memory (fold edit fs s) = fold (\<lambda>f. f) fs (memory s)
     \<and> same (fold edit fs s) s \<and> usable (fold edit fs s)"
proof (induction fs arbitrary: s)
  case Nil
  then show ?case by (simp add: same_refl)
next
  case (Cons f fs)
  from Cons.prems have "usable (edit f s)" by (rule edit_usable)
  with Cons.IH [of "edit f s"] Cons.prems show ?case
    by (auto simp: edit_memory intro: same_trans edit_same)
qed

end

text \<open>Closed forms of entering and leaving.\<close>

lemma enter_eq:
  assumes "bare_metal s"
  shows "setKernelWriting True lock s =
    (True, s\<lparr>cr0 := cr0 s AND NOT CR0_WP, eflags_if := False,
             lock_depth := lock_depth s + of_bool lock,
             writeProtectionDisabled := \<not> wp_set s, interruptsDisabled := \<not> eflags_if s\<rparr>)"
proof (cases "wp_set s")
  case True
  with assms show ?thesis
    by (simp add: setKernelWriting_def setWPBit_def setInterrupts_def Let_def bare_metal_def
        wp_set_def wp_clear)
next
  case False
  then have "cr0 s AND NOT CR0_WP = cr0 s"
    by (intro bit_word_eqI) (auto simp: wp_set_def wp_bit bit_CR0_WP bit_simps)
  with False show ?thesis
    by (simp add: setKernelWriting_def setWPBit_def setInterrupts_def Let_def wp_set_def)
qed

lemma leave_eq:
  assumes "bare_metal s" and "\<not> wp_set s" and "lock \<Longrightarrow> 0 < lock_depth s"
  shows "setKernelWriting False lock s =
    (True, s\<lparr>cr0 := (if writeProtectionDisabled s then cr0 s else cr0 s OR CR0_WP),
             eflags_if := (\<not> interruptsDisabled s \<or> eflags_if s),
             lock_depth := lock_depth s - of_bool lock\<rparr>)"
  using assms wp_raise [of "cr0 s"]
  by (simp add: setKernelWriting_def setWPBit_def setInterrupts_def Let_def bare_metal_def wp_set_def)

lemma enter_kmem: "kmem (snd (setKernelWriting e lock s)) = kmem s"
  by (simp add: setKernelWriting_def setWPBit_def setInterrupts_def Let_def)

lemma leave_enter_eq:
  assumes "bare_metal s"
  shows "setKernelWriting False lock ((snd (setKernelWriting True lock s))\<lparr>kmem := m\<rparr>) =
    (True, s\<lparr>kmem := m, writeProtectionDisabled := \<not> wp_set s, interruptsDisabled := \<not> eflags_if s\<rparr>)"
proof -
  let ?t = "s\<lparr>kmem := m, cr0 := cr0 s AND NOT CR0_WP, eflags_if := False,
      lock_depth := lock_depth s + of_bool lock,
      writeProtectionDisabled := \<not> wp_set s, interruptsDisabled := \<not> eflags_if s\<rparr>"
  have c: "(if \<not> wp_set s then cr0 s AND NOT CR0_WP else (cr0 s AND NOT CR0_WP) OR CR0_WP) = cr0 s"
    by (rule bit_word_eqI) (auto simp: wp_set_def wp_bit bit_CR0_WP bit_simps)
  have "setKernelWriting False lock ?t =
      (True, ?t\<lparr>cr0 := cr0 s, eflags_if := eflags_if s, lock_depth := lock_depth s\<rparr>)"
    using assms c by (subst leave_eq) (auto simp: bare_metal_def wp_set_def wp_clear)
  moreover have "(snd (setKernelWriting True lock s))\<lparr>kmem := m\<rparr> = ?t"
    by (simp add: enter_eq [OF assms])
  ultimately show ?thesis by (cases s) simp
qed

interpretation kw: write_window "setKernelWriting True lock" "setKernelWriting False lock" kmem
  "\<lambda>m. kmem_update (\<lambda>_. m)" bare_metal same_cpu for lock
proof (unfold_locales, goal_cases)
  case (1 s)
  then show ?case by (simp add: enter_eq)
next
  case (2 s)
  show ?case by (rule enter_kmem)
next
  case (3 s m)
  then show ?case by (simp add: leave_enter_eq)
next
  case (4 m t)
  show ?case by (simp add: enter_kmem)
next
  case (5 s m)
  then show ?case by (simp add: leave_enter_eq same_cpu_def)
next
  case (6 t s)
  then show ?case by (simp add: bare_metal_def same_cpu_fields)
next
  case 7
  show ?case by simp
next
  case 8
  then show ?case by (rule same_cpu_trans)
qed

section \<open>Properties\<close>

text \<open>The write window is balanced.  Wherever CR0 writes take effect, opening the window
  succeeds with the write-protect bit and interrupts off and the lock held once more; closing it
  after any edit of kernel memory succeeds, keeps the edit, and restores CR0, the interrupt flag
  and the lock exactly, whatever they were.\<close>

theorem setKernelWriting_balanced:
  fixes s :: "'a cpu_scheme"
  assumes "bare_metal s"
  shows "fst (setKernelWriting True lock s)
    \<and> \<not> wp_set (snd (setKernelWriting True lock s)) \<and> \<not> eflags_if (snd (setKernelWriting True lock s))
    \<and> lock_depth (snd (setKernelWriting True lock s)) = lock_depth s + of_bool lock
    \<and> fst (setKernelWriting False lock ((snd (setKernelWriting True lock s))\<lparr>kmem := m\<rparr>))
    \<and> same_cpu (snd (setKernelWriting False lock ((snd (setKernelWriting True lock s))\<lparr>kmem := m\<rparr>))) s
    \<and> kmem (snd (setKernelWriting False lock ((snd (setKernelWriting True lock s))\<lparr>kmem := m\<rparr>))) = m"
  by (intro conjI kw.leave_ok [OF assms] kw.leave_same [OF assms] kw.leave_memory)
     (simp_all add: enter_eq [OF assms] wp_set_def wp_clear)

definition cpu0 :: cpu where
  "cpu0 = \<lparr>kmem = (\<lambda>_. 0), cr0 = 0x80010033, eflags_if = True, lock_depth = 0,
     writeProtectionDisabled = False, interruptsDisabled = False, cr0_latch = (\<lambda>v. v)\<rparr>"

theorem setKernelWriting_balanced_witness:
  "bare_metal cpu0 \<and> wp_set cpu0 \<and> fst (setKernelWriting True True cpu0)
   \<and> cr0 (snd (setKernelWriting False True (snd (setKernelWriting True True cpu0)\<lparr>kmem := (\<lambda>_. 7)\<rparr>))) = 0x80010033"
proof -
  have b: "bare_metal cpu0" by (simp add: bare_metal_def cpu0_def)
  from setKernelWriting_balanced [OF b, of True "\<lambda>_. 7"] b show ?thesis
    by (auto dest!: same_cpu_fields(1) simp: cpu0_def wp_set_def CR0_WP_def)
qed

text \<open>When the write-protect bit cannot be cleared, the failing call undoes what it did: it
  reports failure with the interrupt flag, the lock and the memory as before.\<close>

theorem setKernelWriting_failure_undone:
  fixes s :: "'a cpu_scheme"
  assumes "\<not> fst (setKernelWriting True lock s)"
  shows "eflags_if (snd (setKernelWriting True lock s)) = eflags_if s
    \<and> lock_depth (snd (setKernelWriting True lock s)) = lock_depth s
    \<and> kmem (snd (setKernelWriting True lock s)) = kmem s"
  using assms by (auto simp: setKernelWriting_def setWPBit_def setInterrupts_def Let_def)

theorem setKernelWriting_failure_undone_witness:
  "\<not> fst (setKernelWriting True True (cpu0\<lparr>cr0_latch := (\<lambda>v. v OR 0x10000)\<rparr>))
   \<and> eflags_if (snd (setKernelWriting True True (cpu0\<lparr>cr0_latch := (\<lambda>v. v OR 0x10000)\<rparr>)))"
proof -
  let ?s = "cpu0\<lparr>cr0_latch := (\<lambda>v. v OR 0x10000)\<rparr>"
  have f: "\<not> fst (setKernelWriting True True ?s)"
    by (simp add: setKernelWriting_def setWPBit_def setInterrupts_def Let_def cpu0_def CR0_WP_def)
  from setKernelWriting_failure_undone [OF f] f show ?thesis by (simp add: cpu0_def)
qed

end
