(* ===== verification/Kern_Find.thy ===== *)
theory Kern_Find
  imports Kern_CPU
begin

text \<open>
  Pattern search and masked replacement in kernel memory: \<open>KernelPatcher::findPattern\<close> and
  \<open>KernelPatcher::findAndReplaceWithMask\<close> of \<^verbatim>\<open>Lilu/Lilu/Sources/kern_patcher.cpp\<close>.  The searched
  block is a range of kernel memory, the pattern, mask and replacement are byte lists, a null mask
  is \<open>None\<close>, and \<open>size_t\<close> values are naturals with the one addition that can leave the type
  written modulo \<open>2 ^ 64\<close>.  The replacement loop may not end (an empty replacement), so it is a
  \<open>partial_function\<close>.
\<close>

section \<open>Operations\<close>

definition size_add :: "nat \<Rightarrow> nat \<Rightarrow> nat" where
  "size_add a b = (a + b) mod 2 ^ 64"

text \<open>\<open>findPattern\<close>: \<open>Some p\<close> is a true result with \<open>*dataOffset = p\<close>, \<open>None\<close> a false result that
  leaves \<open>*dataOffset\<close> alone.\<close>

definition findPattern ::
  "byte list \<Rightarrow> byte list option \<Rightarrow> nat \<Rightarrow> mem \<Rightarrow> addr \<Rightarrow> nat \<Rightarrow> nat \<Rightarrow> nat option" where
  "findPattern ptn patternMask patternSize m data dataSize dataOffset =
     (if patternSize = 0 \<or> dataSize < patternSize then None
      else
        let lastOffset = dataSize - patternSize in
        case patternMask of
          None \<Rightarrow>
            find_from (\<lambda>currOffset.
                scan_while (\<lambda>i. m (data + of_nat (currOffset + i)) = ptn ! i) 0 patternSize = patternSize)
              dataOffset lastOffset
        | Some ptnMask \<Rightarrow>
            find_from (\<lambda>currOffset.
                scan_while (\<lambda>i. (m (data + of_nat (currOffset + i)) AND ptnMask ! i) = ptn ! i)
                  0 patternSize = patternSize)
              dataOffset lastOffset)"

text \<open>The replacement of one finding: a \<open>memcpy\<close> without a mask, a byte loop with one.\<close>

definition replaceAt ::
  "byte list \<Rightarrow> nat \<Rightarrow> byte list option \<Rightarrow> nat \<Rightarrow> addr \<Rightarrow> nat \<Rightarrow> mem \<Rightarrow> mem" where
  "replaceAt repl replaceSize replaceMask findSize data dataOffset m =
     (case replaceMask of
        None \<Rightarrow> store_bytes m (data + of_nat dataOffset) (take replaceSize repl)
      | Some replMsk \<Rightarrow>
          fold (\<lambda>i d. let a = data + of_nat (dataOffset + i) in
                  d(a := (d a AND NOT (replMsk ! i)) OR (repl ! i AND replMsk ! i)))
            [0..<findSize] m)"

partial_function (option) farLoop ::
  "byte list \<Rightarrow> nat \<Rightarrow> byte list option \<Rightarrow> addr \<Rightarrow> nat \<Rightarrow> byte list \<Rightarrow> nat \<Rightarrow> byte list option \<Rightarrow> bool
    \<Rightarrow> nat \<Rightarrow> nat \<Rightarrow> nat \<Rightarrow> nat \<Rightarrow> 'a cpu_scheme \<Rightarrow> (bool \<times> 'a cpu_scheme) option" where
  "farLoop fnd findSize findMask data dataSize repl replaceSize replaceMask lock
      skip count replCount dataOffset s =
     (case findPattern fnd findMask findSize (kmem s) data dataSize dataOffset of
        None \<Rightarrow> Some (replCount > 0, s)
      | Some off \<Rightarrow>
          if skip > 0 then
            farLoop fnd findSize findMask data dataSize repl replaceSize replaceMask lock
              (skip - 1) count replCount (size_add off findSize) s
          else
            (let (ok, s1) = setKernelWriting True lock s in
             if \<not> ok then Some (False, s1)
             else
               let s2 = s1\<lparr>kmem := replaceAt repl replaceSize replaceMask findSize data off (kmem s1)\<rparr>;
                   s3 = snd (setKernelWriting False lock s2);
                   replCount' = Suc replCount;
                   off' = size_add off replaceSize;
                   count' = (if count > 0 then count - 1 else count)
               in if count > 0 \<and> count' = 0 then Some (replCount' > 0, s3)
                  else farLoop fnd findSize findMask data dataSize repl replaceSize replaceMask lock
                         skip count' replCount' off' s3))"

definition findAndReplaceWithMask ::
  "addr \<Rightarrow> nat \<Rightarrow> byte list \<Rightarrow> nat \<Rightarrow> byte list option \<Rightarrow> byte list \<Rightarrow> nat \<Rightarrow> byte list option
    \<Rightarrow> nat \<Rightarrow> nat \<Rightarrow> bool \<Rightarrow> 'a cpu_scheme \<Rightarrow> (bool \<times> 'a cpu_scheme) option" where
  "findAndReplaceWithMask data dataSize fnd findSize findMask repl replaceSize replaceMask
      count skip lock s =
     (if dataSize < findSize then Some (False, s)
      else farLoop fnd findSize findMask data dataSize repl replaceSize replaceMask lock
             skip count 0 0 s)"

section \<open>What the search finds\<close>

text \<open>The pattern occurs at offset \<open>p\<close> of the block: a masked byte is compared after masking.\<close>

definition mask_at :: "byte list option \<Rightarrow> nat \<Rightarrow> byte \<Rightarrow> byte" where
  "mask_at msk i b = (case msk of None \<Rightarrow> b | Some k \<Rightarrow> b AND k ! i)"

definition occurs_at :: "byte list \<Rightarrow> byte list option \<Rightarrow> nat \<Rightarrow> mem \<Rightarrow> addr \<Rightarrow> nat \<Rightarrow> bool" where
  "occurs_at ptn msk n m data p \<longleftrightarrow> (\<forall>i < n. mask_at msk i (m (data + of_nat (p + i))) = ptn ! i)"

lemma findPattern_eq:
  "findPattern ptn msk n m data dataSize off =
     (if n = 0 \<or> dataSize < n then None
      else find_from (occurs_at ptn msk n m data) off (dataSize - n))"
  by (auto simp: findPattern_def occurs_at_def mask_at_def scan_while_full0 fun_eq_iff Let_def
      split: option.splits intro!: arg_cong [where f = "\<lambda>h. find_from h _ _"])

lemma findPattern_SomeD:
  assumes "findPattern ptn msk n m data dataSize off = Some p"
  shows "0 < n" "off \<le> p" "p + n \<le> dataSize" "occurs_at ptn msk n m data p"
    "\<And>q. off \<le> q \<Longrightarrow> q < p \<Longrightarrow> \<not> occurs_at ptn msk n m data q"
  using assms find_from_Some [of "occurs_at ptn msk n m data" off "dataSize - n" p]
  by (auto simp: findPattern_eq split: if_splits)

lemma findPattern_NoneD:
  assumes "findPattern ptn msk n m data dataSize off = None" and "0 < n"
    and "off \<le> q" and "q + n \<le> dataSize"
  shows "\<not> occurs_at ptn msk n m data q"
  using assms by (auto simp: findPattern_eq find_from_None split: if_splits)

lemma findPattern_SomeI:
  assumes "0 < n" "off \<le> p" "p + n \<le> dataSize" "occurs_at ptn msk n m data p"
    "\<And>q. off \<le> q \<Longrightarrow> q < p \<Longrightarrow> \<not> occurs_at ptn msk n m data q"
  shows "findPattern ptn msk n m data dataSize off = Some p"
  using assms by (simp add: findPattern_eq) (rule find_from_eqI, auto)

text \<open>The contract of a search over a memory: the result is the leftmost occurrence at or after
  the given offset that lies inside the block.\<close>

locale leftmost_search =
  fixes search :: "mem \<Rightarrow> nat \<Rightarrow> nat option"
    and occ :: "mem \<Rightarrow> nat \<Rightarrow> bool"
    and width :: nat
    and total :: nat
  assumes search_Some: "search m off = Some p \<Longrightarrow>
      0 < width \<and> off \<le> p \<and> p + width \<le> total \<and> occ m p \<and> (\<forall>q. off \<le> q \<and> q < p \<longrightarrow> \<not> occ m q)"
    and search_None: "search m off = None \<Longrightarrow> 0 < width \<Longrightarrow> off \<le> q \<Longrightarrow> q + width \<le> total \<Longrightarrow> \<not> occ m q"
begin

text \<open>Skipping \<open>k\<close> findings, each followed by its full width.\<close>

fun skip_search :: "nat \<Rightarrow> mem \<Rightarrow> nat \<Rightarrow> nat option" where
  "skip_search 0 m off = search m off"
| "skip_search (Suc k) m off =
     (case search m off of None \<Rightarrow> None | Some p \<Rightarrow> skip_search k m (p + width))"

lemma skip_search_Some:
  "skip_search k m off = Some p \<Longrightarrow> off + k * width \<le> p \<and> p + width \<le> total \<and> occ m p"
proof (induction k arbitrary: off)
  case 0
  then show ?case using search_Some by force
next
  case (Suc k)
  then obtain r where r: "search m off = Some r" and "skip_search k m (r + width) = Some p"
    by (auto split: option.splits)
  with Suc.IH [of "r + width"] search_Some [OF r] show ?case by (auto simp: algebra_simps)
qed

lemma search_unique: "search m off = Some p \<Longrightarrow> off \<le> q \<Longrightarrow> q + width \<le> total \<Longrightarrow> occ m q \<Longrightarrow> p \<le> q"
  using search_Some [of m off p] by (meson not_le_imp_less)

end

interpretation fp: leftmost_search
  "\<lambda>m off. findPattern ptn msk n m data dataSize off"
  "\<lambda>m p. occurs_at ptn msk n m data p" n dataSize for ptn msk n data dataSize
proof (unfold_locales, goal_cases)
  case (1 m off p)
  then show ?case using findPattern_SomeD [OF 1] by blast
next
  case (2 m off q)
  then show ?case by (rule findPattern_NoneD)
qed

text \<open>The finding that is left after skipping \<open>k\<close> of them, as the replacement loop counts them.\<close>

fun nth_finding ::
  "byte list \<Rightarrow> byte list option \<Rightarrow> nat \<Rightarrow> addr \<Rightarrow> nat \<Rightarrow> nat \<Rightarrow> mem \<Rightarrow> nat \<Rightarrow> nat option" where
  "nth_finding ptn msk n data dataSize 0 m off = findPattern ptn msk n m data dataSize off"
| "nth_finding ptn msk n data dataSize (Suc k) m off =
     (case findPattern ptn msk n m data dataSize off of
        None \<Rightarrow> None
      | Some p \<Rightarrow> nth_finding ptn msk n data dataSize k m (p + n))"

lemma nth_finding_skip: "nth_finding ptn msk n data dataSize k m off = fp.skip_search ptn msk n data dataSize k m off"
  by (induction k arbitrary: off) (auto split: option.splits)

lemma nth_finding_Some:
  assumes "nth_finding ptn msk n data dataSize k m off = Some p"
  shows "off + k * n \<le> p" "p + n \<le> dataSize" "occurs_at ptn msk n m data p"
  using fp.skip_search_Some [OF assms [unfolded nth_finding_skip]] by auto

lemma nth_finding_short: "dataSize < n \<Longrightarrow> nth_finding ptn msk n data dataSize k m off = None"
  by (cases k) (simp_all add: findPattern_def)

section \<open>What the replacement writes\<close>

text \<open>The bytes that replace a finding: the replacement itself, or under a mask the old bits where
  the mask is clear and the replacement's bits where it is set.\<close>

definition patched_bytes ::
  "byte list \<Rightarrow> nat \<Rightarrow> byte list option \<Rightarrow> nat \<Rightarrow> mem \<Rightarrow> addr \<Rightarrow> byte list" where
  "patched_bytes repl replaceSize replaceMask findSize m a =
     (case replaceMask of
        None \<Rightarrow> take replaceSize repl
      | Some k \<Rightarrow> map (\<lambda>i. (m (a + of_nat i) AND NOT (k ! i)) OR (repl ! i AND k ! i)) [0..<findSize])"

lemma replaceAt_store:
  assumes "findSize \<le> 2 ^ 64"
  shows "replaceAt repl replaceSize replaceMask findSize data off m =
     store_bytes m (data + of_nat off)
       (patched_bytes repl replaceSize replaceMask findSize m (data + of_nat off))"
proof (cases replaceMask)
  case None
  then show ?thesis by (simp add: replaceAt_def patched_bytes_def)
next
  case (Some k)
  have "replaceAt repl replaceSize replaceMask findSize data off m =
      fold (\<lambda>i d. d((data + of_nat off) + of_nat i :=
              (\<lambda>i x. (x AND NOT (k ! i)) OR (repl ! i AND k ! i)) i (d ((data + of_nat off) + of_nat i))))
        [0..<findSize] m"
    using Some by (simp add: replaceAt_def Let_def add.assoc)
  also have "\<dots> = store_bytes m (data + of_nat off)
      (map (\<lambda>i. (\<lambda>i x. (x AND NOT (k ! i)) OR (repl ! i AND k ! i)) i (m ((data + of_nat off) + of_nat i)))
        [0..<findSize])"
    by (rule fold_update_store [OF assms])
  finally show ?thesis using Some by (simp add: patched_bytes_def)
qed

lemma length_patched_bytes:
  "replaceSize \<le> findSize \<Longrightarrow> length (patched_bytes repl replaceSize replaceMask findSize m a) \<le> findSize"
  by (auto simp: patched_bytes_def split: option.splits)

lemma replaceAt_frame:
  assumes "replaceSize \<le> findSize" and "off + findSize \<le> dataSize" and "dataSize < 2 ^ 64"
    and "dataSize \<le> unat (x - data)"
  shows "replaceAt repl replaceSize replaceMask findSize data off m x = m x"
proof -
  let ?bs = "patched_bytes repl replaceSize replaceMask findSize m (data + of_nat off)"
  have "unat (of_nat off :: addr) = off" using assms by (intro unat_of_nat_small64) simp
  moreover have "x - (data + of_nat off) = (x - data) - of_nat off" by simp
  ultimately have "unat (x - (data + of_nat off)) = unat (x - data) - off"
    using assms by (simp only: unat_sub_if_size) (auto simp: word_size)
  then have "length ?bs \<le> unat (x - (data + of_nat off))"
    using length_patched_bytes [OF assms(1), of repl replaceMask m "data + of_nat off"] assms by simp
  then show ?thesis using assms by (simp add: replaceAt_store store_bytes_other)
qed

section \<open>The replacement loop\<close>

lemma size_add_small: "a + b < 2 ^ 64 \<Longrightarrow> size_add a b = a + b"
  by (simp add: size_add_def)

text \<open>One round of the loop on hardware where the write window opens.\<close>

lemma farLoop_step:
  assumes "bare_metal s"
  shows "farLoop fnd findSize findMask data dataSize repl replaceSize replaceMask lock
      skip count replCount off s =
    (case findPattern fnd findMask findSize (kmem s) data dataSize off of
       None \<Rightarrow> Some (replCount > 0, s)
     | Some p \<Rightarrow>
         if skip > 0 then
           farLoop fnd findSize findMask data dataSize repl replaceSize replaceMask lock
             (skip - 1) count replCount (size_add p findSize) s
         else
           let s3 = kw.edit lock (replaceAt repl replaceSize replaceMask findSize data p) s in
           if count = 1 then Some (True, s3)
           else farLoop fnd findSize findMask data dataSize repl replaceSize replaceMask lock
                  0 (count - 1) (Suc replCount) (size_add p replaceSize) s3)"
proof -
  have ok: "fst (setKernelWriting True lock s)" by (rule kw.enter_ok [OF assms])
  have cnt: "(0 < count \<and> (if 0 < count then count - 1 else count) = 0) = (count = 1)"
    "(if 0 < count then count - 1 else count) = count - 1" by auto
  show ?thesis
    by (subst farLoop.simps)
       (use ok in \<open>auto simp: kw.edit_def Let_def cnt split: option.splits prod.splits\<close>)
qed

lemma farLoop_once:
  assumes "bare_metal s" and "dataSize < 2 ^ 64"
  shows "farLoop fnd findSize findMask data dataSize repl replaceSize replaceMask lock skip 1 0 off s =
    (case nth_finding fnd findMask findSize data dataSize skip (kmem s) off of
       None \<Rightarrow> Some (False, s)
     | Some p \<Rightarrow> Some (True, kw.edit lock (replaceAt repl replaceSize replaceMask findSize data p) s))"
proof (induction skip arbitrary: off)
  case 0
  show ?case by (subst farLoop_step [OF assms(1)]) (simp add: Let_def split: option.splits)
next
  case (Suc k)
  show ?case
  proof (cases "findPattern fnd findMask findSize (kmem s) data dataSize off")
    case None
    then show ?thesis by (subst farLoop_step [OF assms(1)]) simp
  next
    case (Some p)
    then have "p + findSize < 2 ^ 64" using findPattern_SomeD(3) [OF Some] assms(2) by simp
    with Some Suc show ?thesis
      by (subst farLoop_step [OF assms(1)]) (simp add: size_add_small)
  qed
qed

text \<open>The loop returns whenever a replacement is at least one byte and no longer than the pattern;
  it changes memory only inside the block and gives the processor state back.\<close>

lemma farLoop_total:
  fixes s :: "'a cpu_scheme"
  assumes rs: "0 < replaceSize" "replaceSize \<le> findSize" and ds: "dataSize < 2 ^ 64"
  shows "bare_metal s \<Longrightarrow>
    \<exists>b s'. farLoop fnd findSize findMask data dataSize repl replaceSize replaceMask lock
             skip count replCount off s = Some (b, s')
      \<and> same_cpu s' s \<and> (0 < replCount \<longrightarrow> b) \<and> (\<not> b \<longrightarrow> kmem s' = kmem s)
      \<and> (\<forall>x. dataSize \<le> unat (x - data) \<longrightarrow> kmem s' x = kmem s x)"
proof (induction "dataSize - off" arbitrary: off skip count replCount s rule: less_induct)
  case less
  show ?case
  proof (cases "findPattern fnd findMask findSize (kmem s) data dataSize off")
    case None
    then show ?thesis
      by (subst farLoop_step [OF less.prems]) simp
  next
    case (Some p)
    note D = findPattern_SomeD [OF Some]
    have small: "size_add p findSize = p + findSize" "size_add p replaceSize = p + replaceSize"
      using D ds rs by (auto intro!: size_add_small)
    show ?thesis
    proof (cases "0 < skip")
      case True
      have "dataSize - (p + findSize) < dataSize - off" using D by simp
      from less.hyps [OF this less.prems, of "skip - 1" count replCount] True Some small
      show ?thesis by (subst farLoop_step [OF less.prems]) simp
    next
      case False
      let ?s3 = "kw.edit lock (replaceAt repl replaceSize replaceMask findSize data p) s"
      have s3: "bare_metal ?s3" "same_cpu ?s3 s" by (rule kw.edit_usable kw.edit_same, rule less.prems)+
      have fr: "\<forall>x. dataSize \<le> unat (x - data) \<longrightarrow> kmem ?s3 x = kmem s x"
        using D(3) rs(2) ds by (simp add: kw.edit_memory replaceAt_frame)
      have "dataSize - (p + replaceSize) < dataSize - off" using D rs by simp
      from less.hyps [OF this s3(1), of 0 "count - 1" "Suc replCount"] obtain b s' where
        *: "farLoop fnd findSize findMask data dataSize repl replaceSize replaceMask lock
             0 (count - 1) (Suc replCount) (p + replaceSize) ?s3 = Some (b, s')"
          "same_cpu s' ?s3" b "\<forall>x. dataSize \<le> unat (x - data) \<longrightarrow> kmem s' x = kmem ?s3 x"
        by auto
      show ?thesis
      proof (cases "count = 1")
        case True
        with False Some s3 fr show ?thesis
          by (subst farLoop_step [OF less.prems]) (auto simp: Let_def)
      next
        case cnt: False
        from * fr s3(2) have "same_cpu s' s" "\<forall>x. dataSize \<le> unat (x - data) \<longrightarrow> kmem s' x = kmem s x"
          by (auto intro: same_cpu_trans)
        with False cnt Some small * show ?thesis
          by (subst farLoop_step [OF less.prems]) (auto simp: Let_def)
      qed
    qed
  qed
qed

section \<open>Properties\<close>

text \<open>C24: \<open>findPattern\<close> returns an offset exactly when it is the leftmost offset at or after the
  starting one where the (masked) pattern occurs entirely inside the block; every byte it reports
  lies inside the block.\<close>

theorem findPattern_leftmost:
  "findPattern ptn msk n m data dataSize off = Some p \<longleftrightarrow>
     0 < n \<and> off \<le> p \<and> p + n \<le> dataSize \<and> occurs_at ptn msk n m data p
     \<and> (\<forall>q. off \<le> q \<and> q < p \<longrightarrow> \<not> occurs_at ptn msk n m data q)"
  using findPattern_SomeD [of ptn msk n m data dataSize off p] findPattern_SomeI [of n off p dataSize ptn msk m data]
  by blast

theorem findPattern_leftmost_witness:
  "findPattern [0x42, 0] (Some [0xFF, 0xF0]) 2 (store_bytes (\<lambda>_. 0) 0x1000 [1, 0x42, 0x17, 0x42, 0x03]) 0x1000 5 0
     = Some 3
   \<and> \<not> occurs_at [0x42, 0] (Some [0xFF, 0xF0]) 2
        (store_bytes (\<lambda>_. 0) 0x1000 [1, 0x42, 0x17, 0x42, 0x03]) 0x1000 1"
proof -
  let ?m = "store_bytes (\<lambda>_. 0) 0x1000 [1, 0x42, 0x17, 0x42, 0x03] :: mem"
  have "findPattern [0x42, 0] (Some [0xFF, 0xF0]) 2 ?m 0x1000 5 0 = Some 3"
    by (simp add: findPattern_def find_from.simps scan_while.simps store_bytes_def)
  with findPattern_leftmost [of "[0x42, 0]" "Some [0xFF, 0xF0]" 2 ?m "0x1000" 5 0 3, THEN iffD1] show ?thesis by simp
qed

text \<open>C25: with a count of one, \<open>findAndReplaceWithMask\<close> skips the requested number of findings,
  rewrites exactly the next one (under the replacement mask, when there is one) and reports
  success; when there is no such finding it reports failure and leaves memory alone.  In every case
  the processor state is as before the call.\<close>

theorem findAndReplaceWithMask_once:
  fixes s :: "'a cpu_scheme"
  assumes "bare_metal s" and "dataSize < 2 ^ 64"
  shows "\<exists>s'. findAndReplaceWithMask data dataSize fnd findSize findMask repl replaceSize replaceMask
             1 skip lock s
           = Some (nth_finding fnd findMask findSize data dataSize skip (kmem s) 0 \<noteq> None, s')
      \<and> same_cpu s' s
      \<and> kmem s' = (case nth_finding fnd findMask findSize data dataSize skip (kmem s) 0 of
            None \<Rightarrow> kmem s
          | Some p \<Rightarrow> store_bytes (kmem s) (data + of_nat p)
              (patched_bytes repl replaceSize replaceMask findSize (kmem s) (data + of_nat p)))"
proof (cases "dataSize < findSize")
  case True
  then have "nth_finding fnd findMask findSize data dataSize skip (kmem s) 0 = None"
    by (rule nth_finding_short)
  with True show ?thesis by (simp add: findAndReplaceWithMask_def)
next
  case False
  with assms(2) have "findSize \<le> 2 ^ 64" by simp
  with False show ?thesis
    using farLoop_once [OF assms, of fnd findSize findMask data repl replaceSize replaceMask lock skip 0]
    by (auto simp: findAndReplaceWithMask_def kw.edit_memory replaceAt_store
        intro: kw.edit_same [OF assms(1)] split: option.splits)
qed

definition demo_block :: cpu where
  "demo_block = cpu0\<lparr>kmem := store_bytes (\<lambda>_. 0) 0x1000 [0x48, 0x83, 0x06, 0x48, 0x83, 0x16]\<rparr>"

lemma demo_block_bare [simp]: "bare_metal demo_block"
  by (simp add: bare_metal_def demo_block_def cpu0_def)

theorem findAndReplaceWithMask_once_witness:
  "\<exists>s'. findAndReplaceWithMask 0x1000 6 [0x48, 0x83, 0x06] 3 (Some [0xF8, 0xFF, 0x0F]) [0, 0, 0x04] 3
         (Some [0, 0, 0x0F]) 1 1 True demo_block = Some (True, s')
       \<and> kmem s' 0x1005 = 0x14 \<and> kmem s' 0x1002 = 0x06"
proof -
  have nf: "nth_finding [0x48, 0x83, 0x06] (Some [0xF8, 0xFF, 0x0F]) 3 0x1000 6 1 (kmem demo_block) 0 = Some 3"
    by (simp add: findPattern_def find_from.simps scan_while.simps store_bytes_def demo_block_def)
  obtain s' where *: "findAndReplaceWithMask 0x1000 6 [0x48, 0x83, 0x06] 3 (Some [0xF8, 0xFF, 0x0F]) [0, 0, 0x04] 3
         (Some [0, 0, 0x0F]) 1 1 True demo_block = Some (True, s')"
      "kmem s' = store_bytes (kmem demo_block) (0x1000 + of_nat 3)
         (patched_bytes [0, 0, 0x04] 3 (Some [0, 0, 0x0F]) 3 (kmem demo_block) (0x1000 + of_nat 3))"
    using findAndReplaceWithMask_once [of demo_block 6 "0x1000" "[0x48, 0x83, 0x06]" 3
        "Some [0xF8, 0xFF, 0x0F]" "[0, 0, 0x04]" 3 "Some [0, 0, 0x0F]" 1 True] nf by auto
  then show ?thesis
    by (simp add: demo_block_def store_bytes_def patched_bytes_def upt_rec)
qed

text \<open>\<open>findAndReplaceWithMask\<close> returns for every count and skip whenever the replacement is
  not empty and not longer than the pattern; it writes only inside the block it was given, leaves
  memory unchanged when it reports failure, and gives the processor state back.\<close>

theorem findAndReplaceWithMask_total:
  fixes s :: "'a cpu_scheme"
  assumes "bare_metal s" and "dataSize < 2 ^ 64" and "0 < replaceSize" and "replaceSize \<le> findSize"
  shows "\<exists>b s'. findAndReplaceWithMask data dataSize fnd findSize findMask repl replaceSize replaceMask
             count skip lock s = Some (b, s')
      \<and> same_cpu s' s \<and> (b \<or> kmem s' = kmem s)
      \<and> (\<forall>x. unat (x - data) < dataSize \<or> kmem s' x = kmem s x)"
proof -
  from farLoop_total [OF assms(3,4,2,1), of fnd findMask data repl replaceMask lock skip count 0 0]
  obtain b s' where "farLoop fnd findSize findMask data dataSize repl replaceSize replaceMask lock
      skip count 0 0 s = Some (b, s')" "same_cpu s' s" "\<not> b \<longrightarrow> kmem s' = kmem s"
      "\<forall>x. unat (x - data) < dataSize \<or> kmem s' x = kmem s x"
    by (metis linorder_not_less)
  then show ?thesis by (auto simp: findAndReplaceWithMask_def)
qed

theorem findAndReplaceWithMask_total_witness:
  "bare_metal demo_block \<and> (\<exists>b s'. findAndReplaceWithMask 0x1000 6 [0x48, 0x83] 2 None [0x90, 0x90] 2 None
     0 0 True demo_block = Some (b, s') \<and> kmem s' 0x2000 = 0)"
proof -
  have d: "kmem demo_block 0x2000 = 0" "\<not> unat (0x2000 - 0x1000 :: addr) < 6"
    by (simp_all add: demo_block_def store_bytes_def)
  from findAndReplaceWithMask_total [of demo_block 6 2 2 "0x1000" "[0x48, 0x83]" None "[0x90, 0x90]" None 0 0 True]
  obtain b s' where "findAndReplaceWithMask 0x1000 6 [0x48, 0x83] 2 None [0x90, 0x90] 2 None
     0 0 True demo_block = Some (b, s')" "\<forall>x. unat (x - 0x1000) < 6 \<or> kmem s' x = kmem demo_block x" by auto
  with d show ?thesis by (metis demo_block_bare)
qed

end
