(* ===== verification/Kern_Mach.thy ===== *)
theory Kern_Mach
  imports Kern_CPU
begin

text \<open>
  The Mach-O side of Lilu, \<^verbatim>\<open>Lilu/Lilu/Sources/kern_mach.cpp\<close>: a \<open>MachInfo\<close> object as a record of
  its fields, the walk over load commands that every header reader shares, symbol lookup in the
  link-edit buffer, the address slots used by slotted jumps, the running addresses, the kernel base
  search and the UUID check.  Headers and symbol tables are read from the byte memory with the
  x86-64 layouts of the Mach-O structures.  Pointers are 64-bit words and pointer comparisons are
  unsigned.
\<close>

section \<open>Layouts and constants\<close>

definition MH_MAGIC_64 :: u32 where "MH_MAGIC_64 = 0xfeedfacf"
definition MH_MAGIC :: u32 where "MH_MAGIC = 0xfeedface"
definition FAT_MAGIC :: u32 where "FAT_MAGIC = 0xcafebabe"
definition FAT_CIGAM :: u32 where "FAT_CIGAM = 0xbebafeca"
definition LC_SEGMENT :: u32 where "LC_SEGMENT = 1"
definition LC_SYMTAB :: u32 where "LC_SYMTAB = 2"
definition LC_SEGMENT_64 :: u32 where "LC_SEGMENT_64 = 0x19"
definition LC_UUID :: u32 where "LC_UUID = 0x1b"
definition N_STAB :: byte where "N_STAB = 0xe0"
definition PAGE_SIZE :: u64 where "PAGE_SIZE = 0x1000"
definition HeaderSize :: u64 where "HeaderSize = 0x2000"
definition KASLRAlignment :: u64 where "KASLRAlignment = 0x100000"

lemmas mach_consts = MH_MAGIC_64_def MH_MAGIC_def FAT_MAGIC_def FAT_CIGAM_def LC_SEGMENT_def
  LC_SYMTAB_def LC_SEGMENT_64_def LC_UUID_def N_STAB_def PAGE_SIZE_def HeaderSize_def
  KASLRAlignment_def

text \<open>Kernel versions, with the numbers of the \<open>KernelVersion\<close> enumeration.\<close>

definition Leopard :: nat where "Leopard = 9"
definition SnowLeopard :: nat where "SnowLeopard = 10"
definition BigSur :: nat where "BigSur = 20"
definition Monterey :: nat where "Monterey = 21"
definition Ventura :: nat where "Ventura = 22"
definition Sonoma :: nat where "Sonoma = 23"
definition Sequoia :: nat where "Sequoia = 24"
definition Tahoe :: nat where "Tahoe = 25"

lemmas kernel_versions = Leopard_def SnowLeopard_def BigSur_def Monterey_def Ventura_def Sonoma_def
  Sequoia_def Tahoe_def

definition mh_ncmds :: "mem \<Rightarrow> addr \<Rightarrow> nat" where
  "mh_ncmds m mh = unat (load32 m (mh + 16))"

definition lc_cmd :: "mem \<Rightarrow> addr \<Rightarrow> u32" where
  "lc_cmd m a = load32 m a"

definition lc_cmdsize :: "mem \<Rightarrow> addr \<Rightarrow> u64" where
  "lc_cmdsize m a = ucast (load32 m (a + 4))"

text \<open>\<open>!strncmp(segCmd->segname, name, sizeof(segCmd->segname))\<close> of a 64-bit or 32-bit segment.\<close>

definition seg_named :: "mem \<Rightarrow> addr \<Rightarrow> string \<Rightarrow> bool" where
  "seg_named m a name \<longleftrightarrow> strncmp_eq (cbytes name) m (a + 8) 16"

definition isAligned4 :: "addr \<Rightarrow> bool" where
  "isAligned4 a \<longleftrightarrow> a mod 4 = 0"

section \<open>The object\<close>

record machinfo =
  running_text_addr :: addr
  disk_text_addr :: addr
  kaslr_slide :: u64
  prelink_vmaddr :: addr
  sym_buf :: addr
  sym_buf_ro :: bool
  sym_fileoff :: u64
  sym_size :: u64
  symboltable_fileoff :: u32
  symboltable_nr_symbols :: u32
  stringtable_fileoff :: u32
  stringtable_size :: u32
  running_mh :: addr
  address_slots :: addr
  address_slots_end :: addr
  memory_size :: u64
  kaslr_slide_set :: bool
  prelink_slid :: bool
  kernel_collection :: bool
  self_uuid :: "u64 \<times> u64"
  isKernel :: bool
  objectId :: "string option"

definition new_machinfo :: "bool \<Rightarrow> string option \<Rightarrow> machinfo" where
  "new_machinfo asKernel ident =
     \<lparr>running_text_addr = 0, disk_text_addr = 0, kaslr_slide = 0, prelink_vmaddr = 0, sym_buf = 0,
      sym_buf_ro = False, sym_fileoff = 0, sym_size = 0, symboltable_fileoff = 0,
      symboltable_nr_symbols = 0, stringtable_fileoff = 0, stringtable_size = 0, running_mh = 0,
      address_slots = 0, address_slots_end = 0, memory_size = HeaderSize, kaslr_slide_set = False,
      prelink_slid = False, kernel_collection = False, self_uuid = (0, 0),
      isKernel = asKernel, objectId = ident\<rparr>"

section \<open>Load commands\<close>

text \<open>The walk all header readers perform: up to \<open>n\<close> commands from \<open>addr\<close>, each checked to be
  aligned and to end before \<open>endaddr\<close> (the kernel-collection walks pass no bound and check nothing).
  The body either goes on with a new state or stops the walk with a result.\<close>

datatype ('s, 'r) walk = Malformed 's | Exhausted 's | Stopped 'r

fun walkCommands ::
  "(addr \<Rightarrow> 's \<Rightarrow> 's + 'r) \<Rightarrow> mem \<Rightarrow> addr option \<Rightarrow> nat \<Rightarrow> addr \<Rightarrow> 's \<Rightarrow> ('s, 'r) walk" where
  "walkCommands body m bound 0 addr s = Exhausted s"
| "walkCommands body m bound (Suc n) addr s =
     (if (case bound of None \<Rightarrow> False
          | Some endaddr \<Rightarrow> \<not> isAligned4 addr \<or> addr + 8 > endaddr \<or> addr + lc_cmdsize m addr > endaddr)
      then Malformed s
      else case body addr s of
             Inr r \<Rightarrow> Stopped r
           | Inl s' \<Rightarrow> walkCommands body m bound n (addr + lc_cmdsize m addr) s')"

section \<open>Symbol lookup\<close>

fun symLoop :: "mem \<Rightarrow> byte list \<Rightarrow> addr \<Rightarrow> addr \<Rightarrow> u64 \<Rightarrow> nat \<Rightarrow> addr \<Rightarrow> addr" where
  "symLoop m symbol strlist endaddr slide 0 nlist = 0"
| "symLoop m symbol strlist endaddr slide (Suc n) nlist =
     (if nlist + 16 \<le> endaddr then
        (let symlen = length symbol + 1;
             symbolStr = strlist + ucast (load32 m nlist)
         in if symbolStr + of_nat symlen \<le> endaddr \<and> m (nlist + 4) AND N_STAB = 0
               \<and> strncmp_eq symbol m symbolStr symlen
            then load64 m (nlist + 8) + slide
            else symLoop m symbol strlist endaddr slide n (nlist + 16))
      else 0)"

definition solveSymbolIn :: "mem \<Rightarrow> machinfo \<Rightarrow> string \<Rightarrow> addr" where
  "solveSymbolIn m info symbol =
     (if sym_buf info = 0 then 0
      else if symboltable_fileoff info = 0 then 0
      else if \<not> kaslr_slide_set info then 0
      else
        let nlist = sym_buf info + (ucast (symboltable_fileoff info) - sym_fileoff info);
            strlist = sym_buf info + (ucast (stringtable_fileoff info) - sym_fileoff info);
            endaddr = sym_buf info + sym_size info
        in if nlist \<ge> sym_buf info \<and> strlist \<ge> sym_buf info then
             symLoop m (cbytes symbol) strlist endaddr (kaslr_slide info)
               (unat (symboltable_nr_symbols info)) nlist
           else 0)"

section \<open>Address slots\<close>

definition getAddressSlot :: "machinfo \<Rightarrow> addr \<times> machinfo" where
  "getAddressSlot info =
     (if address_slots info \<noteq> 0 \<and> address_slots info + 8 \<le> address_slots_end info
      then (address_slots info, info\<lparr>address_slots := address_slots info + 8\<rparr>)
      else (0, info))"

text \<open>The end of the slots: past the commands, rounded, then moved forward while the page found
  there starts with a zero word.  The loop reads memory until it finds a non-zero word.\<close>

partial_function (option) slotsEndLoop :: "mem \<Rightarrow> addr \<Rightarrow> addr option" where
  "slotsEndLoop m a = (if load32 m a = 0 then slotsEndLoop m (a + PAGE_SIZE) else Some a)"

definition activateSlots :: "mem \<Rightarrow> addr \<Rightarrow> machinfo \<Rightarrow> machinfo option" where
  "activateSlots m mh info =
     (let slots = mh + 32 + ucast (load32 m (mh + 20));
          end0 = (slots + (PAGE_SIZE - 1)) AND NOT PAGE_SIZE
      in case slotsEndLoop m end0 of
           None \<Rightarrow> None
         | Some e \<Rightarrow> Some (info\<lparr>address_slots := slots, address_slots_end := e\<rparr>))"

section \<open>Running addresses\<close>

definition processMachHeader :: "mem \<Rightarrow> addr \<Rightarrow> machinfo \<Rightarrow> machinfo" where
  "processMachHeader m header info =
     (case walkCommands
         (\<lambda>a i.
            if lc_cmd m a = LC_SEGMENT_64 then
              (if seg_named m a ''__TEXT'' then Inl (i\<lparr>disk_text_addr := load64 m (a + 24)\<rparr>)
               else if seg_named m a ''__LINKEDIT'' then
                 Inl (i\<lparr>sym_fileoff := load64 m (a + 40), sym_size := load64 m (a + 48)\<rparr>)
               else Inl i)
            else if lc_cmd m a = LC_SYMTAB then
              Inl (i\<lparr>symboltable_fileoff := load32 m (a + 8), symboltable_nr_symbols := load32 m (a + 12),
                     stringtable_fileoff := load32 m (a + 16), stringtable_size := load32 m (a + 20)\<rparr>)
            else Inl i)
         m (Some (header + HeaderSize)) (mh_ncmds m header) (header + 32) info of
        Malformed i \<Rightarrow> i
      | Exhausted i \<Rightarrow> i
      | Stopped i \<Rightarrow> i)"

definition setRunningAddresses :: "u64 \<Rightarrow> u64 \<Rightarrow> machinfo \<Rightarrow> machinfo" where
  "setRunningAddresses slide sz info =
     info\<lparr>memory_size := sz, kaslr_slide := slide, kaslr_slide_set := True\<rparr>"

definition getRunningPosition :: "machinfo \<Rightarrow> addr \<times> u64" where
  "getRunningPosition info =
     (running_mh info, if memory_size info > 0 then memory_size info else HeaderSize)"

definition getUUID :: "mem \<Rightarrow> addr \<Rightarrow> addr option" where
  "getUUID m header =
     (if header = 0 then None
      else case walkCommands (\<lambda>a s. if lc_cmd m a = LC_UUID then Inr (a + 8) else Inl s)
                  m (Some (header + HeaderSize)) (mh_ncmds m header) (header + 32) () of
             Stopped p \<Rightarrow> Some p
           | _ \<Rightarrow> None)"

definition loadUUID :: "nat \<Rightarrow> mem \<Rightarrow> addr \<Rightarrow> machinfo \<Rightarrow> bool \<times> machinfo" where
  "loadUUID kver m header info =
     (if kver < Leopard then (True, info)
      else case getUUID m header of
             Some p \<Rightarrow> (True, info\<lparr>self_uuid := (load64 m p, load64 m (p + 8))\<rparr>)
           | None \<Rightarrow> (False, info))"

section \<open>Kernel base\<close>

text \<open>Whether the header at \<open>tmp\<close> has a \<open>__TEXT\<close> segment among its well-formed commands.\<close>

definition hasTextSegment :: "mem \<Rightarrow> addr \<Rightarrow> bool" where
  "hasTextSegment m tmp =
     (case walkCommands (\<lambda>a s. if lc_cmd m a = LC_SEGMENT_64 \<and> seg_named m a ''__TEXT'' then Inr () else Inl s)
             m (Some (tmp + HeaderSize)) (mh_ncmds m tmp) (tmp + 32) () of
        Stopped _ \<Rightarrow> True
      | _ \<Rightarrow> False)"

text \<open>What the search accepts at an address: \<open>Some True\<close> for a kernel collection (fileset) header,
  \<open>Some False\<close> for a plain kernel header.\<close>

definition kernelHeaderAt :: "nat \<Rightarrow> mem \<Rightarrow> addr \<Rightarrow> bool option" where
  "kernelHeaderAt kver m tmp =
     (if load32 m tmp = MH_MAGIC_64 then
        (if kver \<ge> BigSur \<and> load32 m (tmp + 12) = 0xC \<and> load32 m (tmp + 24) = 0 \<and> load32 m (tmp + 28) = 0
         then Some True
         else if hasTextSegment m tmp then Some False else None)
      else None)"

definition searchStep :: "nat \<Rightarrow> u64" where
  "searchStep kver = (if kver \<ge> SnowLeopard then KASLRAlignment else PAGE_SIZE)"

partial_function (option) kernelBaseLoop :: "nat \<Rightarrow> mem \<Rightarrow> addr \<Rightarrow> (addr \<times> bool) option" where
  "kernelBaseLoop kver m tmp =
     (case kernelHeaderAt kver m tmp of
        Some kc \<Rightarrow> Some (tmp, kc)
      | None \<Rightarrow> kernelBaseLoop kver m (tmp - searchStep kver))"

text \<open>The two function-local statics of \<open>findKernelBase\<close>.\<close>

type_synonym kbase = "addr \<times> bool"

definition findKernelBase ::
  "nat \<Rightarrow> mem \<Rightarrow> addr \<Rightarrow> kbase \<Rightarrow> machinfo \<Rightarrow> (addr \<times> kbase \<times> machinfo) option" where
  "findKernelBase kver m IOLog st info =
     (if fst st \<noteq> 0 then Some (fst st, st, info\<lparr>kernel_collection := snd st\<rparr>)
      else case kernelBaseLoop kver m (IOLog AND NOT (KASLRAlignment - 1)) of
             None \<Rightarrow> None
           | Some (tmp, kc) \<Rightarrow>
               Some (tmp, (tmp, kc \<or> snd st), if kc then info\<lparr>kernel_collection := True\<rparr> else info))"

text \<open>\<open>base ? base : findKernelBase()\<close>\<close>

definition baseOr ::
  "nat \<Rightarrow> mem \<Rightarrow> addr \<Rightarrow> addr \<Rightarrow> kbase \<Rightarrow> machinfo \<Rightarrow> (addr \<times> kbase \<times> machinfo) option" where
  "baseOr kver m IOLog base st info =
     (if base \<noteq> 0 then Some (base, st, info) else findKernelBase kver m IOLog st info)"

definition isCurrentBinary ::
  "nat \<Rightarrow> mem \<Rightarrow> addr \<Rightarrow> addr \<Rightarrow> kbase \<Rightarrow> machinfo \<Rightarrow> (bool \<times> kbase \<times> machinfo) option" where
  "isCurrentBinary kver m IOLog base st info =
     (if kernel_collection info then Some (True, st, info)
      else if kver < Leopard then Some (True, st, info)
      else case baseOr kver m IOLog base st info of
             None \<Rightarrow> None
           | Some (binaryBase, st', info') \<Rightarrow>
               Some ((case (if binaryBase \<noteq> 0 then getUUID m binaryBase else None) of
                        None \<Rightarrow> False
                      | Some p \<Rightarrow> fst (self_uuid info') = load64 m p \<and> snd (self_uuid info') = load64 m (p + 8)),
                     st', info'))"

section \<open>Running addresses of kernel collections and plain images\<close>

text \<open>The header of the inner kernel of a collection: the address of its \<open>__TEXT_EXEC\<close> segment.\<close>

definition innerKernel :: "mem \<Rightarrow> addr \<Rightarrow> addr" where
  "innerKernel m mh =
     (case walkCommands
         (\<lambda>a s. if lc_cmd m a = LC_SEGMENT_64 \<and> seg_named m a ''__TEXT_EXEC''
                then Inr (load64 m (a + 24)) else Inl s)
         m None (mh_ncmds m mh) (mh + 32) () of
        Stopped p \<Rightarrow> p
      | _ \<Rightarrow> 0)"

definition kcSegments :: "mem \<Rightarrow> addr \<Rightarrow> machinfo \<Rightarrow> machinfo \<times> addr" where
  "kcSegments m inner info =
     (case walkCommands
         (\<lambda>a (i, last_addr).
            if lc_cmd m a = LC_SEGMENT_64 then
              (if sym_buf i = 0 \<and> seg_named m a ''__LINKEDIT'' then
                 Inl (i\<lparr>sym_buf := load64 m (a + 24), sym_fileoff := load64 m (a + 40),
                        sym_size := load64 m (a + 32), sym_buf_ro := True\<rparr>, last_addr)
               else if load64 m (a + 24) + load64 m (a + 32) > last_addr then
                 Inl (i, load64 m (a + 24) + load64 m (a + 32))
               else Inl (i, last_addr))
            else if symboltable_fileoff i = 0 \<and> lc_cmd m a = LC_SYMTAB then
              Inl (i\<lparr>symboltable_fileoff := load32 m (a + 8), symboltable_nr_symbols := load32 m (a + 12),
                     stringtable_fileoff := load32 m (a + 16)\<rparr>, last_addr)
            else Inl (i, last_addr))
         m None (mh_ncmds m inner) (inner + 32) (info, 0) of
        Malformed r \<Rightarrow> r
      | Exhausted r \<Rightarrow> r
      | Stopped r \<Rightarrow> r)"

definition kcGetRunningAddresses ::
  "nat \<Rightarrow> mem \<Rightarrow> addr \<Rightarrow> addr \<Rightarrow> kbase \<Rightarrow> machinfo \<Rightarrow> (bool \<times> kbase \<times> machinfo) option" where
  "kcGetRunningAddresses kver m IOLog slide st info =
     (case baseOr kver m IOLog slide st info of
        None \<Rightarrow> None
      | Some (base, st1, info1) \<Rightarrow>
          if base = 0 then Some (False, st1, info1)
          else
            let inner = (if isKernel info1 then innerKernel m base else base) in
            if inner = 0 then Some (False, st1, info1)
            else
              let (info2, last_addr) = kcSegments m inner info1 in
              if sym_buf info2 = 0 \<or> symboltable_fileoff info2 = 0 then Some (False, st1, info2)
              else if last_addr < inner then Some (False, st1, info2)
              else
                let info3 = info2\<lparr>kaslr_slide_set := True, prelink_slid := True, running_mh := inner,
                                  memory_size := last_addr - inner\<rparr>
                in if slide \<noteq> 0 \<or> isKernel info3 then
                     (case activateSlots m inner info3 of
                        None \<Rightarrow> None
                      | Some info4 \<Rightarrow> Some (True, st1, info4))
                   else Some (True, st1, info3))"

text \<open>The \<open>__TEXT\<close> search of \<open>getRunningAddresses\<close>: \<open>None\<close> when a command is malformed.\<close>

definition runningText :: "mem \<Rightarrow> addr \<Rightarrow> machinfo \<Rightarrow> machinfo option" where
  "runningText m base info =
     (case walkCommands
         (\<lambda>a i. if lc_cmd m a = LC_SEGMENT_64 \<and> seg_named m a ''__TEXT''
                then Inr (i\<lparr>running_text_addr := load64 m (a + 24), running_mh := base\<rparr>) else Inl i)
         m (Some (base + HeaderSize)) (mh_ncmds m base) (base + 32) info of
        Malformed _ \<Rightarrow> None
      | Exhausted i \<Rightarrow> Some i
      | Stopped i \<Rightarrow> Some i)"

definition getRunningAddresses ::
  "nat \<Rightarrow> mem \<Rightarrow> addr \<Rightarrow> addr \<Rightarrow> u64 \<Rightarrow> bool \<Rightarrow> kbase \<Rightarrow> machinfo \<Rightarrow> (bool \<times> kbase \<times> machinfo) option" where
  "getRunningAddresses kver m IOLog slide sz force st info0 =
     (let info = (if force then info0\<lparr>kaslr_slide_set := False, running_mh := 0, running_text_addr := 0,
                                       memory_size := 0\<rparr> else info0)
      in if kaslr_slide_set info then Some (True, st, info)
         else
           let info1 = (if sz > 0 then info\<lparr>memory_size := sz\<rparr> else info) in
           case baseOr kver m IOLog slide st info1 of
             None \<Rightarrow> None
           | Some (base, st2, info2) \<Rightarrow>
               if kernel_collection info2 \<and> sym_buf info2 = 0 then
                 kcGetRunningAddresses kver m IOLog slide st2 info2
               else
                 case (if base \<noteq> 0 then runningText m base info2 else Some info2) of
                   None \<Rightarrow> Some (False, st2, info2)
                 | Some info3 \<Rightarrow>
                     if running_text_addr info3 \<noteq> 0 \<and> running_mh info3 \<noteq> 0 then
                       let info4 = info3\<lparr>kaslr_slide :=
                                     (if slide = 0 then running_text_addr info3 - disk_text_addr info3
                                      else if prelink_slid info3 then prelink_vmaddr info3 else slide),
                                   kaslr_slide_set := True\<rparr>
                       in case activateSlots m (running_mh info4) info4 of
                            None \<Rightarrow> None
                          | Some info5 \<Rightarrow> Some (True, st2, info5)
                     else Some (False, st2, info3))"

section \<open>A small image\<close>

text \<open>A link-edit buffer with a debugger entry and a proper entry for the same name.\<close>

definition demo_linkedit :: mem where
  "demo_linkedit = store_bytes (\<lambda>_. 0) 0x10000
     [1, 0, 0, 0, 0xe4, 0, 0, 0,  1, 0, 0, 0, 0, 0, 0, 0,
      1, 0, 0, 0, 0x0f, 1, 0, 0,  0, 0x10, 0, 0, 0, 0, 0, 0,
      0, 0x5f, 0x6b, 0x6d, 0x6f, 0x64, 0]"

definition demo_info :: machinfo where
  "demo_info = (new_machinfo True (Some ''kernel''))
     \<lparr>sym_buf := 0x10000, sym_size := 0x30, sym_fileoff := 0x400, symboltable_fileoff := 0x400,
      symboltable_nr_symbols := 2, stringtable_fileoff := 0x420, kaslr_slide := 0x2000,
      kaslr_slide_set := True\<rparr>"

section \<open>Symbol lookup stays inside the link-edit buffer\<close>

text \<open>The buffer ends, and the tables lie, well below the top of the address space, and the file
  offset of the buffer is smaller than its address: true of every kernel-space buffer.\<close>

definition sym_room :: "machinfo \<Rightarrow> nat \<Rightarrow> bool" where
  "sym_room info len \<longleftrightarrow>
     unat (sym_buf info) + unat (sym_size info) + 2 ^ 33 + len + 32 \<le> 2 ^ 64
     \<and> unat (sym_fileoff info) \<le> unat (sym_buf info)"

lemma table_offset:
  fixes B off :: u64 and t :: u32
  assumes "unat off \<le> unat B" and "unat B + 2 ^ 32 \<le> 2 ^ 64" and "B \<le> B + (ucast t - off)"
  shows "unat (B + (ucast t - off)) < unat B + 2 ^ 32"
proof (cases "off \<le> ucast t")
  case True
  have "unat (ucast t - off) < 2 ^ 32"
    using unat_sub64 [OF True] unat_u32 [of t] by (simp add: unat_ucast32)
  then show ?thesis using assms(2) by (subst unat_add_small64) auto
next
  case False
  then have lt: "unat t < unat off" by (simp add: word_le_nat_alt unat_ucast32)
  have e: "B + (ucast t - off) = B - (off - ucast t)" by simp
  have d: "unat (off - ucast t) = unat off - unat t"
    using False unat_sub64 [of "ucast t" off] by (simp add: unat_ucast32)
  have "off - ucast t \<le> B" using d assms(1) by (simp add: word_le_nat_alt)
  then have "unat (B + (ucast t - off)) = unat B - (unat off - unat t)"
    unfolding e using unat_sub64 [of "off - ucast t" B] d by simp
  moreover have "unat B \<le> unat (B + (ucast t - off))" using assms(3) by (simp add: word_le_nat_alt)
  ultimately show ?thesis using lt assms(1) by linarith
qed

lemma symLoop_agree:
  assumes ag: "agree m m' B N" and N: "unat B + N + 2 ^ 33 + length symbol + 32 \<le> 2 ^ 64"
    and E: "endaddr = B + of_nat N" and st: "B \<le> strlist" "unat strlist < unat B + 2 ^ 32"
  shows "B \<le> nlist \<Longrightarrow> unat nlist \<le> unat B + N + 2 ^ 32 \<Longrightarrow>
    symLoop m symbol strlist endaddr slide n nlist = symLoop m' symbol strlist endaddr slide n nlist"
proof (induction n arbitrary: nlist)
  case 0
  then show ?case by simp
next
  case (Suc n)
  have uN: "unat (of_nat N :: addr) = N" using N by (intro unat_of_nat_small64) simp
  have uE: "unat endaddr = unat B + N" unfolding E using N by (subst unat_add_small64) (auto simp: uN)
  show ?case
  proof (cases "nlist + 16 \<le> endaddr")
    case False
    then show ?thesis by simp
  next
    case True
    have u16: "unat (nlist + 16) = unat nlist + 16" using Suc.prems N by (subst unat_add_small64) auto
    then have hi: "unat nlist + 16 \<le> unat B + N" using True uE by (simp add: word_le_nat_alt)
    have off: "unat (nlist - B) + 16 \<le> N"
      using hi Suc.prems(1) by (simp add: unat_sub64 word_le_nat_alt)
    have at: "unat (nlist + of_nat k - B) = unat (nlist - B) + k" if "k \<le> 16" for k
      using off N that by (intro unat_offset_sub) simp
    have eqs: "load32 m nlist = load32 m' nlist" "m (nlist + 4) = m' (nlist + 4)"
      "load64 m (nlist + 8) = load64 m' (nlist + 8)"
      using off N at [of 4] at [of 8]
      by (auto intro!: agree_load32 [OF ag] agree_load64 [OF ag] agree_at [OF ag])
    let ?s = "strlist + ucast (load32 m nlist)"
    have us: "unat ?s = unat strlist + unat (load32 m nlist)"
      using st(2) N unat_u32 [of "load32 m nlist"] by (subst unat_add_small64) (auto simp: unat_ucast32)
    have cmp: "strncmp_eq symbol m ?s (length symbol + 1) = strncmp_eq symbol m' ?s (length symbol + 1)"
      if le: "?s + of_nat (length symbol + 1) \<le> endaddr"
    proof (rule agree_strncmp [OF ag])
      have "unat (of_nat (length symbol + 1) :: addr) = length symbol + 1"
        using N by (intro unat_of_nat_small64) simp
      then have "unat (?s + of_nat (length symbol + 1)) = unat ?s + (length symbol + 1)"
        using us st(2) N unat_u32 [of "load32 m nlist"] by (subst unat_add_small64) auto
      with le uE have "unat ?s + (length symbol + 1) \<le> unat B + N" by (simp add: word_le_nat_alt)
      moreover have "B \<le> ?s" using us st(1) by (simp add: word_le_nat_alt)
      ultimately show "unat (?s - B) + (length symbol + 1) \<le> N"
        by (simp add: unat_sub64 word_le_nat_alt)
    qed (use N in simp)
    have "B \<le> nlist + 16" "unat (nlist + 16) \<le> unat B + N + 2 ^ 32"
      using Suc.prems u16 hi by (auto simp: word_le_nat_alt)
    from Suc.IH [OF this] show ?thesis using eqs cmp by (auto simp: Let_def)
  qed
qed

text \<open>Symbol lookup reads nothing outside the link-edit buffer: on any two memories that agree
  on the \<open>sym_size\<close> bytes from \<open>sym_buf\<close> it returns the same address, whatever the symbol and string
  table offsets, the symbol count and the entries of the table say.\<close>

theorem solveSymbol_confined:
  assumes "agree m m' (sym_buf info) (unat (sym_size info))"
    and "sym_room info (length symbol)"
  shows "solveSymbolIn m info symbol = solveSymbolIn m' info symbol"
proof -
  let ?B = "sym_buf info" and ?n = "sym_buf info + (ucast (symboltable_fileoff info) - sym_fileoff info)"
  let ?s = "sym_buf info + (ucast (stringtable_fileoff info) - sym_fileoff info)"
  have room: "unat ?B + unat (sym_size info) + 2 ^ 33 + length (cbytes symbol) + 32 \<le> 2 ^ 64"
    "unat (sym_fileoff info) \<le> unat ?B"
    using assms(2) by (simp_all add: sym_room_def cbytes_def)
  have t: "unat (?B + (ucast t - sym_fileoff info)) < unat ?B + 2 ^ 32"
    if "?B \<le> ?B + (ucast t - sym_fileoff info)" for t :: u32
    using that room by (intro table_offset) auto
  have E: "?B + sym_size info = ?B + of_nat (unat (sym_size info))" by simp
  have "symLoop m (cbytes symbol) ?s (?B + sym_size info) sl k ?n
      = symLoop m' (cbytes symbol) ?s (?B + sym_size info) sl k ?n"
    if "?B \<le> ?n" "?B \<le> ?s" for sl k
    using t [OF that(1)] by (intro symLoop_agree [OF assms(1) room(1) E that(2) t [OF that(2)] that(1)]) simp
  then show ?thesis unfolding solveSymbolIn_def Let_def by simp
qed

theorem solveSymbol_confined_witness:
  "sym_room demo_info (length ''_kmod'') \<and> solveSymbolIn (demo_linkedit(0x10030 := 0xFF)) demo_info ''_kmod'' = 0x3000"
proof -
  have ag: "agree (demo_linkedit(0x10030 := 0xFF)) demo_linkedit (sym_buf demo_info) (unat (sym_size demo_info))"
    by (auto simp: agree_def demo_info_def new_machinfo_def)
  have r: "sym_room demo_info (length ''_kmod'')" by (simp add: sym_room_def demo_info_def new_machinfo_def)
  have "solveSymbolIn demo_linkedit demo_info ''_kmod'' = 0x3000" by code_simp
  with r solveSymbol_confined [OF ag r] show ?thesis by simp
qed

section \<open>Symbol lookup finds the first entry\<close>

text \<open>The table entries the loop can look at: those that end inside the buffer, up to the first that
  does not.\<close>

definition sym_entries :: "addr \<Rightarrow> addr \<Rightarrow> nat \<Rightarrow> addr list" where
  "sym_entries nlist endaddr n =
     takeWhile (\<lambda>e. e + 16 \<le> endaddr) (map (\<lambda>i. nlist + of_nat (16 * i)) [0..<n])"

text \<open>An entry names the symbol: its string lies inside the buffer, it is no debugger entry, and the
  string is the symbol with its terminator.\<close>

definition sym_names :: "mem \<Rightarrow> byte list \<Rightarrow> addr \<Rightarrow> addr \<Rightarrow> addr \<Rightarrow> bool" where
  "sym_names m symbol strlist endaddr e \<longleftrightarrow>
     strlist + ucast (load32 m e) + of_nat (Suc (length symbol)) \<le> endaddr
     \<and> m (e + 4) AND N_STAB = 0
     \<and> load_bytes m (strlist + ucast (load32 m e)) (Suc (length symbol)) = symbol @ [0]"

lemma sym_entries_Suc:
  "sym_entries nlist endaddr (Suc n) =
     (if nlist + 16 \<le> endaddr then nlist # sym_entries (nlist + 16) endaddr n else [])"
proof -
  have "[0..<Suc n] = 0 # map Suc [0..<n]" by (simp only: map_Suc_upt upt_conv_Cons zero_less_Suc)
  then have "map (\<lambda>i. nlist + of_nat (16 * i)) [0..<Suc n]
      = nlist # map (\<lambda>i. (nlist + 16) + of_nat (16 * i)) [0..<n]"
    by (simp only: list.map map_map comp_def) (simp add: algebra_simps)
  then show ?thesis by (simp add: sym_entries_def)
qed

lemma symLoop_find:
  assumes "0 \<notin> set symbol"
  shows "symLoop m symbol strlist endaddr slide n nlist =
    (case find (sym_names m symbol strlist endaddr) (sym_entries nlist endaddr n) of
       None \<Rightarrow> 0
     | Some e \<Rightarrow> load64 m (e + 8) + slide)"
proof (induction n arbitrary: nlist)
  case 0
  show ?case by (simp add: sym_entries_def)
next
  case (Suc n)
  then show ?case
    using strncmp_full [OF assms] by (simp add: sym_entries_Suc sym_names_def Let_def del: of_nat_Suc)
qed

text \<open>C28: for an image whose symbols and slide are known, symbol lookup returns the slid value of the
  first entry, among those that lie inside the buffer, that is not a debugger entry and whose
  string is exactly the symbol; without such an entry it returns 0.\<close>

theorem solveSymbol_first:
  fixes info :: machinfo
  defines "nl \<equiv> sym_buf info + (ucast (symboltable_fileoff info) - sym_fileoff info)"
    and "st \<equiv> sym_buf info + (ucast (stringtable_fileoff info) - sym_fileoff info)"
    and "en \<equiv> sym_buf info + sym_size info"
  assumes "0 \<notin> set (cbytes symbol)"
    and "sym_buf info \<noteq> 0" "symboltable_fileoff info \<noteq> 0" "kaslr_slide_set info"
    and "sym_buf info \<le> nl" "sym_buf info \<le> st"
  shows "solveSymbolIn m info symbol =
    (case find (sym_names m (cbytes symbol) st en)
            (sym_entries nl en (unat (symboltable_nr_symbols info))) of
       None \<Rightarrow> 0
     | Some e \<Rightarrow> load64 m (e + 8) + kaslr_slide info)"
  using assms by (simp add: solveSymbolIn_def symLoop_find)

theorem solveSymbol_first_witness:
  "sym_names demo_linkedit (cbytes ''_kmod'') 0x10020 0x10030 0x10010
   \<and> \<not> sym_names demo_linkedit (cbytes ''_kmod'') 0x10020 0x10030 0x10000
   \<and> solveSymbolIn demo_linkedit demo_info ''_kmod'' = load64 demo_linkedit 0x10018 + 0x2000"
proof -
  have a: "0 \<notin> set (cbytes ''_kmod'')" "sym_buf demo_info \<noteq> 0" "symboltable_fileoff demo_info \<noteq> 0"
    "kaslr_slide_set demo_info"
    "sym_buf demo_info \<le> sym_buf demo_info + (ucast (symboltable_fileoff demo_info) - sym_fileoff demo_info)"
    "sym_buf demo_info \<le> sym_buf demo_info + (ucast (stringtable_fileoff demo_info) - sym_fileoff demo_info)"
    by code_simp+
  have b: "find (sym_names demo_linkedit (cbytes ''_kmod'')
         (sym_buf demo_info + (ucast (stringtable_fileoff demo_info) - sym_fileoff demo_info))
         (sym_buf demo_info + sym_size demo_info))
       (sym_entries (sym_buf demo_info + (ucast (symboltable_fileoff demo_info) - sym_fileoff demo_info))
         (sym_buf demo_info + sym_size demo_info) (unat (symboltable_nr_symbols demo_info))) = Some 0x10010"
    by code_simp
  have c: "sym_names demo_linkedit (cbytes ''_kmod'') 0x10020 0x10030 0x10010"
    "\<not> sym_names demo_linkedit (cbytes ''_kmod'') 0x10020 0x10030 0x10000" by code_simp+
  have "kaslr_slide demo_info = 0x2000" by code_simp
  with c show ?thesis unfolding solveSymbol_first [OF a, of demo_linkedit] b by simp
qed

section \<open>Address slots\<close>

definition slot_calls :: "nat \<Rightarrow> machinfo \<Rightarrow> machinfo" where
  "slot_calls n info = ((\<lambda>i. snd (getAddressSlot i)) ^^ n) info"

lemma slot_calls_state:
  assumes "address_slots info \<noteq> 0" and "unat (address_slots_end info) + 8 < 2 ^ 64"
    and "address_slots info \<le> address_slots_end info"
  shows "\<exists>k \<le> n. slot_calls n info = info\<lparr>address_slots := address_slots info + of_nat (8 * k)\<rparr>
    \<and> unat (address_slots info) + 8 * k \<le> unat (address_slots_end info)
    \<and> (k = n \<or> unat (address_slots_end info) < unat (address_slots info) + 8 * k + 8)"
proof (induction n)
  case 0
  then show ?case using assms(3) by (auto simp: slot_calls_def word_le_nat_alt)
next
  case (Suc n)
  let ?S = "address_slots info" and ?E = "address_slots_end info"
  from Suc obtain k where k: "k \<le> n" "slot_calls n info = info\<lparr>address_slots := ?S + of_nat (8 * k)\<rparr>"
    "unat ?S + 8 * k \<le> unat ?E" "k = n \<or> unat ?E < unat ?S + 8 * k + 8" by blast
  have u: "unat (?S + of_nat j) = unat ?S + j" if "unat ?S + j < 2 ^ 64" for j
    using that by (subst unat_add_small64) (auto simp: unat_of_nat_small64)
  have "unat ?S \<noteq> 0" using assms(1) by (simp add: unat_eq_zero)
  then have "unat (?S + of_nat (8 * k)) \<noteq> 0" using u [of "8 * k"] k(3) assms(2) by linarith
  then have nz: "?S + of_nat (8 * k) \<noteq> 0" by fastforce
  have e: "?S + of_nat (8 * k) + 8 = ?S + of_nat (8 * k + 8)" by simp
  have step: "slot_calls (Suc n) info = snd (getAddressSlot (slot_calls n info))"
    by (simp add: slot_calls_def)
  have le: "(?S + of_nat (8 * k) + 8 \<le> ?E) = (unat ?S + 8 * k + 8 \<le> unat ?E)"
    unfolding e word_le_nat_alt using u [of "8 * k + 8"] k(3) assms(2) by (simp add: add.assoc)
  show ?case
  proof (cases "unat ?S + 8 * k + 8 \<le> unat ?E")
    case True
    then have "slot_calls (Suc n) info = info\<lparr>address_slots := ?S + of_nat (8 * Suc k)\<rparr>"
      unfolding step k(2) getAddressSlot_def using nz le by (simp add: algebra_simps)
    with True k show ?thesis by (intro exI [of _ "Suc k"]) auto
  next
    case False
    then have "slot_calls (Suc n) info = info\<lparr>address_slots := ?S + of_nat (8 * k)\<rparr>"
      unfolding step k(2) getAddressSlot_def using nz le by simp
    with False k show ?thesis by (intro exI [of _ k]) auto
  qed
qed

text \<open>Successive calls of \<open>getAddressSlot\<close> hand out consecutive, non-overlapping eight-byte slots
  inside the slot area, in order from its start, and return 0 from the moment the area has no room
  for another slot; the object never changes otherwise.\<close>

theorem getAddressSlot_sequence:
  assumes "address_slots info \<noteq> 0" and "unat (address_slots_end info) + 8 < 2 ^ 64"
    and "address_slots info \<le> address_slots_end info"
  shows "fst (getAddressSlot (slot_calls n info)) =
      (if unat (address_slots info) + 8 * n + 8 \<le> unat (address_slots_end info)
       then address_slots info + of_nat (8 * n) else 0)
    \<and> slot_calls n info = info\<lparr>address_slots := address_slots (slot_calls n info)\<rparr>"
proof -
  let ?S = "address_slots info" and ?E = "address_slots_end info"
  from slot_calls_state [OF assms, of n] obtain k where k: "k \<le> n"
    "slot_calls n info = info\<lparr>address_slots := ?S + of_nat (8 * k)\<rparr>"
    "unat ?S + 8 * k \<le> unat ?E" "k = n \<or> unat ?E < unat ?S + 8 * k + 8" by blast
  have u: "unat (?S + of_nat j) = unat ?S + j" if "unat ?S + j < 2 ^ 64" for j
    using that by (subst unat_add_small64) (auto simp: unat_of_nat_small64)
  have "unat ?S \<noteq> 0" using assms(1) by (simp add: unat_eq_zero)
  then have "unat (?S + of_nat (8 * k)) \<noteq> 0" using u [of "8 * k"] k(3) assms(2) by linarith
  then have nz: "?S + of_nat (8 * k) \<noteq> 0" by fastforce
  have e: "?S + of_nat (8 * k) + 8 = ?S + of_nat (8 * k + 8)" by simp
  have le: "(?S + of_nat (8 * k) + 8 \<le> ?E) = (unat ?S + 8 * k + 8 \<le> unat ?E)"
    unfolding e word_le_nat_alt using u [of "8 * k + 8"] k(3) assms(2) by (simp add: add.assoc)
  have "fst (getAddressSlot (slot_calls n info)) =
      (if unat ?S + 8 * k + 8 \<le> unat ?E then ?S + of_nat (8 * k) else 0)"
    unfolding k(2) getAddressSlot_def using nz le by simp
  moreover have "unat ?S + 8 * k + 8 \<le> unat ?E \<longleftrightarrow> unat ?S + 8 * n + 8 \<le> unat ?E" using k(1,4) by auto
  moreover have "k = n" if "unat ?S + 8 * n + 8 \<le> unat ?E" using that k(1,4) by auto
  ultimately show ?thesis using k(2) by auto
qed

theorem getAddressSlot_sequence_witness:
  "fst (getAddressSlot (slot_calls 1 (demo_info\<lparr>address_slots := 0x1000, address_slots_end := 0x1010\<rparr>))) = 0x1008
   \<and> fst (getAddressSlot (slot_calls 2 (demo_info\<lparr>address_slots := 0x1000, address_slots_end := 0x1010\<rparr>))) = 0"
  using getAddressSlot_sequence [of "demo_info\<lparr>address_slots := 0x1000, address_slots_end := 0x1010\<rparr>" 1]
    getAddressSlot_sequence [of "demo_info\<lparr>address_slots := 0x1000, address_slots_end := 0x1010\<rparr>" 2]
  by simp

text \<open>The rounding of the slot end clears one bit instead of the low twelve.\<close>

lemma PAGE_SIZE_exp: "PAGE_SIZE = 2 ^ 12"
  by (simp add: PAGE_SIZE_def)

lemma bit_PAGE_SIZE: "bit PAGE_SIZE n \<longleftrightarrow> n = 12"
  unfolding PAGE_SIZE_exp bit_exp_iff by auto

lemma slots_round:
  "(x + (PAGE_SIZE - 1)) AND NOT PAGE_SIZE = (if bit (x + 0xFFF) 12 then x - 1 else x + 0xFFF)"
proof -
  have P: "x + (PAGE_SIZE - 1) = x + 0xFFF" by (simp add: PAGE_SIZE_def)
  show ?thesis
  proof (cases "bit (x + 0xFFF) 12")
    case True
    then have "NOT (x + 0xFFF) AND PAGE_SIZE = 0"
      by (intro bit_word_eqI) (auto simp: bit_simps bit_PAGE_SIZE)
    then have "(x + 0xFFF) AND NOT PAGE_SIZE = x + 0xFFF - PAGE_SIZE"
      by (rule disjunctive_diff_eq_and_not [symmetric])
    with True show ?thesis unfolding P by (simp add: PAGE_SIZE_def)
  next
    case False
    then have "(x + 0xFFF) AND NOT PAGE_SIZE = x + 0xFFF"
      by (intro bit_word_eqI) (auto simp: bit_simps bit_PAGE_SIZE)
    with False show ?thesis unfolding P by simp
  qed
qed

text \<open>The slot end is not rounded to a page.  When bit 12 of \<open>slots + 0xFFF\<close> is set and the word
  just before the slots is not zero, the end is one byte before the start, so the image gets no
  slot at all; when the bit is clear and the word found there is not zero, the area ends
  \<open>0xFFF\<close> bytes after its start, wherever the page (and the code after the header) begins.\<close>

theorem activateSlots_unrounded:
  fixes m :: mem and mh :: addr and info :: machinfo
  defines "slots \<equiv> mh + 32 + ucast (load32 m (mh + 20))"
  shows "(bit (slots + 0xFFF) 12 \<and> 0 < slots \<and> unat slots + 8 < 2 ^ 64 \<and> load32 m (slots - 1) \<noteq> 0 \<longrightarrow>
      (\<exists>info'. activateSlots m mh info = Some info' \<and> address_slots_end info' < address_slots info'
        \<and> fst (getAddressSlot info') = 0))
    \<and> (\<not> bit (slots + 0xFFF) 12 \<and> load32 m (slots + 0xFFF) \<noteq> 0 \<longrightarrow>
      (\<exists>info'. activateSlots m mh info = Some info' \<and> address_slots info' = slots
        \<and> address_slots_end info' = slots + 0xFFF))"
proof -
  have act: "activateSlots m mh info = Some (info\<lparr>address_slots := slots, address_slots_end := e\<rparr>)"
    if "(slots + (PAGE_SIZE - 1)) AND NOT PAGE_SIZE = e" "load32 m e \<noteq> 0" for e
    using that by (simp add: activateSlots_def slots_def slotsEndLoop.simps Let_def)
  have lt: "unat (slots - 1) < unat slots" if "0 < slots"
  proof -
    have "1 \<le> slots" using that by (simp add: word_le_nat_alt unat_gt_0 Suc_le_eq)
    then show ?thesis using that by (simp add: unat_sub64 unat_gt_0)
  qed
  have none: "\<not> slots + 8 \<le> slots - 1" if "0 < slots" "unat slots + 8 < 2 ^ 64"
    using lt [OF that(1)] that(2) by (simp add: word_le_nat_alt unat_add_small64)
  show ?thesis
    using act [of "slots - 1"] act [of "slots + 0xFFF"] lt none slots_round [of slots]
    by (auto simp: getAddressSlot_def word_less_nat_alt)
qed

theorem activateSlots_unrounded_witness:
  "\<exists>info'. activateSlots (store_bytes (\<lambda>_. 0) 0x2014 [0x10, 0, 0, 0, 0, 0, 0, 0, 0, 0, 0, 0,
        1, 1, 1, 1, 1, 1, 1, 1, 1, 1, 1, 1, 1, 1, 1, 1]) 0x2000 demo_info = Some info'
     \<and> address_slots_end info' < address_slots info' \<and> fst (getAddressSlot info') = 0"
proof -
  let ?m = "store_bytes (\<lambda>_. 0) 0x2014 [0x10, 0, 0, 0, 0, 0, 0, 0, 0, 0, 0, 0,
      1, 1, 1, 1, 1, 1, 1, 1, 1, 1, 1, 1, 1, 1, 1, 1] :: mem"
  have s: "0x2000 + 32 + ucast (load32 ?m (0x2000 + 20)) = (0x2030 :: addr)" by code_simp
  have l: "load32 ?m (0x2030 - 1) \<noteq> 0" by code_simp
  have b: "bit (0x2030 + 0xFFF :: addr) 12" by simp
  from activateSlots_unrounded [of "0x2000" ?m demo_info, unfolded s] b l show ?thesis by simp
qed

section \<open>Kernel base\<close>

lemma kernelBaseLoop_nearest:
  assumes "kernelHeaderAt kver m (a - of_nat k * searchStep kver) = Some kc"
    and "\<And>j. j < k \<Longrightarrow> kernelHeaderAt kver m (a - of_nat j * searchStep kver) = None"
  shows "kernelBaseLoop kver m a = Some (a - of_nat k * searchStep kver, kc)"
  using assms
proof (induction k arbitrary: a)
  case 0
  then show ?case by (subst kernelBaseLoop.simps) simp
next
  case (Suc k)
  have shift: "a - searchStep kver - of_nat j * searchStep kver = a - of_nat (Suc j) * searchStep kver" for j
    by (simp add: algebra_simps)
  have "kernelHeaderAt kver m a = None" using Suc.prems(2) [of 0] by simp
  then have "kernelBaseLoop kver m a = kernelBaseLoop kver m (a - searchStep kver)"
    by (subst kernelBaseLoop.simps) simp
  also have "\<dots> = Some (a - searchStep kver - of_nat k * searchStep kver, kc)"
  proof (rule Suc.IH)
    show "kernelHeaderAt kver m (a - searchStep kver - of_nat k * searchStep kver) = Some kc"
      unfolding shift by (rule Suc.prems(1))
    show "kernelHeaderAt kver m (a - searchStep kver - of_nat j * searchStep kver) = None" if "j < k" for j
      unfolding shift by (rule Suc.prems(2)) (use that in simp)
  qed
  finally show ?case by (simp only: shift)
qed

text \<open>C29: the kernel base search returns, and finds the nearest header at or below the aligned
  address of \<open>IOLog\<close>, whenever there is one; it marks the object as a kernel collection exactly when
  that header is a fileset header of a Big Sur or later kernel, and every later call returns the
  remembered answer without searching.\<close>

theorem findKernelBase_nearest:
  fixes IOLog :: addr
  defines "a \<equiv> IOLog AND NOT (KASLRAlignment - 1)"
  assumes hit: "kernelHeaderAt kver m (a - of_nat k * searchStep kver) = Some kc"
    and miss: "\<And>j. j < k \<Longrightarrow> kernelHeaderAt kver m (a - of_nat j * searchStep kver) = None"
    and nz: "a - of_nat k * searchStep kver \<noteq> 0"
  shows "findKernelBase kver m IOLog (0, False) info =
      Some (a - of_nat k * searchStep kver, (a - of_nat k * searchStep kver, kc),
            info\<lparr>kernel_collection := kc \<or> kernel_collection info\<rparr>)
    \<and> findKernelBase kver m' IOLog' (a - of_nat k * searchStep kver, kc) info' =
      Some (a - of_nat k * searchStep kver, (a - of_nat k * searchStep kver, kc),
            info'\<lparr>kernel_collection := kc\<rparr>)"
  using kernelBaseLoop_nearest [OF hit miss] nz by (simp add: findKernelBase_def a_def)

definition demo_kernel :: mem where
  "demo_kernel = store_bytes (\<lambda>_. 0) 0x400000
     [0xcf, 0xfa, 0xed, 0xfe, 7, 0, 0, 1, 3, 0, 0, 0, 0xC, 0, 0, 0, 0, 0, 0, 0]"

theorem findKernelBase_nearest_witness:
  "findKernelBase 22 demo_kernel 0x512345 (0, False) demo_info =
     Some (0x400000, (0x400000, True), demo_info\<lparr>kernel_collection := True\<rparr>)"
proof -
  have a: "(0x512345 :: addr) AND NOT (KASLRAlignment - 1) = 0x500000" "searchStep 22 = 0x100000"
    by code_simp+
  have h: "kernelHeaderAt 22 demo_kernel 0x400000 = Some True" "kernelHeaderAt 22 demo_kernel 0x500000 = None"
    by code_simp+
  from findKernelBase_nearest [of 22 demo_kernel "0x512345" 1 True demo_info, unfolded a] h
  show ?thesis by simp
qed

section \<open>Header walks stay inside the header\<close>

text \<open>A checked walk from inside a header of \<open>N\<close> bytes only visits commands whose first eight bytes
  lie in the header.\<close>

definition inside :: "addr \<Rightarrow> nat \<Rightarrow> addr \<Rightarrow> bool" where
  "inside H N a \<longleftrightarrow> H \<le> a \<and> unat a + 8 \<le> unat H + N"

definition walk_room :: "addr \<Rightarrow> nat \<Rightarrow> bool" where
  "walk_room H N \<longleftrightarrow> unat H + N + 2 ^ 32 \<le> 2 ^ 64"

lemma cmdsize_bound: "unat (lc_cmdsize m a) < 2 ^ 32"
  using unat_u32 [of "load32 m (a + 4)"] by (simp add: lc_cmdsize_def unat_ucast32)

lemma walk_end: "walk_room H N \<Longrightarrow> unat (H + of_nat N) = unat H + N"
  by (subst unat_add_small64) (auto simp: unat_of_nat_small64 walk_room_def)

lemma walk_next:
  assumes wr: "walk_room H N" and "H \<le> a" and "unat a \<le> unat H + N" and "\<not> a + 8 > H + of_nat N"
    and "\<not> a + lc_cmdsize m a > H + of_nat N"
  shows "inside H N a" and "H \<le> a + lc_cmdsize m a" and "unat (a + lc_cmdsize m a) \<le> unat H + N"
proof -
  note room = wr [unfolded walk_room_def] and end_unat = walk_end [OF wr] and c = cmdsize_bound [of m a]
  have u8: "unat (a + 8) = unat a + 8" using assms(3) room by (subst unat_add_small64) auto
  have uc: "unat (a + lc_cmdsize m a) = unat a + unat (lc_cmdsize m a)"
    using assms(3) room c by (subst unat_add_small64) auto
  show "inside H N a" using assms(2,4) u8 end_unat by (simp add: inside_def word_less_nat_alt)
  show "H \<le> a + lc_cmdsize m a" using assms(2) uc by (simp add: word_le_nat_alt)
  show "unat (a + lc_cmdsize m a) \<le> unat H + N"
    using assms(5) end_unat by (simp add: word_less_nat_alt)
qed

lemma walk_agree:
  assumes wr: "walk_room H N" and ag: "agree m m' H N"
    and body: "\<And>a s. inside H N a \<Longrightarrow> body a s = body' a s"
  shows "H \<le> a \<Longrightarrow> unat a \<le> unat H + N \<Longrightarrow>
    walkCommands body m (Some (H + of_nat N)) n a s = walkCommands body' m' (Some (H + of_nat N)) n a s"
proof (induction n arbitrary: a s)
  case 0
  then show ?case by simp
next
  case (Suc n)
  note room = wr [unfolded walk_room_def] and end_unat = walk_end [OF wr]
  show ?case
  proof (cases "a + 8 > H + of_nat N")
    case True
    then show ?thesis by simp
  next
    case False
    have u8: "unat (a + 8) = unat a + 8" using Suc.prems(2) room by (subst unat_add_small64) auto
    then have hi: "unat (a - H) + 8 \<le> N"
      using False end_unat Suc.prems(1) by (simp add: word_less_nat_alt unat_sub64 word_le_nat_alt)
    have "unat (a + of_nat 4 - H) = unat (a - H) + 4" using hi room by (intro unat_offset_sub) simp
    then have "load32 m (a + 4) = load32 m' (a + 4)"
      using hi room by (intro agree_load32 [OF ag]) auto
    then have c: "lc_cmdsize m a = lc_cmdsize m' a" by (simp add: lc_cmdsize_def)
    show ?thesis
    proof (cases "a + lc_cmdsize m a > H + of_nat N")
      case True
      with c show ?thesis by simp
    next
      case nxt: False
      note nx = walk_next [OF wr Suc.prems False nxt]
      have "walkCommands body m (Some (H + of_nat N)) n (a + lc_cmdsize m a) s'
          = walkCommands body' m' (Some (H + of_nat N)) n (a + lc_cmdsize m' a) s'" for s'
        using Suc.IH [OF nx(2,3)] c by simp
      then show ?thesis using c body [OF nx(1)] by (auto split: sum.splits)
    qed
  qed
qed

lemma walk_stopped:
  assumes wr: "walk_room H N"
  shows "H \<le> a \<Longrightarrow> unat a \<le> unat H + N \<Longrightarrow>
    walkCommands body m (Some (H + of_nat N)) n a s = Stopped r \<Longrightarrow>
    \<exists>a' s'. inside H N a' \<and> unat a \<le> unat a' \<and> body a' s' = Inr r"
proof (induction n arbitrary: a s)
  case 0
  then show ?case by simp
next
  case (Suc n)
  from Suc.prems(3) have ok: "\<not> a + 8 > H + of_nat N" "\<not> a + lc_cmdsize m a > H + of_nat N"
    by (auto split: if_splits)
  note nx = walk_next [OF wr Suc.prems(1,2) ok]
  have grow: "unat a \<le> unat (a + lc_cmdsize m a)"
    using Suc.prems(2) wr cmdsize_bound [of m a] by (subst unat_add_small64) (auto simp: walk_room_def)
  show ?case
  proof (cases "body a s")
    case (Inl s')
    with Suc.prems(3) have "walkCommands body m (Some (H + of_nat N)) n (a + lc_cmdsize m a) s' = Stopped r"
      by (auto split: if_splits)
    from Suc.IH [OF nx(2,3) this] grow show ?thesis by (meson le_trans)
  next
    case (Inr r')
    with Suc.prems(3) nx(1) show ?thesis by (auto split: if_splits)
  qed
qed

text \<open>The UUID search stays inside the header pages: its answer depends on nothing but the
  \<open>HeaderSize\<close> bytes of the header, and the command it returns a UUID from starts inside them, after
  the Mach-O header, whatever command sizes and counts the image claims.\<close>

theorem getUUID_confined:
  assumes "unat header + 0x2000 + 2 ^ 32 \<le> 2 ^ 64"
  shows "(agree m m' header 0x2000 \<longrightarrow> getUUID m header = getUUID m' header)
    \<and> (\<forall>p. getUUID m header = Some p \<longrightarrow>
          unat header + 40 \<le> unat p \<and> unat p \<le> unat header + 0x2000 \<and> load32 m (p - 8) = LC_UUID)"
proof -
  let ?b = "\<lambda>m a (s :: unit). if lc_cmd m a = LC_UUID then Inr (a + 8) else Inl s"
  have wr: "walk_room header 0x2000" using assms by (simp add: walk_room_def)
  have E: "header + HeaderSize = header + of_nat 0x2000" by (simp add: HeaderSize_def)
  have u32: "unat (header + 32) = unat header + 32" using assms by (subst unat_add_small64) auto
  then have a0: "header \<le> header + 32" "unat (header + 32) \<le> unat header + 0x2000"
    by (simp_all add: word_le_nat_alt)
  have "getUUID m header = getUUID m' header" if ag: "agree m m' header 0x2000"
  proof -
    have "load32 m (header + 16) = load32 m' (header + 16)" by (intro agree_load32 [OF ag]) simp_all
    then have "mh_ncmds m header = mh_ncmds m' header" by (simp add: mh_ncmds_def)
    moreover have "?b m a s = ?b m' a s" if "inside header 0x2000 a" for a s
    proof -
      have "unat (a - header) + 4 \<le> 0x2000" using that by (auto simp: inside_def unat_sub64 word_le_nat_alt)
      then have "load32 m a = load32 m' a" by (intro agree_load32 [OF ag]) simp_all
      then show ?thesis by (simp add: lc_cmd_def)
    qed
    ultimately show ?thesis
      unfolding getUUID_def E using walk_agree [OF wr ag, of "?b m" "?b m'", OF _ a0] by simp
  qed
  moreover have "unat header + 40 \<le> unat p \<and> unat p \<le> unat header + 0x2000 \<and> load32 m (p - 8) = LC_UUID"
    if "getUUID m header = Some p" for p
  proof -
    from that have "walkCommands (?b m) m (Some (header + of_nat 0x2000)) (mh_ncmds m header) (header + 32) () = Stopped p"
      unfolding getUUID_def E by (auto split: if_splits walk.splits)
    from walk_stopped [OF wr a0 this] obtain a' where a': "inside header 0x2000 a'"
      "unat (header + 32) \<le> unat a'" "lc_cmd m a' = LC_UUID" "p = a' + 8" by (auto split: if_splits)
    have "unat (a' + 8) = unat a' + 8" using a'(1) assms by (subst unat_add_small64) (auto simp: inside_def)
    with a' u32 show ?thesis by (simp add: inside_def lc_cmd_def)
  qed
  ultimately show ?thesis by blast
qed

definition demo_header :: mem where
  "demo_header = store_bytes (\<lambda>_. 0) 0x4000
     [0xcf, 0xfa, 0xed, 0xfe, 7, 0, 0, 1, 3, 0, 0, 0, 2, 0, 0, 0, 2, 0, 0, 0, 0x28, 0, 0, 0, 0, 0, 0, 0, 0, 0, 0, 0,
      5, 0, 0, 0, 0x10, 0, 0, 0, 0, 0, 0, 0, 0, 0, 0, 0,
      0x1b, 0, 0, 0, 0x18, 0, 0, 0, 1, 2, 3, 4, 5, 6, 7, 8, 9, 10, 11, 12, 13, 14, 15, 16]"

theorem getUUID_confined_witness:
  "getUUID demo_header 0x4000 = Some 0x4038 \<and> load32 demo_header 0x4030 = LC_UUID
   \<and> getUUID (demo_header(0x9000 := 1)) 0x4000 = Some 0x4038"
proof -
  have u: "getUUID demo_header 0x4000 = Some 0x4038" by code_simp
  have ag: "agree demo_header (demo_header(0x9000 := 1)) 0x4000 0x2000" by (auto simp: agree_def)
  from getUUID_confined [of "0x4000" demo_header "demo_header(0x9000 := 1)"] u ag show ?thesis by simp
qed

end
