(* ===== verification/Kern_Evector.thy ===== *)
theory Kern_Evector
  imports Kern_Prelude
begin

text \<open>
  \<open>evector_base\<close> of \<^verbatim>\<open>Lilu/Lilu/Headers/kern_util.hpp\<close>, the growable array Lilu keeps its objects
  in.  A vector is its elements and its reserved capacity; the storage pointer is null exactly when
  the capacity is 0.  Allocation outcomes come from a script: \<open>kern_os_realloc\<close> consumes one entry
  and fails when it is \<open>False\<close> (an empty script means that every allocation succeeds).  An access
  outside the array is undefined in the source and a panic here.
\<close>

section \<open>Operations\<close>

type_synonym script = "bool list"

definition next_alloc :: "script \<Rightarrow> bool \<times> script" where
  "next_alloc sc = (case sc of [] \<Rightarrow> (True, []) | b # sc' \<Rightarrow> (b, sc'))"

record 'a evector =
  ev_items :: "'a list"
  ev_rsvd :: nat

definition ev_empty :: "'a evector" where
  "ev_empty = \<lparr>ev_items = [], ev_rsvd = 0\<rparr>"

definition ev_size :: "'a evector \<Rightarrow> nat" where
  "ev_size v = length (ev_items v)"

definition ev_last :: "'a evector \<Rightarrow> nat" where
  "ev_last v = (ev_size v + 2 ^ 64 - 1) mod 2 ^ 64"

definition ev_at :: "'a evector \<Rightarrow> nat \<Rightarrow> 'a res" where
  "ev_at v i = (if i < ev_size v then Inr (ev_items v ! i) else Inl (Panic ''evector''))"

definition ev_reserve :: "nat \<Rightarrow> nat \<Rightarrow> script \<Rightarrow> 'a evector \<Rightarrow> bool \<times> script \<times> 'a evector" where
  "ev_reserve MUL num sc v =
     (if ev_rsvd v < num then
        (case next_alloc sc of
           (True, sc') \<Rightarrow> (True, sc', v\<lparr>ev_rsvd := MUL * num\<rparr>)
         | (False, sc') \<Rightarrow> (False, sc', v))
      else (True, sc, v))"

definition ev_push_back :: "nat \<Rightarrow> 'a \<Rightarrow> script \<Rightarrow> 'a evector \<Rightarrow> bool \<times> script \<times> 'a evector" where
  "ev_push_back MUL x sc v =
     (case ev_reserve MUL (ev_size v + 1) sc v of
        (True, sc', v') \<Rightarrow> (True, sc', v'\<lparr>ev_items := ev_items v' @ [x]\<rparr>)
      | (False, sc', v') \<Rightarrow> (False, sc', v'))"

definition ev_erase :: "nat \<Rightarrow> bool \<Rightarrow> 'a evector \<Rightarrow> 'a evector res" where
  "ev_erase i free v =
     (if i < ev_size v then
        (let xs = take i (ev_items v) @ drop (Suc i) (ev_items v)
         in Inr (if free \<and> xs = [] then ev_empty else v\<lparr>ev_items := xs\<rparr>))
      else Inl (Panic ''evector''))"

definition ev_deinit :: "'a evector \<Rightarrow> 'a evector" where
  "ev_deinit v = (if ev_rsvd v \<noteq> 0 then ev_empty else v)"

section \<open>Invariant\<close>

text \<open>The elements fit the reserved storage.\<close>

definition ev_ok :: "'a evector \<Rightarrow> bool" where
  "ev_ok v \<longleftrightarrow> ev_size v \<le> ev_rsvd v"

lemma ev_push_back_cases:
  "ev_push_back MUL x sc v =
     (if ev_rsvd v < Suc (ev_size v) then
        (if fst (next_alloc sc)
         then (True, snd (next_alloc sc), v\<lparr>ev_items := ev_items v @ [x], ev_rsvd := MUL * Suc (ev_size v)\<rparr>)
         else (False, snd (next_alloc sc), v))
      else (True, sc, v\<lparr>ev_items := ev_items v @ [x]\<rparr>))"
  by (auto simp: ev_push_back_def ev_reserve_def split: prod.splits bool.splits)

lemma ev_push_back_script:
  "sc = [] \<Longrightarrow> ev_push_back MUL x sc v = (True, [], snd (snd (ev_push_back MUL x sc v)))"
  by (auto simp: ev_push_back_cases next_alloc_def)

lemma ev_erase_ok:
  assumes "i < ev_size v"
  obtains w where "ev_erase i free v = Inr w" "ev_items w = take i (ev_items v) @ drop (Suc i) (ev_items v)"
    "ev_ok v \<longrightarrow> ev_ok w"
proof -
  let ?w = "if free \<and> take i (ev_items v) @ drop (Suc i) (ev_items v) = [] then ev_empty
    else v\<lparr>ev_items := take i (ev_items v) @ drop (Suc i) (ev_items v)\<rparr>"
  have "ev_erase i free v = Inr ?w" using assms by (simp add: ev_erase_def Let_def)
  moreover have "ev_items ?w = take i (ev_items v) @ drop (Suc i) (ev_items v)" by (auto simp: ev_empty_def)
  moreover have "ev_ok v \<longrightarrow> ev_ok ?w" by (auto simp: ev_ok_def ev_size_def ev_empty_def)
  ultimately show thesis by (rule that)
qed



end
