(* ===== verification/Kern_Patcher.thy ===== *)
theory Kern_Patcher
  imports Kern_Find Kern_Mach Kern_Evector
begin

text \<open>
  Function routing of \<open>KernelPatcher\<close> (\<^verbatim>\<open>Lilu/Lilu/Sources/kern_patcher.cpp\<close>): recorded memory patches,
  reading an existing jump, building a trampoline, and writing a short, medium (slotted) or long
  jump.  The patcher state extends the processor state with the patcher's own fields; the function
  patch union is its sixteen bytes.  The length disassembler \<open>Disassembler::quickInstructionSize\<close> is
  the parameter \<open>qis\<close>, a function of memory, address and minimum.  Undefined behaviour that the
  source can reach (a null patch, an index outside a vector) and \<open>PANIC\<close> are panics.
\<close>

section \<open>State\<close>

datatype kerror = NoError | NoKinfoFound | NoSymbolFound | KernInitFailure | KernRunningInitFailure
  | KextListeningFailure | DisasmFailure | MemoryIssue | MemoryProtection | PointerRange
  | AlreadyDone | LockError | Unsupported | InvalidSymbolFound

datatype jumpType = Auto | Long | Short | Medium

text \<open>A recorded patch: the address, the value found there when the patch was created, and the value
  it writes.\<close>

datatype kpatch = PU8 addr byte byte | PU16 addr u16 u16 | PU32 addr u32 u32 | PU64 addr u64 u64

record kpatcher = cpu +
  code :: kerror
  kinfos :: "machinfo list"
  kpatches :: "kpatch evector"
  fpatch :: "byte list"
  tempExecutableMemory :: addr
  tempExecutableMemoryOff :: nat
  kernelWriteLock :: bool
  allocs :: script

definition SmallJump :: nat where "SmallJump = 5"
definition LongJump :: nat where "LongJump = 14"
definition MediumJump :: nat where "MediumJump = 6"
definition SmallJumpPrefix :: byte where "SmallJumpPrefix = 0xE9"
definition LongJumpPrefix :: u16 where "LongJumpPrefix = 0x25FF"
definition TempExecutableMemorySize :: nat where "TempExecutableMemorySize = 4096"
definition EINVAL :: addr where "EINVAL = 22"

lemmas jump_consts = SmallJump_def LongJump_def MediumJump_def SmallJumpPrefix_def LongJumpPrefix_def
  TempExecutableMemorySize_def EINVAL_def

section \<open>Patches\<close>

definition create_u8 :: "mem \<Rightarrow> addr \<Rightarrow> byte \<Rightarrow> kpatch" where
  "create_u8 m a v = PU8 a (m a) v"

definition create_u16 :: "mem \<Rightarrow> addr \<Rightarrow> u16 \<Rightarrow> kpatch" where
  "create_u16 m a v = PU16 a (load16 m a) v"

definition create_u32 :: "mem \<Rightarrow> addr \<Rightarrow> u32 \<Rightarrow> kpatch" where
  "create_u32 m a v = PU32 a (load32 m a) v"

definition create_u64 :: "mem \<Rightarrow> addr \<Rightarrow> u64 \<Rightarrow> kpatch" where
  "create_u64 m a v = PU64 a (load64 m a) v"

fun patch_apply :: "kpatch \<Rightarrow> mem \<Rightarrow> mem" where
  "patch_apply (PU8 a org rep) m = m(a := rep)"
| "patch_apply (PU16 a org rep) m = store16 m a rep"
| "patch_apply (PU32 a org rep) m = store32 m a rep"
| "patch_apply (PU64 a org rep) m = store64 m a rep"

fun patch_restore :: "kpatch \<Rightarrow> mem \<Rightarrow> mem" where
  "patch_restore (PU8 a org rep) m = m(a := org)"
| "patch_restore (PU16 a org rep) m = store16 m a org"
| "patch_restore (PU32 a org rep) m = store32 m a org"
| "patch_restore (PU64 a org rep) m = store64 m a org"

section \<open>Errors and slots\<close>

definition clearError :: "'a kpatcher_scheme \<Rightarrow> 'a kpatcher_scheme" where
  "clearError s = s\<lparr>code := NoError\<rparr>"

definition take_slot :: "nat \<Rightarrow> 'a kpatcher_scheme \<Rightarrow> addr \<times> 'a kpatcher_scheme" where
  "take_slot i s = (let (slot, k) = getAddressSlot (kinfos s ! i) in (slot, s\<lparr>kinfos := (kinfos s)[i := k]\<rparr>))"

definition alloc1 :: "'a kpatcher_scheme \<Rightarrow> bool \<times> 'a kpatcher_scheme" where
  "alloc1 s = (let (ok, sc) = next_alloc (allocs s) in (ok, s\<lparr>allocs := sc\<rparr>))"

definition push_patch :: "kpatch \<Rightarrow> 'a kpatcher_scheme \<Rightarrow> bool \<times> 'a kpatcher_scheme" where
  "push_patch p s = (let (ok, sc, v) = ev_push_back 4 p (allocs s) (kpatches s)
                     in (ok, s\<lparr>allocs := sc, kpatches := v\<rparr>))"

section \<open>Reading a jump\<close>

definition readChain :: "mem \<Rightarrow> addr \<Rightarrow> addr \<times> jumpType option" where
  "readChain m frm =
     (if load16 m frm = LongJumpPrefix then
        (let disp = load32 m (frm + 2)
         in (load64 m (frm + of_nat MediumJump + scast disp), Some (if disp \<noteq> 0 then Medium else Long)))
      else if m frm = SmallJumpPrefix then
        (frm + of_nat SmallJump + scast (load32 m (frm + 1)), Some Short)
      else (0, None))"

section \<open>Writing a jump\<close>

text \<open>The argument of a relative jump and whether the target is out of its reach.\<close>

definition jumpArgument :: "addr \<Rightarrow> addr \<Rightarrow> u32" where
  "jumpArgument frm to = ucast (to - (frm + of_nat SmallJump))"

definition jumpTooFar :: "addr \<Rightarrow> addr \<Rightarrow> bool" where
  "jumpTooFar frm to \<longleftrightarrow> to - (frm + of_nat SmallJump) \<noteq> scast (jumpArgument frm to)"

text \<open>Writing into the function patch union.\<close>

definition put_bytes :: "nat \<Rightarrow> byte list \<Rightarrow> byte list \<Rightarrow> byte list" where
  "put_bytes off bs p = take off p @ bs @ drop (off + length bs) p"

definition mediumPatch :: "mem \<Rightarrow> addr \<Rightarrow> u32 \<Rightarrow> byte list \<Rightarrow> byte list" where
  "mediumPatch m frm arg p =
     put_bytes 6 (load_bytes m (frm + 6) 2)
       (put_bytes 2 (nat_le 4 (unat arg)) (put_bytes 0 (nat_le 2 (unat LongJumpPrefix)) p))"

definition longPatch :: "mem \<Rightarrow> addr \<Rightarrow> addr \<Rightarrow> byte list \<Rightarrow> byte list" where
  "longPatch m frm to p =
     put_bytes 14 (load_bytes m (frm + 14) 2)
       (put_bytes 6 (nat_le 8 (unat to))
         (put_bytes 2 (nat_le 4 (unat (0 :: u32))) (put_bytes 0 (nat_le 2 (unat LongJumpPrefix)) p)))"

definition smallPatch :: "mem \<Rightarrow> addr \<Rightarrow> u32 \<Rightarrow> byte list \<Rightarrow> byte list" where
  "smallPatch m frm arg p =
     put_bytes 5 (load_bytes m (frm + 5) 3)
       (put_bytes 1 (nat_le 4 (unat arg)) (put_bytes 0 [SmallJumpPrefix] p))"

text \<open>The three shapes of a route: the union's new bytes and the patches \<open>opcode\<close>, \<open>argument\<close> and, for
  the absolute shapes, \<open>disp\<close>.\<close>

definition routePatches ::
  "mem \<Rightarrow> addr \<Rightarrow> addr \<Rightarrow> bool \<Rightarrow> addr \<Rightarrow> byte list \<Rightarrow> byte list \<times> kpatch \<times> kpatch \<times> kpatch option" where
  "routePatches m frm to absolute addressSlot p =
     (if addressSlot \<noteq> 0 then
        (let arg = ucast (addressSlot - (frm + of_nat MediumJump))
         in (mediumPatch m frm arg p, create_u16 m frm LongJumpPrefix, create_u32 m (frm + 2) arg,
             Some (create_u64 m addressSlot to)))
      else if absolute then
        (longPatch m frm to p, create_u16 m frm LongJumpPrefix, create_u32 m (frm + 2) 0,
         Some (create_u64 m (frm + 6) to))
      else
        (let arg = jumpArgument frm to
         in (smallPatch m frm arg p, create_u8 m frm SmallJumpPrefix, create_u32 m (frm + 1) arg, None)))"

text \<open>The writes themselves: one atomic store when the function is aligned, the patches otherwise.\<close>

definition routeWrite ::
  "addr \<Rightarrow> bool \<Rightarrow> addr \<Rightarrow> byte list \<Rightarrow> kpatch \<Rightarrow> kpatch \<Rightarrow> kpatch option \<Rightarrow> mem \<Rightarrow> mem" where
  "routeWrite frm absolute addressSlot p opcode argument disp m0 =
     (let m = (if addressSlot \<noteq> 0 then patch_apply (the disp) m0 else m0) in
      if addressSlot \<noteq> 0 \<or> \<not> absolute then
        (if frm AND 7 = 0 then store_bytes m frm (take 8 p)
         else patch_apply argument (patch_apply opcode m))
      else if frm AND 15 = 0 then store_bytes m frm p
      else patch_apply argument (patch_apply opcode (patch_apply (the disp) m)))"

text \<open>\<open>if (idx) kpatches.erase(idx)\<close> for the boolean result of \<open>push_back\<close>: the index is 1.\<close>

definition erase_if :: "bool \<Rightarrow> 'a kpatcher_scheme \<Rightarrow> 'a kpatcher_scheme res" where
  "erase_if idx s =
     (if idx then res_bind (ev_erase 1 True (kpatches s)) (\<lambda>v. Inr (s\<lparr>kpatches := v\<rparr>)) else Inr s)"

text \<open>Keeping the patches for a later removal; on a failed append the others are erased again.\<close>

definition storePatches ::
  "kpatch \<Rightarrow> kpatch \<Rightarrow> kpatch option \<Rightarrow> 'a kpatcher_scheme \<Rightarrow> 'a kpatcher_scheme res" where
  "storePatches opcode argument disp s =
     (let (oidx, s1) = push_patch opcode s;
          (aidx, s2) = push_patch argument s1;
          (didx, s3) = (case disp of Some d \<Rightarrow> push_patch d s2 | None \<Rightarrow> (False, s2))
      in if oidx \<and> aidx \<and> (disp = None \<or> didx) then Inr s3
         else res_bind (erase_if oidx s3) (\<lambda>t. res_bind (erase_if aidx t) (erase_if didx)))"

text \<open>The second half of \<open>routeFunctionInternal\<close>: everything after the trampoline is known.\<close>

definition routeCommit ::
  "addr \<Rightarrow> addr \<Rightarrow> bool \<Rightarrow> addr \<Rightarrow> bool \<Rightarrow> bool \<Rightarrow> addr \<Rightarrow> 'a kpatcher_scheme \<Rightarrow> (addr \<times> 'a kpatcher_scheme) res" where
  "routeCommit frm to absolute addressSlot kernelRoute revertible trampoline s =
     (let (p, opcode, argument, disp) = routePatches (kmem s) frm to absolute addressSlot (fpatch s);
          s0 = s\<lparr>fpatch := p\<rparr>;
          (ok1, s1) = alloc1 s0;
          (ok2, s2) = alloc1 s1;
          (ok3, s3) = (if disp = None then (False, s2) else alloc1 s2)
      in if \<not> ok1 \<or> \<not> ok2 \<or> (absolute \<and> \<not> ok3) then Inr (EINVAL, s3\<lparr>code := MemoryIssue\<rparr>)
         else
           let (w, s4) = (if kernelRoute then setKernelWriting True (kernelWriteLock s3) s3 else (True, s3))
           in if \<not> w then Inr (EINVAL, s4\<lparr>code := MemoryProtection\<rparr>)
              else if addressSlot \<noteq> 0 \<and> \<not> ok3 then Inl (Panic ''null patch'')
              else
                let s5 = s4\<lparr>kmem := routeWrite frm absolute addressSlot p opcode argument disp (kmem s4)\<rparr>
                in if kernelRoute then
                     let s6 = snd (setKernelWriting False (kernelWriteLock s5) s5)
                     in if revertible then
                          res_bind (storePatches opcode argument disp s6) (\<lambda>s7. Inr (trampoline, s7))
                        else Inr (trampoline, s6)
                   else Inr (trampoline, s5))"

text \<open>The slot a fresh wrapped route uses for its target, if the image has one and the jump is
  absolute.\<close>

definition slotFor :: "jumpType \<Rightarrow> bool \<Rightarrow> nat option \<Rightarrow> 'a kpatcher_scheme \<Rightarrow> addr \<times> 'a kpatcher_scheme" where
  "slotFor jt absolute info s =
     (case info of
        Some i \<Rightarrow> if absolute \<and> (jt = Auto \<or> jt = Long) then take_slot i s else (0, s)
      | None \<Rightarrow> (0, s))"

text \<open>The first half, over the function that makes trampolines.  \<open>createTrampoline\<close> itself calls this
  function only without a wrapper, where no trampoline is made.\<close>

definition routeWith ::
  "(addr \<Rightarrow> nat \<Rightarrow> 'a kpatcher_scheme \<Rightarrow> (addr \<times> 'a kpatcher_scheme) res)
    \<Rightarrow> addr \<Rightarrow> addr \<Rightarrow> bool \<Rightarrow> bool \<Rightarrow> bool \<Rightarrow> jumpType \<Rightarrow> nat option \<Rightarrow> addr option
    \<Rightarrow> 'a kpatcher_scheme \<Rightarrow> (addr \<times> 'a kpatcher_scheme) res" where
  "routeWith mk frm to buildWrapper kernelRoute revertible jt info org s =
     (let far = jumpTooFar frm to;
          absolute = (far \<or> jt = Long);
          finish = (\<lambda>trampoline addressSlot rev s'.
             let s'' = (case org of None \<Rightarrow> s' | Some o1 \<Rightarrow> s'\<lparr>kmem := store64 (kmem s') o1 trampoline\<rparr>)
             in routeCommit frm to absolute addressSlot kernelRoute rev trampoline s'')
      in if jt = Short \<and> far then Inr (EINVAL, s\<lparr>code := MemoryIssue\<rparr>)
         else
           let (trampoline, prevJump) = readChain (kmem s) frm
           in if trampoline \<noteq> 0 then
                if prevJump = Some Short then Inl (Panic ''patcher'')
                else if jt = Short then Inl (Panic ''patcher'')
                else if prevJump = Some Medium then
                  (case info of
                     None \<Rightarrow> Inl (Panic ''patcher'')
                   | Some i \<Rightarrow>
                       let (slot, s1) = take_slot i s
                       in if slot = 0 then Inl (Panic ''patcher'')
                          else finish (if buildWrapper then trampoline else 0) slot False s1)
                else finish (if buildWrapper then trampoline else 0) 0 False s
              else if buildWrapper then
                let (slot, s1) = slotFor jt absolute info s
                in res_bind (mk frm (if absolute then (if slot \<noteq> 0 then MediumJump else LongJump) else SmallJump) s1)
                     (\<lambda>(tr, s2). if tr = 0 then Inr (EINVAL, s2) else finish tr slot revertible s2)
              else finish 0 0 revertible s)"

definition routeUnwrapped ::
  "addr \<Rightarrow> addr \<Rightarrow> bool \<Rightarrow> bool \<Rightarrow> jumpType \<Rightarrow> nat option \<Rightarrow> addr option
    \<Rightarrow> 'a kpatcher_scheme \<Rightarrow> (addr \<times> 'a kpatcher_scheme) res" where
  "routeUnwrapped frm to kernelRoute revertible jt info org s =
     routeWith (\<lambda>_ _ s'. Inr (0, s')) frm to False kernelRoute revertible jt info org s"

section \<open>Trampolines\<close>

definition createTrampoline ::
  "(mem \<Rightarrow> addr \<Rightarrow> nat \<Rightarrow> nat) \<Rightarrow> addr \<Rightarrow> nat \<Rightarrow> byte list
    \<Rightarrow> 'a kpatcher_scheme \<Rightarrow> (addr \<times> 'a kpatcher_scheme) res" where
  "createTrampoline qis func minimum opcodes s =
     (let (w, s1) = setKernelWriting True (kernelWriteLock s) s
      in if \<not> w then Inr (0, s1\<lparr>code := MemoryProtection\<rparr>)
         else
           let off = qis (kmem s1) func minimum
           in if off = 0 \<or> off > unat PAGE_SIZE - LongJump then
                Inr (0, (snd (setKernelWriting False (kernelWriteLock s1) s1))\<lparr>code := DisasmFailure\<rparr>)
              else
                let opnum = length opcodes;
                    tempDataPtr = tempExecutableMemory s1 + of_nat (tempExecutableMemoryOff s1);
                    s2 = s1\<lparr>tempExecutableMemoryOff :=
                             size_add (tempExecutableMemoryOff s1) (off + LongJump + opnum)\<rparr>
                in if tempExecutableMemoryOff s2 \<ge> TempExecutableMemorySize then
                     Inr (0, (snd (setKernelWriting False (kernelWriteLock s2) s2))\<lparr>code := DisasmFailure\<rparr>)
                   else
                     let s3 = s2\<lparr>kmem := store_bytes (kmem s2) tempDataPtr opcodes\<rparr>;
                         s4 = s3\<lparr>kmem := store_bytes (kmem s3) (tempDataPtr + of_nat opnum)
                                          (load_bytes (kmem s3) func off)\<rparr>;
                         s5 = clearError (snd (setKernelWriting False (kernelWriteLock s4) s4))
                     in res_bind (routeUnwrapped (tempDataPtr + of_nat opnum + of_nat off) (func + of_nat off)
                                    True False Auto None None s5)
                          (\<lambda>(r, s6). if code s6 = NoError then Inr (tempDataPtr, s6) else Inr (0, s6)))"

section \<open>Routing\<close>

definition routeFunctionInternal ::
  "(mem \<Rightarrow> addr \<Rightarrow> nat \<Rightarrow> nat) \<Rightarrow> addr \<Rightarrow> addr \<Rightarrow> bool \<Rightarrow> bool \<Rightarrow> bool \<Rightarrow> jumpType \<Rightarrow> nat option
    \<Rightarrow> addr option \<Rightarrow> 'a kpatcher_scheme \<Rightarrow> (addr \<times> 'a kpatcher_scheme) res" where
  "routeFunctionInternal qis frm to buildWrapper kernelRoute revertible jt info org s =
     routeWith (\<lambda>f n s'. createTrampoline qis f n [] s')
       frm to buildWrapper kernelRoute revertible jt info org s"

definition routeBlock ::
  "(mem \<Rightarrow> addr \<Rightarrow> nat \<Rightarrow> nat) \<Rightarrow> addr \<Rightarrow> byte list \<Rightarrow> bool \<Rightarrow> bool
    \<Rightarrow> 'a kpatcher_scheme \<Rightarrow> (addr \<times> 'a kpatcher_scheme) res" where
  "routeBlock qis frm opcodes buildWrapper kernelRoute s =
     (if \<not> buildWrapper then
        (if \<not> kernelRoute then Inr (0, s\<lparr>kmem := store_bytes (kmem s) frm opcodes\<rparr>)
         else
           let (w, s1) = setKernelWriting True (kernelWriteLock s) s
           in if w then
                let s2 = s1\<lparr>kmem := store_bytes (kmem s1) frm opcodes\<rparr>
                in Inr (0, snd (setKernelWriting False (kernelWriteLock s2) s2))
              else Inr (EINVAL, s1\<lparr>code := MemoryProtection\<rparr>))
      else if \<not> kernelRoute then Inr (EINVAL, s\<lparr>code := MemoryProtection\<rparr>)
      else
        res_bind (createTrampoline qis frm LongJump opcodes s)
          (\<lambda>(trampoline, s1).
             if trampoline = 0 then Inr (EINVAL, s1)
             else res_bind (routeFunctionInternal qis frm trampoline False True True Auto None None s1)
                    (\<lambda>(r, s2). Inr (if r = 0 then trampoline else EINVAL, s2))))"

text \<open>Removing the patches at unload.\<close>

definition deinit :: "'a kpatcher_scheme \<Rightarrow> 'a kpatcher_scheme" where
  "deinit s =
     (let s1 = (if kinfos s \<noteq> [] then
                  (let (w, t) = setKernelWriting True (kernelWriteLock s) s
                   in if w then
                        (let t' = t\<lparr>kmem := fold patch_restore (ev_items (kpatches t)) (kmem t)\<rparr>
                         in snd (setKernelWriting False (kernelWriteLock t') t'))
                      else t)
                else s)
      in s1\<lparr>kpatches := ev_deinit (kpatches s1), kinfos := [], kernelWriteLock := False\<rparr>)"

section \<open>What a route writes\<close>

text \<open>The bytes of the three jumps.\<close>

definition small_bytes :: "u32 \<Rightarrow> byte list" where
  "small_bytes arg = SmallJumpPrefix # nat_le 4 (unat arg)"

definition medium_bytes :: "u32 \<Rightarrow> byte list" where
  "medium_bytes arg = nat_le 2 (unat LongJumpPrefix) @ nat_le 4 (unat arg)"

definition long_bytes :: "addr \<Rightarrow> byte list" where
  "long_bytes to = medium_bytes 0 @ nat_le 8 (unat to)"

lemma jump_bytes_length [simp]:
  "length (small_bytes arg) = 5" "length (medium_bytes arg) = 6" "length (long_bytes to) = 14"
  by (simp_all add: small_bytes_def medium_bytes_def long_bytes_def)

lemma length_put_bytes: "off + length bs \<le> length p \<Longrightarrow> length (put_bytes off bs p) = length p"
  by (simp add: put_bytes_def)

text \<open>Filling the union from the front.\<close>

lemma put_bytes_front:
  assumes "take off p = h" and "length h = off" and "off + length bs = k"
  shows "take k (put_bytes off bs p) = h @ bs"
  using assms by (auto simp: put_bytes_def)

lemma smallPatch_bytes:
  "take 8 (smallPatch m frm arg p) = small_bytes arg @ load_bytes m (frm + 5) 3"
  unfolding smallPatch_def
  by (intro put_bytes_front [where off = 5 and h = "small_bytes arg"])
     (auto intro!: put_bytes_front [where off = 1 and h = "[SmallJumpPrefix]", simplified]
        put_bytes_front [where off = 0 and h = "[]", simplified] simp: small_bytes_def)

lemma mediumPatch_bytes:
  "take 8 (mediumPatch m frm arg p) = medium_bytes arg @ load_bytes m (frm + 6) 2"
  unfolding mediumPatch_def medium_bytes_def
  by (intro put_bytes_front [where off = 6] put_bytes_front [where off = 2] put_bytes_front [where off = 0])
     (simp_all add: put_bytes_def)

lemma longPatch_bytes:
  "take 16 (longPatch m frm to p) = long_bytes to @ load_bytes m (frm + 14) 2"
  unfolding longPatch_def long_bytes_def medium_bytes_def
  by (intro put_bytes_front [where off = 14] put_bytes_front [where off = 6] put_bytes_front [where off = 2]
      put_bytes_front [where off = 0]) (simp_all add: put_bytes_def)

lemma length_longPatch: "length p = 16 \<Longrightarrow> length (longPatch m frm to p) = 16"
  by (simp add: longPatch_def length_put_bytes)

lemma length_patches:
  assumes "length p = 16"
  shows "length (fst (routePatches m frm to absolute slot p)) = 16"
  using assms
  by (simp add: routePatches_def longPatch_def mediumPatch_def smallPatch_def length_put_bytes Let_def)

text \<open>The memory after a route, whichever way it was written.\<close>

definition routed_mem :: "mem \<Rightarrow> addr \<Rightarrow> addr \<Rightarrow> bool \<Rightarrow> addr \<Rightarrow> mem" where
  "routed_mem m frm to absolute slot =
     (if slot \<noteq> 0 then store_bytes (store64 m slot to) frm (medium_bytes (ucast (slot - (frm + of_nat MediumJump))))
      else if absolute then store_bytes m frm (long_bytes to)
      else store_bytes m frm (small_bytes (jumpArgument frm to)))"

text \<open>The patches applied one after the other.\<close>

definition apply_patches :: "kpatch \<Rightarrow> kpatch \<Rightarrow> kpatch option \<Rightarrow> mem \<Rightarrow> mem" where
  "apply_patches opcode argument disp m =
     patch_apply argument (patch_apply opcode (case disp of None \<Rightarrow> m | Some d \<Rightarrow> patch_apply d m))"

lemma store8: "m(a := v) = store_bytes m a [v]"
  by (simp add: store_bytes_Cons)

lemma two_stores:
  "length bs = n \<Longrightarrow> n + length cs \<le> 2 ^ 64 \<Longrightarrow>
     store_bytes (store_bytes m a bs) (a + of_nat n) cs = store_bytes m a (bs @ cs)"
  by (simp add: store_append)

lemma routeWrite_small:
  assumes "routePatches m frm to False 0 p0 = (p, opcode, argument, disp)"
  shows "routeWrite frm False 0 p opcode argument disp m = routed_mem m frm to False 0"
    "apply_patches opcode argument disp m = routed_mem m frm to False 0"
proof -
  let ?a = "jumpArgument frm to"
  from assms have *: "p = smallPatch m frm ?a p0" "opcode = create_u8 m frm SmallJumpPrefix"
    "argument = create_u32 m (frm + 1) ?a" "disp = None" by (auto simp: routePatches_def Let_def)
  have "store_bytes m frm (take 8 p) = store_bytes m frm (small_bytes ?a)"
    unfolding * smallPatch_bytes using store_same_tail [of "small_bytes ?a" 3 m frm m] by simp
  moreover have "patch_apply argument (patch_apply opcode m) = store_bytes m frm (small_bytes ?a)"
    unfolding * create_u8_def create_u32_def patch_apply.simps store32_def store8 small_bytes_def
    using two_stores [of "[SmallJumpPrefix]" 1 "nat_le 4 (unat ?a)" m frm] by simp
  ultimately show "routeWrite frm False 0 p opcode argument disp m = routed_mem m frm to False 0"
    "apply_patches opcode argument disp m = routed_mem m frm to False 0"
    by (simp_all add: routeWrite_def routed_mem_def apply_patches_def *(4))
qed

lemma routeWrite_medium:
  assumes "routePatches m frm to absolute slot p0 = (p, opcode, argument, disp)" and "slot \<noteq> 0"
    and "apart frm 8 slot 8"
  shows "routeWrite frm absolute slot p opcode argument disp m = routed_mem m frm to absolute slot"
    "apply_patches opcode argument disp m = routed_mem m frm to absolute slot"
proof -
  let ?a = "ucast (slot - (frm + of_nat MediumJump)) :: u32" and ?m = "store64 m slot to"
  from assms have *: "p = mediumPatch m frm ?a p0" "opcode = create_u16 m frm LongJumpPrefix"
    "argument = create_u32 m (frm + 2) ?a" "disp = Some (create_u64 m slot to)"
    by (auto simp: routePatches_def Let_def)
  have "apart (frm + of_nat 6) 2 slot 8" using assms(3) by (rule apart_shift) simp
  then have "load_bytes ?m (frm + 6) 2 = load_bytes m (frm + 6) 2"
    unfolding store64_def by (intro load_store_apart) simp
  then have "store_bytes ?m frm (take 8 p) = store_bytes ?m frm (medium_bytes ?a)"
    unfolding * mediumPatch_bytes using store_same_tail [of "medium_bytes ?a" 2 ?m frm m] by simp
  moreover have "patch_apply argument (patch_apply opcode ?m) = store_bytes ?m frm (medium_bytes ?a)"
    unfolding * create_u16_def create_u32_def patch_apply.simps store16_def store32_def medium_bytes_def
    using two_stores [of "nat_le 2 (unat LongJumpPrefix)" 2 "nat_le 4 (unat ?a)" ?m frm] by simp
  ultimately show "routeWrite frm absolute slot p opcode argument disp m = routed_mem m frm to absolute slot"
    "apply_patches opcode argument disp m = routed_mem m frm to absolute slot"
    using assms(2) by (simp_all add: routeWrite_def routed_mem_def apply_patches_def *(4) create_u64_def Let_def)
qed

lemma routeWrite_long:
  assumes "routePatches m frm to True 0 p0 = (p, opcode, argument, disp)" and "length p0 = 16"
  shows "routeWrite frm True 0 p opcode argument disp m = routed_mem m frm to True 0"
    "apply_patches opcode argument disp m = routed_mem m frm to True 0"
proof -
  from assms have *: "p = longPatch m frm to p0" "opcode = create_u16 m frm LongJumpPrefix"
    "argument = create_u32 m (frm + 2) 0" "disp = Some (create_u64 m (frm + 6) to)"
    by (auto simp: routePatches_def Let_def)
  have "store_bytes m frm p = store_bytes m frm (take 16 p)"
    using length_longPatch [OF assms(2)] by (simp add: *)
  also have "\<dots> = store_bytes m frm (long_bytes to)"
    unfolding * longPatch_bytes using store_same_tail [of "long_bytes to" 2 m frm m] by simp
  finally have a: "store_bytes m frm p = store_bytes m frm (long_bytes to)" .
  let ?D = "nat_le 8 (unat to)" and ?O = "nat_le 2 (unat LongJumpPrefix)" and ?A = "nat_le 4 (unat (0 :: u32))"
  have ap: "apart frm (length (?O @ ?A)) (frm + 6) (length ?D)" using apart_next [of 6 8 frm] by simp
  have "patch_apply argument (patch_apply opcode (patch_apply (the disp) m))
      = store_bytes (store_bytes m (frm + 6) ?D) frm (?O @ ?A)"
    unfolding * create_u16_def create_u32_def create_u64_def patch_apply.simps store16_def store32_def store64_def
      option.sel
    using two_stores [of ?O 2 ?A "store_bytes m (frm + 6) ?D" frm] by simp
  also have "\<dots> = store_bytes (store_bytes m frm (?O @ ?A)) (frm + 6) ?D"
    by (rule store_commute [OF ap, symmetric])
  also have "\<dots> = store_bytes m frm (long_bytes to)"
    unfolding long_bytes_def medium_bytes_def using two_stores [of "?O @ ?A" 6 ?D m frm] by simp
  finally show "routeWrite frm True 0 p opcode argument disp m = routed_mem m frm to True 0"
    "apply_patches opcode argument disp m = routed_mem m frm to True 0"
    using a by (simp_all add: routeWrite_def routed_mem_def apply_patches_def *(4))
qed

section \<open>Reading a route back\<close>

text \<open>The slot can be addressed by the 32-bit displacement of a medium jump.\<close>

definition slot_in_reach :: "addr \<Rightarrow> addr \<Rightarrow> bool" where
  "slot_in_reach frm slot \<longleftrightarrow>
     slot - (frm + of_nat MediumJump) = scast (ucast (slot - (frm + of_nat MediumJump)) :: u32)"

lemma ucast_load16: "(ucast (load16 m a) :: byte) = m a"
proof -
  have "le_nat (load_bytes m a 2) < 2 ^ 16" using le_nat_bound [of "load_bytes m a 2"] by simp
  then have "(ucast (load16 m a) :: byte) = of_nat (le_nat (load_bytes m a 2))"
    unfolding load16_def by (simp add: unsigned_of_nat take_bit_nat_eq_self)
  also have "\<dots> = m a"
  proof -
    have "(256 :: byte) = 0" by simp
    then have "(of_nat (256 * n) :: byte) = 0" for n by (simp only: of_nat_mult of_nat_numeral) simp
    moreover have "le_nat (load_bytes m a 2) = unat (m a) + 256 * unat (m (a + 1))"
      by (simp add: load_bytes_def upt_rec)
    ultimately show ?thesis by (simp only: of_nat_add) simp
  qed
  finally show ?thesis .
qed

lemma load_at:
  assumes "off + k \<le> length bs" and "length bs \<le> 2 ^ 64"
  shows "load_bytes (store_bytes m a bs) (a + of_nat off) k = take k (drop off bs)"
  using assms
proof (intro nth_equalityI)
  fix i
  assume "i < length (load_bytes (store_bytes m a bs) (a + of_nat off) k)"
  with assms store_bytes_at [of "off + i" bs m a]
  show "load_bytes (store_bytes m a bs) (a + of_nat off) k ! i = take k (drop off bs) ! i"
    by (simp add: add.assoc)
qed (use assms in simp)

lemma readChain_small:
  assumes "\<not> jumpTooFar frm to"
  shows "readChain (store_bytes m frm (small_bytes (jumpArgument frm to))) frm = (to, Some Short)"
proof -
  let ?m = "store_bytes m frm (small_bytes (jumpArgument frm to))"
  have f: "?m frm = SmallJumpPrefix" by (simp add: store_bytes_def small_bytes_def)
  have "load16 ?m frm \<noteq> LongJumpPrefix"
  proof
    assume "load16 ?m frm = LongJumpPrefix"
    then have "?m frm = 0xFF" using ucast_load16 [of ?m frm] by (simp add: LongJumpPrefix_def)
    with f show False by (simp add: SmallJumpPrefix_def)
  qed
  moreover have "load_bytes ?m (frm + of_nat 1) 4 = nat_le 4 (unat (jumpArgument frm to))"
    by (subst load_at) (simp_all add: small_bytes_def)
  then have "load32 ?m (frm + 1) = jumpArgument frm to" by (simp add: load32_def codec)
  ultimately show ?thesis using f assms by (simp add: readChain_def jumpTooFar_def SmallJump_def algebra_simps)
qed

lemma medium_prefix:
  assumes "6 \<le> length bs" and "length bs \<le> 2 ^ 64" and "take 6 bs = medium_bytes arg"
  shows "load16 (store_bytes m frm bs) frm = LongJumpPrefix" "load32 (store_bytes m frm bs) (frm + 2) = arg"
proof -
  have t: "take 2 bs = nat_le 2 (unat LongJumpPrefix)" "take 4 (drop 2 bs) = nat_le 4 (unat arg)"
    using arg_cong [OF assms(3), of "take 2"] arg_cong [OF assms(3), of "drop 2"]
    by (simp_all add: medium_bytes_def drop_take)
  have "load_bytes (store_bytes m frm bs) frm 2 = nat_le 2 (unat LongJumpPrefix)"
    using load_at [of 0 2 bs m frm] assms t by simp
  then show "load16 (store_bytes m frm bs) frm = LongJumpPrefix" by (simp only: load16_def codec)
  have "load_bytes (store_bytes m frm bs) (frm + 2) 4 = nat_le 4 (unat arg)"
    using load_at [of 2 4 bs m frm] assms t by simp
  then show "load32 (store_bytes m frm bs) (frm + 2) = arg" by (simp only: load32_def codec)
qed

lemma readChain_long: "readChain (store_bytes m frm (long_bytes to)) frm = (to, Some Long)"
proof -
  let ?m = "store_bytes m frm (long_bytes to)"
  have p: "load16 ?m frm = LongJumpPrefix" "load32 ?m (frm + 2) = 0"
    by (rule medium_prefix; simp add: long_bytes_def)+
  have "load_bytes ?m (frm + of_nat 6) 8 = nat_le 8 (unat to)"
    by (subst load_at) (simp_all add: long_bytes_def)
  then have "load64 ?m (frm + 6) = to" by (simp add: load64_def codec)
  with p show ?thesis by (simp add: readChain_def MediumJump_def Let_def)
qed

lemma readChain_medium:
  assumes "slot_in_reach frm slot" and "apart slot 8 frm 8"
    and "arg = ucast (slot - (frm + of_nat MediumJump))"
  shows "readChain (store_bytes (store64 m slot to) frm (medium_bytes arg)) frm = (to, Some Medium)"
proof -
  let ?m = "store_bytes (store64 m slot to) frm (medium_bytes arg)"
  have p: "load16 ?m frm = LongJumpPrefix" "load32 ?m (frm + 2) = arg" by (rule medium_prefix; simp)+
  have s: "frm + of_nat MediumJump + scast arg = slot"
    using assms(1) unfolding slot_in_reach_def assms(3) by (metis add_diff_cancel_left' diff_add_cancel add.commute)
  have "slot \<noteq> frm + of_nat 6"
    using assms(2) [unfolded apart_def, rule_format, of 0 6] by simp
  then have "arg \<noteq> 0" using s by (auto simp: MediumJump_def)
  moreover have "load64 ?m slot = to"
    unfolding load64_def store64_def using apart_sym [OF apart_shift [OF apart_sym [OF assms(2)], of 0 6]]
    by (simp add: load_store_apart load_store_same codec)
  ultimately show ?thesis using p s by (simp add: readChain_def Let_def)
qed

lemma readChain_routed:
  assumes "absolute \<or> \<not> jumpTooFar frm to"
    and "slot \<noteq> 0 \<Longrightarrow> slot_in_reach frm slot \<and> apart slot 8 frm 8"
  shows "readChain (routed_mem m frm to absolute slot) frm =
    (to, Some (if slot \<noteq> 0 then Medium else if absolute then Long else Short))"
proof (cases "slot \<noteq> 0")
  case True
  with assms(2) readChain_medium show ?thesis by (simp add: routed_mem_def)
next
  case False
  with assms(1) readChain_long readChain_small show ?thesis by (auto simp: routed_mem_def)
qed

section \<open>A route that succeeds\<close>

lemma skw_kpatcher [simp]:
  fixes s :: "'a kpatcher_scheme"
  shows "kernelWriteLock (snd (setKernelWriting e l s)) = kernelWriteLock s"
    "code (snd (setKernelWriting e l s)) = code s" "kinfos (snd (setKernelWriting e l s)) = kinfos s"
    "kpatches (snd (setKernelWriting e l s)) = kpatches s" "fpatch (snd (setKernelWriting e l s)) = fpatch s"
    "tempExecutableMemory (snd (setKernelWriting e l s)) = tempExecutableMemory s"
    "tempExecutableMemoryOff (snd (setKernelWriting e l s)) = tempExecutableMemoryOff s"
    "allocs (snd (setKernelWriting e l s)) = allocs s"
  by (simp_all add: setKernelWriting_def setWPBit_def setInterrupts_def Let_def)

lemma same_cpu_kpatcher:
  fixes s :: "'a kpatcher_scheme"
  assumes "same_cpu t s"
  shows "kernelWriteLock t = kernelWriteLock s" "code t = code s" "kinfos t = kinfos s"
    "kpatches t = kpatches s" "fpatch t = fpatch s" "tempExecutableMemory t = tempExecutableMemory s"
    "tempExecutableMemoryOff t = tempExecutableMemoryOff s" "allocs t = allocs s"
proof -
  note eq = assms [unfolded same_cpu_def]
  show "kernelWriteLock t = kernelWriteLock s" using arg_cong [OF eq, of kernelWriteLock] by simp
  show "code t = code s" using arg_cong [OF eq, of code] by simp
  show "kinfos t = kinfos s" using arg_cong [OF eq, of kinfos] by simp
  show "kpatches t = kpatches s" using arg_cong [OF eq, of kpatches] by simp
  show "fpatch t = fpatch s" using arg_cong [OF eq, of fpatch] by simp
  show "tempExecutableMemory t = tempExecutableMemory s" using arg_cong [OF eq, of tempExecutableMemory] by simp
  show "tempExecutableMemoryOff t = tempExecutableMemoryOff s"
    using arg_cong [OF eq, of tempExecutableMemoryOff] by simp
  show "allocs t = allocs s" using arg_cong [OF eq, of allocs] by simp
qed

text \<open>The states routing works on: writes to CR0 take effect, allocations succeed, the union has its
  sixteen bytes.\<close>

definition route_ready :: "'a kpatcher_scheme \<Rightarrow> bool" where
  "route_ready s \<longleftrightarrow> bare_metal s \<and> allocs s = [] \<and> length (fpatch s) = 16"

lemma alloc1_ready: "allocs s = [] \<Longrightarrow> alloc1 s = (True, s)"
  by (simp add: alloc1_def next_alloc_def)

lemma push_patch_ready:
  assumes "allocs s = []"
  obtains v where "push_patch p s = (True, s\<lparr>kpatches := v\<rparr>)" "ev_items v = ev_items (kpatches s) @ [p]"
proof
  show "push_patch p s = (True, s\<lparr>kpatches := snd (snd (ev_push_back 4 p [] (kpatches s)))\<rparr>)"
    using assms by (auto simp: push_patch_def ev_push_back_cases next_alloc_def)
  show "ev_items (snd (snd (ev_push_back 4 p [] (kpatches s)))) = ev_items (kpatches s) @ [p]"
    by (simp add: ev_push_back_cases next_alloc_def)
qed

lemma storePatches_ready:
  assumes "allocs s = []"
  obtains v where "storePatches opcode argument disp s = Inr (s\<lparr>kpatches := v\<rparr>)"
    "ev_items v = ev_items (kpatches s) @ opcode # argument # (case disp of None \<Rightarrow> [] | Some d \<Rightarrow> [d])"
proof -
  obtain v1 where 1: "push_patch opcode s = (True, s\<lparr>kpatches := v1\<rparr>)" "ev_items v1 = ev_items (kpatches s) @ [opcode]"
    using push_patch_ready [OF assms] .
  obtain v2 where 2: "push_patch argument (s\<lparr>kpatches := v1\<rparr>) = (True, s\<lparr>kpatches := v2\<rparr>)"
    "ev_items v2 = ev_items v1 @ [argument]"
    using push_patch_ready [of "s\<lparr>kpatches := v1\<rparr>" argument] assms by auto
  show thesis
  proof (cases disp)
    case None
    with 1 2 show thesis by (intro that [of v2]) (simp_all add: storePatches_def)
  next
    case (Some d)
    obtain v3 where 3: "push_patch d (s\<lparr>kpatches := v2\<rparr>) = (True, s\<lparr>kpatches := v3\<rparr>)"
      "ev_items v3 = ev_items v2 @ [d]"
      using push_patch_ready [of "s\<lparr>kpatches := v2\<rparr>" d] assms by auto
    with Some 1 2 show thesis by (intro that [of v3]) (simp_all add: storePatches_def)
  qed
qed

text \<open>The window around an edit of the whole memory.\<close>

definition in_window :: "bool \<Rightarrow> (mem \<Rightarrow> mem) \<Rightarrow> 'a kpatcher_scheme \<Rightarrow> 'a kpatcher_scheme" where
  "in_window kernelRoute f s = (if kernelRoute then kw.edit (kernelWriteLock s) f s else s\<lparr>kmem := f (kmem s)\<rparr>)"

lemma in_window:
  assumes "bare_metal s"
  shows "kmem (in_window kr f s) = f (kmem s)" "same_cpu (in_window kr f s) s"
  using assms by (simp_all add: in_window_def kw.edit_memory kw.edit_same)

lemma routeCommit_window:
  assumes "route_ready s" and rp: "routePatches (kmem s) frm to absolute slot (fpatch s) = (p, opcode, argument, disp)"
  shows "routeCommit frm to absolute slot kr rv tr s =
    (let s6 = in_window kr (routeWrite frm absolute slot p opcode argument disp) (s\<lparr>fpatch := p\<rparr>)
     in if kr \<and> rv then res_bind (storePatches opcode argument disp s6) (\<lambda>s7. Inr (tr, s7)) else Inr (tr, s6))"
proof -
  let ?s = "s\<lparr>fpatch := p\<rparr>"
  have al: "allocs s = []" and bm: "bare_metal ?s"
    using assms(1) by (simp_all add: route_ready_def bare_metal_def)
  have d: "absolute \<or> slot \<noteq> 0 \<Longrightarrow> disp \<noteq> None" using rp by (auto simp: routePatches_def Let_def split: if_splits)
  obtain t where t: "setKernelWriting True (kernelWriteLock s) ?s = (True, t)"
    using kw.enter_ok [OF bm, of "kernelWriteLock s"] by (cases "setKernelWriting True (kernelWriteLock s) ?s") auto
  then have "kernelWriteLock t = kernelWriteLock s"
    using skw_kpatcher(1) [of True "kernelWriteLock s" ?s] by simp
  then show ?thesis
    using d t al by (cases "disp = None") (auto simp: routeCommit_def rp alloc1_ready in_window_def kw.edit_def Let_def)
qed

lemma bare_metal_updates [simp]:
  fixes s :: "'a kpatcher_scheme"
  shows "bare_metal (s\<lparr>fpatch := p\<rparr>) = bare_metal s" "bare_metal (s\<lparr>code := c\<rparr>) = bare_metal s"
    "bare_metal (s\<lparr>kinfos := k\<rparr>) = bare_metal s" "bare_metal (s\<lparr>kpatches := v\<rparr>) = bare_metal s"
    "bare_metal (s\<lparr>kmem := m\<rparr>) = bare_metal s" "bare_metal (s\<lparr>tempExecutableMemoryOff := n\<rparr>) = bare_metal s"
  by (simp_all add: bare_metal_def)

lemma same_cpu_upd:
  fixes s :: "'a kpatcher_scheme"
  assumes "same_cpu t s"
  shows "same_cpu (t\<lparr>kpatches := v\<rparr>) (s\<lparr>kpatches := v\<rparr>)"
  using arg_cong [OF assms [unfolded same_cpu_def], of "kpatches_update (\<lambda>_. v)"] by (simp add: same_cpu_def)

text \<open>What a successful commit leaves: the routed memory, the recorded patches, and everything else as
  before.\<close>

lemma routeCommit_ok:
  assumes rr: "route_ready s" and ap: "slot \<noteq> 0 \<Longrightarrow> apart frm 8 slot 8"
    and rp: "routePatches (kmem s) frm to absolute slot (fpatch s) = (p, opcode, argument, disp)"
  obtains s' v where "routeCommit frm to absolute slot kr rv tr s = Inr (tr, s')"
    "kmem s' = routed_mem (kmem s) frm to absolute slot"
    "same_cpu s' (s\<lparr>fpatch := p, kpatches := v\<rparr>)"
    "ev_items v = ev_items (kpatches s) @ (if kr \<and> rv then opcode # argument #
       (case disp of None \<Rightarrow> [] | Some d \<Rightarrow> [d]) else [])"
    "route_ready s'" "kr \<and> rv \<or> v = kpatches s"
proof -
  let ?w = "in_window kr (routeWrite frm absolute slot p opcode argument disp) (s\<lparr>fpatch := p\<rparr>)"
  have bm: "bare_metal (s\<lparr>fpatch := p\<rparr>)" and len: "length (fpatch s) = 16" "length p = 16"
    using rr length_patches [of "fpatch s" "kmem s" frm to absolute slot] rp by (auto simp: route_ready_def)
  note w = in_window [OF bm, of kr "routeWrite frm absolute slot p opcode argument disp"]
  have wr: "routeWrite frm absolute slot p opcode argument disp (kmem s) = routed_mem (kmem s) frm to absolute slot"
    using rp len routeWrite_small(1) routeWrite_medium(1) [OF rp _ ap] routeWrite_long(1)
    by (cases "slot = 0"; cases absolute) auto
  have km: "kmem ?w = routed_mem (kmem s) frm to absolute slot" using w(1) wr by simp
  have al: "allocs ?w = []" using same_cpu_kpatcher(8) [OF w(2)] rr by (simp add: route_ready_def)
  have ready: "route_ready ?w"
    using al bm len same_cpu_kpatcher(5) [OF w(2)] same_cpu_fields(4) [OF w(2)]
    by (simp add: route_ready_def bare_metal_def)
  show thesis
  proof (cases "kr \<and> rv")
    case False
    with km w(2) ready show thesis
      by (intro that [of ?w "kpatches s"]) (auto simp: routeCommit_window [OF rr rp] Let_def)
  next
    case True
    obtain v where v: "storePatches opcode argument disp ?w = Inr (?w\<lparr>kpatches := v\<rparr>)"
      "ev_items v = ev_items (kpatches ?w) @ opcode # argument # (case disp of None \<Rightarrow> [] | Some d \<Rightarrow> [d])"
      using storePatches_ready [OF al] .
    have sc: "same_cpu (?w\<lparr>kpatches := v\<rparr>) (s\<lparr>fpatch := p, kpatches := v\<rparr>)"
      using same_cpu_upd [OF w(2)] by simp
    show thesis
      using True km ready v same_cpu_kpatcher(4) [OF w(2)] sc
      by (intro that [of "?w\<lparr>kpatches := v\<rparr>" v])
         (auto simp: routeCommit_window [OF rr rp] Let_def route_ready_def)
  qed
qed

section \<open>Trampolines\<close>

text \<open>The executable memory that has not been handed out yet is still zero.\<close>

definition temp_clear :: "'a kpatcher_scheme \<Rightarrow> bool" where
  "temp_clear s \<longleftrightarrow> (\<forall>i. tempExecutableMemoryOff s \<le> i \<and> i < TempExecutableMemorySize \<longrightarrow>
     kmem s (tempExecutableMemory s + of_nat i) = 0)"

definition jump_bytes :: "addr \<Rightarrow> addr \<Rightarrow> byte list" where
  "jump_bytes frm to = (if jumpTooFar frm to then long_bytes to else small_bytes (jumpArgument frm to))"

lemma length_jump_bytes: "length (jump_bytes frm to) \<le> 14"
  by (simp add: jump_bytes_def)

lemma routed_jump: "routed_mem m frm to (jumpTooFar frm to) 0 = store_bytes m frm (jump_bytes frm to)"
  by (simp add: routed_mem_def jump_bytes_def)

lemma skw_temp:
  fixes s :: "'a kpatcher_scheme"
  shows "setKernelWriting False l (s\<lparr>tempExecutableMemoryOff := n, kmem := m\<rparr>) =
    (fst (setKernelWriting False l (s\<lparr>kmem := m\<rparr>)),
     (snd (setKernelWriting False l (s\<lparr>kmem := m\<rparr>)))\<lparr>tempExecutableMemoryOff := n\<rparr>)"
  by (simp add: setKernelWriting_def setInterrupts_def setWPBit_def Let_def split: prod.splits)

lemma same_cpu_upds:
  fixes s :: "'a kpatcher_scheme"
  assumes "same_cpu t s"
  shows "same_cpu (t\<lparr>tempExecutableMemoryOff := n, code := c, fpatch := p\<rparr>)
    (s\<lparr>fpatch := p, code := c, tempExecutableMemoryOff := n\<rparr>)"
  using arg_cong [OF assms [unfolded same_cpu_def],
      of "\<lambda>x. x\<lparr>tempExecutableMemoryOff := n, code := c, fpatch := p\<rparr>"] by (simp add: same_cpu_def)

lemma no_jump:
  assumes "m a = 0"
  shows "readChain m a = (0, None)"
proof -
  have "load16 m a \<noteq> LongJumpPrefix"
    using ucast_load16 [of m a] assms by (auto simp: LongJumpPrefix_def)
  with assms show ?thesis by (simp add: readChain_def SmallJumpPrefix_def)
qed

lemma routeUnwrapped_fresh:
  fixes s :: "'a kpatcher_scheme"
  assumes rr: "route_ready s" and nj: "kmem s frm = 0"
  obtains s' p where "routeUnwrapped frm to True False Auto None None s = Inr (0, s')"
    "kmem s' = store_bytes (kmem s) frm (jump_bytes frm to)"
    "same_cpu s' (s\<lparr>fpatch := p\<rparr>)" "route_ready s'"
proof -
  obtain p opcode argument disp where rp: "routePatches (kmem s) frm to (jumpTooFar frm to) 0 (fpatch s)
      = (p, opcode, argument, disp)" by (cases "routePatches (kmem s) frm to (jumpTooFar frm to) 0 (fpatch s)")
  obtain s' where c: "routeCommit frm to (jumpTooFar frm to) 0 True False 0 s = Inr (0, s')"
      "kmem s' = routed_mem (kmem s) frm to (jumpTooFar frm to) 0"
      "same_cpu s' (s\<lparr>fpatch := p\<rparr>)" "route_ready s'"
  proof (rule routeCommit_ok [OF rr _ rp, where kr = True and rv = False and tr = 0])
    fix s' v
    assume "routeCommit frm to (jumpTooFar frm to) 0 True False 0 s = Inr (0, s')"
      "kmem s' = routed_mem (kmem s) frm to (jumpTooFar frm to) 0"
      "same_cpu s' (s\<lparr>fpatch := p, kpatches := v\<rparr>)" "route_ready s'" "True \<and> False \<or> v = kpatches s"
    then show thesis by (intro that) auto
  qed auto
  have "routeUnwrapped frm to True False Auto None None s = Inr (0, s')"
    using c(1) no_jump [of "kmem s" frm] nj by (simp add: routeUnwrapped_def routeWith_def Let_def)
  with c show thesis by (intro that) (auto simp: routed_jump)
qed

text \<open>A trampoline: the requested opcodes, the prologue of the function, and a jump to its rest.\<close>

lemma createTrampoline_ok:
  fixes s :: "'a kpatcher_scheme"
  defines "T \<equiv> tempExecutableMemory s + of_nat (tempExecutableMemoryOff s)"
  assumes rr: "route_ready s" and tc: "temp_clear s" and off: "qis (kmem s) func minimum = off" "0 < off"
    and room: "tempExecutableMemoryOff s + (off + LongJump + length opcodes) < TempExecutableMemorySize"
    and ap: "apart func off T (length opcodes)"
  obtains s' p where "createTrampoline qis func minimum opcodes s = Inr (T, s')"
    "kmem s' = store_bytes (kmem s) T (opcodes @ load_bytes (kmem s) func off
       @ jump_bytes (T + of_nat (length opcodes + off)) (func + of_nat off))"
    "same_cpu s' (s\<lparr>fpatch := p, code := NoError,
       tempExecutableMemoryOff := tempExecutableMemoryOff s + (off + LongJump + length opcodes)\<rparr>)"
    "route_ready s'"
proof -
  let ?l = "kernelWriteLock s" and ?n = "tempExecutableMemoryOff s + (off + LongJump + length opcodes)"
  let ?F = "T + of_nat (length opcodes + off)"
  have bm: "bare_metal s" using rr by (simp add: route_ready_def)
  obtain t where t: "setKernelWriting True ?l s = (True, t)"
    using kw.enter_ok [OF bm, of ?l] by (cases "setKernelWriting True ?l s") auto
  have tf: "kernelWriteLock t = ?l" "kmem t = kmem s" "tempExecutableMemory t = tempExecutableMemory s"
    "tempExecutableMemoryOff t = tempExecutableMemoryOff s"
    using skw_kpatcher [of True ?l s] enter_kmem [of True ?l s] t by simp_all
  define m2 where "m2 = store_bytes (kmem s) T (opcodes @ load_bytes (kmem s) func off)"
  have n: "size_add (tempExecutableMemoryOff s) (off + LongJump + length opcodes) = ?n"
    using room by (intro size_add_small) (simp add: TempExecutableMemorySize_def)
  define s5 where "s5 = (kw.edit ?l (\<lambda>_. m2) s)\<lparr>tempExecutableMemoryOff := ?n, code := NoError\<rparr>"
  have es: "same_cpu (kw.edit ?l (\<lambda>_. m2) s) s" by (rule kw.edit_same [OF bm])
  have s5: "kmem s5 = m2" "route_ready s5"
    using rr kw.edit_usable [OF bm, of ?l "\<lambda>_. m2"] same_cpu_kpatcher(5,8) [OF es]
    by (simp_all add: s5_def route_ready_def kw.edit_memory)
  have f0: "m2 ?F = 0"
  proof -
    have "unat (?F - T) = length opcodes + off"
      using room by (simp add: unat_of_nat_small64 TempExecutableMemorySize_def flip: of_nat_add)
    then have "m2 ?F = kmem s ?F" by (simp add: m2_def store_bytes_other)
    also have "\<dots> = 0"
      using tc [unfolded temp_clear_def, rule_format, of "tempExecutableMemoryOff s + (length opcodes + off)"] room
      by (simp add: LongJump_def T_def add.assoc)
    finally show ?thesis .
  qed
  obtain s' p where c: "routeUnwrapped ?F (func + of_nat off) True False Auto None None s5 = Inr (0, s')"
    "kmem s' = store_bytes m2 ?F (jump_bytes ?F (func + of_nat off))"
    "same_cpu s' (s5\<lparr>fpatch := p\<rparr>)" "route_ready s'"
    using routeUnwrapped_fresh [OF s5(2), of ?F] s5(1) f0 by metis
  have cp: "store_bytes (store_bytes (kmem s) T opcodes) (T + of_nat (length opcodes))
      (load_bytes (store_bytes (kmem s) T opcodes) func off) = m2"
    using ap room by (simp add: m2_def store_append load_store_apart TempExecutableMemorySize_def)
  have "createTrampoline qis func minimum opcodes s = Inr (T, s')"
  proof -
    have g: "\<not> (off = 0 \<or> off > unat PAGE_SIZE - LongJump)" "\<not> ?n \<ge> TempExecutableMemorySize"
      using off room by (simp_all add: PAGE_SIZE_def TempExecutableMemorySize_def LongJump_def)
    have "routeUnwrapped (T + of_nat (length opcodes) + of_nat off) (func + of_nat off) True False Auto None None s5
        = Inr (0, s')" using c(1) by (simp add: add.assoc)
    moreover have "clearError (snd (setKernelWriting False ?l (t\<lparr>tempExecutableMemoryOff := ?n, kmem := m2\<rparr>))) = s5"
      by (simp add: skw_temp clearError_def s5_def kw.edit_def t)
    moreover have "code s' = NoError" using same_cpu_kpatcher(2) [OF c(3)] by (simp add: s5_def)
    ultimately show ?thesis
      using off(1) g by (simp add: createTrampoline_def t tf n cp Let_def flip: T_def)
  qed
  moreover have "kmem s' = store_bytes (kmem s) T (opcodes @ load_bytes (kmem s) func off
       @ jump_bytes ?F (func + of_nat off))"
    unfolding c(2) m2_def
    using two_stores [of "opcodes @ load_bytes (kmem s) func off" "length opcodes + off" "jump_bytes ?F (func + of_nat off)"]
      length_jump_bytes [of ?F "func + of_nat off"] room
    by (simp add: TempExecutableMemorySize_def)
  moreover have "same_cpu s' (s\<lparr>fpatch := p, code := NoError, tempExecutableMemoryOff := ?n\<rparr>)"
    using c(3) same_cpu_upds [OF es] unfolding s5_def by (rule same_cpu_trans)
  ultimately show thesis using c(4) by (rule that)
qed

section \<open>A wrapped route\<close>

lemma load_bytes_add: "load_bytes m a (n + k) = load_bytes m a n @ load_bytes m (a + of_nat n) k"
  by (rule nth_equalityI) (auto simp: nth_append add.assoc simp flip: of_nat_add)

lemma readChain_jump:
  assumes "load_bytes m a (length (jump_bytes a to)) = jump_bytes a to"
  shows "readChain m a = (to, Some (if jumpTooFar a to then Long else Short))"
proof -
  have "m = store_bytes m a (jump_bytes a to)" using assms by (metis store_load_id)
  then show ?thesis
    using readChain_long [of m a to] readChain_small [of a to m] by (auto simp: jump_bytes_def split: if_splits)
qed

text \<open>The bytes a route writes over the function.\<close>

definition route_length :: "bool \<Rightarrow> addr \<Rightarrow> nat" where
  "route_length absolute slot = (if absolute \<or> slot \<noteq> 0 then (if slot \<noteq> 0 then MediumJump else LongJump) else SmallJump)"

lemma routed_mem_frame:
  assumes "route_length absolute slot \<le> unat (x - frm)" and "slot \<noteq> 0 \<Longrightarrow> 8 \<le> unat (x - slot)"
  shows "routed_mem m frm to absolute slot x = m x"
  using assms
  by (auto simp: routed_mem_def route_length_def store_bytes_other store64_def jump_consts split: if_splits)

lemma routed_mem_load:
  assumes "apart a n frm 14" and "slot \<noteq> 0 \<Longrightarrow> apart a n slot 8"
  shows "load_bytes (routed_mem m frm to absolute slot) a n = load_bytes m a n"
proof -
  have "apart a n frm 6" "apart a n frm 5" using assms(1) by (auto simp: apart_def)
  then show ?thesis using assms
    by (auto simp: routed_mem_def store64_def load_store_apart)
qed

lemma slotFor_state:
  assumes "slotFor jt absolute info s = (slot, s1)"
  shows "\<exists>k. s1 = s\<lparr>kinfos := k\<rparr>"
proof (cases info)
  case None
  with assms show ?thesis by (intro exI [of _ "kinfos s"]) (simp add: slotFor_def)
next
  case (Some i)
  with assms show ?thesis
    by (cases "absolute \<and> (jt = Auto \<or> jt = Long)")
       (auto simp: slotFor_def take_slot_def split: prod.splits intro: exI [of _ "kinfos s"])
qed

text \<open>Where the pieces of a wrapped route must not overlap, and that the slot can be reached.\<close>

definition route_layout :: "addr \<Rightarrow> addr \<Rightarrow> nat \<Rightarrow> addr \<Rightarrow> addr option \<Rightarrow> bool" where
  "route_layout frm T off slot org \<longleftrightarrow>
     T \<noteq> 0 \<and> apart T (off + LongJump) frm 14
     \<and> (slot \<noteq> 0 \<longrightarrow> slot_in_reach frm slot \<and> apart slot 8 frm 8 \<and> apart T (off + LongJump) slot 8)
     \<and> (case org of None \<Rightarrow> True
        | Some o1 \<Rightarrow> apart o1 8 frm 14 \<and> apart T (off + LongJump) o1 8 \<and> (slot \<noteq> 0 \<longrightarrow> apart o1 8 slot 8))"

definition store_org :: "addr option \<Rightarrow> addr \<Rightarrow> mem \<Rightarrow> mem" where
  "store_org org T m = (case org of None \<Rightarrow> m | Some o1 \<Rightarrow> store64 m o1 T)"

text \<open>The memory a wrapped route leaves.\<close>

definition wrapped_mem :: "mem \<Rightarrow> addr \<Rightarrow> addr \<Rightarrow> bool \<Rightarrow> addr \<Rightarrow> addr \<Rightarrow> nat \<Rightarrow> addr option \<Rightarrow> mem" where
  "wrapped_mem m frm to absolute slot T off org =
     routed_mem (store_org org T (store_bytes m T (load_bytes m frm off @ jump_bytes (T + of_nat off) (frm + of_nat off))))
       frm to absolute slot"

lemma wrapped_mem_trampoline:
  assumes lay: "route_layout frm T off slot org" and off: "off + LongJump \<le> 2 ^ 64"
  shows "load_bytes (wrapped_mem m frm to absolute slot T off org) T off = load_bytes m frm off"
    "fst (readChain (wrapped_mem m frm to absolute slot T off org) (T + of_nat off)) = frm + of_nat off"
proof -
  let ?j = "jump_bytes (T + of_nat off) (frm + of_nat off)" and ?p = "load_bytes m frm off"
  let ?k = "off + length ?j" and ?m1 = "store_bytes m T (?p @ ?j)"
  let ?w = "wrapped_mem m frm to absolute slot T off org"
  have le: "?k \<le> off + LongJump" using length_jump_bytes [of "T + of_nat off" "frm + of_nat off"]
    by (simp add: LongJump_def)
  have sub: "apart T ?k b n" if "apart T (off + LongJump) b n" for b n
    using that le by (auto simp: apart_def)
  have "load_bytes ?w T ?k = load_bytes (store_org org T ?m1) T ?k"
    unfolding wrapped_mem_def using lay sub by (intro routed_mem_load) (auto simp: route_layout_def)
  also have "\<dots> = load_bytes ?m1 T ?k"
    using lay sub by (auto simp: store_org_def store64_def route_layout_def load_store_apart split: option.splits)
  also have "\<dots> = ?p @ ?j" using off le by (simp add: load_store_same)
  finally have "load_bytes ?w T off @ load_bytes ?w (T + of_nat off) (length ?j) = ?p @ ?j"
    by (simp only: load_bytes_add)
  then have "load_bytes ?w T off = ?p" "load_bytes ?w (T + of_nat off) (length ?j) = ?j" by simp_all
  then show "load_bytes ?w T off = ?p" "fst (readChain ?w (T + of_nat off)) = frm + of_nat off"
    by (simp_all add: readChain_jump)
qed

lemma wrapped_mem_org:
  assumes "route_layout frm T off slot (Some o1)"
  shows "load64 (wrapped_mem m frm to absolute slot T off (Some o1)) o1 = T"
proof -
  have "load_bytes (wrapped_mem m frm to absolute slot T off (Some o1)) o1 8
      = load_bytes (store64 (store_bytes m T (load_bytes m frm off @ jump_bytes (T + of_nat off) (frm + of_nat off))) o1 T) o1 8"
    unfolding wrapped_mem_def store_org_def option.case
    using assms by (intro routed_mem_load) (auto simp: route_layout_def)
  then show ?thesis using load_store64 [of _ o1 T] by (simp add: load64_def)
qed

lemma wrapped_mem_frame:
  assumes "route_length absolute slot \<le> unat (x - frm)" and "slot \<noteq> 0 \<Longrightarrow> 8 \<le> unat (x - slot)"
    and "off + LongJump \<le> unat (x - T)" and "\<And>o1. org = Some o1 \<Longrightarrow> 8 \<le> unat (x - o1)"
  shows "wrapped_mem m frm to absolute slot T off org x = m x"
proof -
  have "length (load_bytes m frm off @ jump_bytes (T + of_nat off) (frm + of_nat off)) \<le> unat (x - T)"
    using assms(3) length_jump_bytes [of "T + of_nat off" "frm + of_nat off"] by (simp add: LongJump_def)
  then show ?thesis
    using assms(4) routed_mem_frame [OF assms(1,2)]
    by (auto simp: wrapped_mem_def store_org_def store64_def store_bytes_other split: option.splits)
qed

text \<open>The whole wrapped route of a function that is not routed yet.\<close>

lemma routeWrapped_ok:
  fixes s :: "'a kpatcher_scheme"
  assumes rr: "route_ready s" and tc: "temp_clear s" and jt: "jt = Auto \<or> jt = Long"
    and fresh: "fst (readChain (kmem s) frm) = 0"
    and slot: "slotFor jt (jumpTooFar frm to \<or> jt = Long) info s = (slot, s1)"
    and off: "qis (kmem s) frm (route_length (jumpTooFar frm to \<or> jt = Long) slot) = off" "0 < off"
    and room: "tempExecutableMemoryOff s + (off + LongJump) < TempExecutableMemorySize"
    and T: "T = tempExecutableMemory s + of_nat (tempExecutableMemoryOff s)"
    and lay: "route_layout frm T off slot org"
  obtains s' where "routeFunctionInternal qis frm to True True rv jt info org s = Inr (T, s')"
    "kmem s' = wrapped_mem (kmem s) frm to (jumpTooFar frm to \<or> jt = Long) slot T off org"
    "cr0 s' = cr0 s" "eflags_if s' = eflags_if s" "lock_depth s' = lock_depth s" "route_ready s'"
proof -
  let ?abs = "jumpTooFar frm to \<or> jt = Long"
  obtain k where s1: "s1 = s\<lparr>kinfos := k\<rparr>" using slotFor_state [OF slot] by blast
  have sa: "slot \<noteq> 0 \<Longrightarrow> ?abs" using slot by (auto simp: slotFor_def split: option.splits if_splits)
  then have need: "(if ?abs then if slot \<noteq> 0 then MediumJump else LongJump else SmallJump) = route_length ?abs slot"
    by (auto simp: route_length_def)
  have "route_ready s1" "temp_clear s1" using rr tc by (simp_all add: s1 route_ready_def temp_clear_def)
  from this(1,2) obtain s2 p where c: "createTrampoline qis frm (route_length ?abs slot) [] s1 = Inr (T, s2)"
    "kmem s2 = store_bytes (kmem s) T (load_bytes (kmem s) frm off @ jump_bytes (T + of_nat off) (frm + of_nat off))"
    "same_cpu s2 (s1\<lparr>fpatch := p, code := NoError, tempExecutableMemoryOff := tempExecutableMemoryOff s + (off + LongJump)\<rparr>)"
    "route_ready s2"
  proof (rule createTrampoline_ok [where qis = qis and func = frm and opcodes = "[]" and off = off
        and minimum = "route_length ?abs slot"])
    fix s' p
    assume "createTrampoline qis frm (route_length ?abs slot) [] s1
        = Inr (tempExecutableMemory s1 + of_nat (tempExecutableMemoryOff s1), s')"
      "kmem s' = store_bytes (kmem s1) (tempExecutableMemory s1 + of_nat (tempExecutableMemoryOff s1))
         ([] @ load_bytes (kmem s1) frm off @ jump_bytes (tempExecutableMemory s1 + of_nat (tempExecutableMemoryOff s1)
            + of_nat (length [] + off)) (frm + of_nat off))"
      "same_cpu s' (s1\<lparr>fpatch := p, code := NoError,
         tempExecutableMemoryOff := tempExecutableMemoryOff s1 + (off + LongJump + length [])\<rparr>)" "route_ready s'"
    then show thesis using that [of s' p] by (simp add: s1 T)
  qed (use off room in \<open>simp_all add: s1 apart_def\<close>)
  let ?s3 = "s2\<lparr>kmem := store_org org T (kmem s2)\<rparr>"
  have r3: "route_ready ?s3" using c(4) by (simp add: route_ready_def)
  obtain q opcode argument disp where rp: "routePatches (kmem ?s3) frm to ?abs slot (fpatch ?s3) = (q, opcode, argument, disp)"
    by (cases "routePatches (kmem ?s3) frm to ?abs slot (fpatch ?s3)")
  have ap: "slot \<noteq> 0 \<Longrightarrow> apart frm 8 slot 8" using lay by (auto simp: route_layout_def intro: apart_sym)
  obtain s' v where d: "routeCommit frm to ?abs slot True rv T ?s3 = Inr (T, s')"
    "kmem s' = routed_mem (kmem ?s3) frm to ?abs slot" "same_cpu s' (?s3\<lparr>fpatch := q, kpatches := v\<rparr>)" "route_ready s'"
    using routeCommit_ok [OF r3 ap rp, where kr = True and rv = rv and tr = T] by metis
  have "T \<noteq> 0" using lay by (simp add: route_layout_def)
  have e: "(case org of None \<Rightarrow> s2 | Some o1 \<Rightarrow> s2\<lparr>kmem := store64 (kmem s2) o1 T\<rparr>) = ?s3"
    by (auto simp: store_org_def split: option.splits)
  have "routeFunctionInternal qis frm to True True rv jt info org s = Inr (T, s')"
    using jt fresh slot c(1) \<open>T \<noteq> 0\<close> d(1)
    by (auto simp: routeFunctionInternal_def routeWith_def need e Let_def split: prod.splits)
  moreover have "kmem s' = wrapped_mem (kmem s) frm to ?abs slot T off org"
    by (simp add: d(2) c(2) wrapped_mem_def)
  moreover have "cr0 s' = cr0 s" "eflags_if s' = eflags_if s" "lock_depth s' = lock_depth s"
    using same_cpu_fields(1-3) [OF d(3)] same_cpu_fields(1-3) [OF c(3)] by (simp_all add: s1)
  ultimately show thesis using d(4) that by blast
qed

section \<open>Removing routes\<close>

text \<open>Where a patch writes and the bytes it remembers.\<close>

fun patch_range :: "kpatch \<Rightarrow> addr \<times> nat" where
  "patch_range (PU8 a org rep) = (a, 1)"
| "patch_range (PU16 a org rep) = (a, 2)"
| "patch_range (PU32 a org rep) = (a, 4)"
| "patch_range (PU64 a org rep) = (a, 8)"

fun patch_original :: "kpatch \<Rightarrow> byte list" where
  "patch_original (PU8 a org rep) = [org]"
| "patch_original (PU16 a org rep) = nat_le 2 (unat org)"
| "patch_original (PU32 a org rep) = nat_le 4 (unat org)"
| "patch_original (PU64 a org rep) = nat_le 8 (unat org)"

lemma patch_restore_store: "patch_restore p m = store_bytes m (fst (patch_range p)) (patch_original p)"
  by (cases p) (simp_all add: store8 store16_def store32_def store64_def)

lemma length_patch_original: "length (patch_original p) = snd (patch_range p)"
  by (cases p) simp_all

definition patch_of :: "mem \<Rightarrow> kpatch \<Rightarrow> bool" where
  "patch_of m p \<longleftrightarrow> patch_original p = load_bytes m (fst (patch_range p)) (snd (patch_range p))"

lemma unat_le_nat:
  "(256 :: nat) ^ length bs = 2 ^ LENGTH('b) \<Longrightarrow> unat (of_nat (le_nat bs) :: 'b :: len word) = le_nat bs"
  using le_nat_bound [of bs] by (simp add: unsigned_of_nat take_bit_nat_eq_self)

lemma nat_le_load:
  "nat_le 2 (unat (load16 m a)) = load_bytes m a 2" "nat_le 4 (unat (load32 m a)) = load_bytes m a 4"
  "nat_le 8 (unat (load64 m a)) = load_bytes m a 8"
  using nat_le_le_nat [of "load_bytes m a 2"] nat_le_le_nat [of "load_bytes m a 4"]
    nat_le_le_nat [of "load_bytes m a 8"]
  by (simp_all add: load16_def load32_def load64_def unat_le_nat)

lemma create_patch_of: "patch_of m (create_u8 m a b)" "patch_of m (create_u16 m a h)"
  "patch_of m (create_u32 m a w)" "patch_of m (create_u64 m a q)"
  by (simp_all add: patch_of_def create_u8_def create_u16_def create_u32_def create_u64_def nat_le_load)
     (simp add: load_bytes_def)

lemma restore_all:
  assumes "\<forall>p \<in> set ps. patch_of m p"
    and "(\<exists>p \<in> set ps. unat (x - fst (patch_range p)) < snd (patch_range p)) \<or> m' x = m x"
  shows "fold patch_restore ps m' x = m x"
  using assms
proof (induction ps arbitrary: m')
  case Nil
  then show ?case by simp
next
  case (Cons p ps)
  have "patch_restore p m' x = (if unat (x - fst (patch_range p)) < snd (patch_range p) then m x else m' x)"
    using Cons.prems(1)
    by (simp add: patch_restore_store store_bytes_def length_patch_original patch_of_def)
  with Cons show ?case by (auto split: if_splits)
qed

lemma deinit_restores:
  fixes s :: "'a kpatcher_scheme"
  assumes "bare_metal s" and "kinfos s \<noteq> []"
  shows "kmem (deinit s) = fold patch_restore (ev_items (kpatches s)) (kmem s)"
proof -
  obtain t where t: "setKernelWriting True (kernelWriteLock s) s = (True, t)"
    using kw.enter_ok [OF assms(1), of "kernelWriteLock s"] by (cases "setKernelWriting True (kernelWriteLock s) s") auto
  then have "kmem t = kmem s" "kpatches t = kpatches s"
    using enter_kmem [of True "kernelWriteLock s" s] skw_kpatcher(4) [of True "kernelWriteLock s" s] by simp_all
  with t assms(2) show ?thesis by (simp add: deinit_def Let_def kw.leave_memory)
qed

lemma routePatches_of:
  assumes "routePatches m frm to absolute slot p0 = (p, opcode, argument, disp)"
  shows "\<forall>q \<in> set (opcode # argument # (case disp of None \<Rightarrow> [] | Some d \<Rightarrow> [d])). patch_of m q"
    "(\<exists>q \<in> set (opcode # argument # (case disp of None \<Rightarrow> [] | Some d \<Rightarrow> [d])).
        unat (x - fst (patch_range q)) < snd (patch_range q)) \<or> routed_mem m frm to absolute slot x = m x"
proof -
  show "\<forall>q \<in> set (opcode # argument # (case disp of None \<Rightarrow> [] | Some d \<Rightarrow> [d])). patch_of m q"
    using assms create_patch_of by (auto simp: routePatches_def Let_def split: if_splits)
  have split: "unat (x - a) < n \<or> unat (x - (a + of_nat n)) < k" if "unat (x - a) < n + k" for a :: addr and n k
    using that unat_past [of n x a] by (cases "unat (x - a) < n") auto
  show "(\<exists>q \<in> set (opcode # argument # (case disp of None \<Rightarrow> [] | Some d \<Rightarrow> [d])).
        unat (x - fst (patch_range q)) < snd (patch_range q)) \<or> routed_mem m frm to absolute slot x = m x"
  proof (cases "unat (x - frm) < route_length absolute slot \<or> slot \<noteq> 0 \<and> unat (x - slot) < 8")
    case False
    then show ?thesis using routed_mem_frame [of absolute slot x frm m to] by auto
  next
    case True
    then show ?thesis
      using assms split [of frm 2 4] split [of frm 1 4] split [of frm 6 8]
      by (auto simp: routePatches_def create_u8_def create_u16_def create_u32_def create_u64_def
          route_length_def jump_consts Let_def split: if_splits)
  qed
qed

text \<open>The bytes of a function that has been routed without a wrapper, in any of the three shapes, come
  back at unload.\<close>

lemma routeCommit_deinit:
  fixes s :: "'a kpatcher_scheme"
  assumes rr: "route_ready s" and ap: "slot \<noteq> 0 \<Longrightarrow> apart frm 8 slot 8"
    and "ev_items (kpatches s) = []" and "kinfos s \<noteq> []"
    and c: "routeCommit frm to absolute slot True True tr s = Inr (tr', s')"
  shows "kmem (deinit s') = kmem s"
proof -
  obtain p opcode argument disp where rp: "routePatches (kmem s) frm to absolute slot (fpatch s) = (p, opcode, argument, disp)"
    by (cases "routePatches (kmem s) frm to absolute slot (fpatch s)")
  obtain s2 v where d: "routeCommit frm to absolute slot True True tr s = Inr (tr, s2)"
    "kmem s2 = routed_mem (kmem s) frm to absolute slot"
    "same_cpu s2 (s\<lparr>fpatch := p, kpatches := v\<rparr>)"
    "ev_items v = opcode # argument # (case disp of None \<Rightarrow> [] | Some d \<Rightarrow> [d])" "route_ready s2"
    using routeCommit_ok [OF rr ap rp, where kr = True and rv = True and tr = tr] assms(3) by auto
  have s2: "s' = s2" using c d(1) by simp
  have k: "kinfos s' \<noteq> []" "ev_items (kpatches s') = opcode # argument # (case disp of None \<Rightarrow> [] | Some d \<Rightarrow> [d])"
    using same_cpu_kpatcher(3,4) [OF d(3)] d(4) assms(4) by (simp_all add: s2)
  have m: "kmem s' = routed_mem (kmem s) frm to absolute slot" using d(2) s2 by simp
  have "fold patch_restore (ev_items (kpatches s')) (kmem s') x = kmem s x" for x
    unfolding k(2) m using routePatches_of [OF rp] by (rule restore_all)
  then show ?thesis using deinit_restores [of s'] d(5) k(1) s2 by (auto simp: route_ready_def)
qed

section \<open>Routing a routed function\<close>

lemma routeChained:
  fixes s :: "'a kpatcher_scheme"
  assumes rr: "route_ready s" and prev: "readChain (kmem s) frm = (prev, Some Long)" "prev \<noteq> 0" and jt: "jt \<noteq> Short"
    and lay: "\<And>o1. org = Some o1 \<Longrightarrow> apart o1 8 frm 14"
  obtains s' where "routeFunctionInternal qis frm to True kr rv jt info org s = Inr (prev, s')"
    "kmem s' = routed_mem (store_org org prev (kmem s)) frm to (jumpTooFar frm to \<or> jt = Long) 0"
    "ev_items (kpatches s') = ev_items (kpatches s)" "route_ready s'"
proof -
  let ?abs = "jumpTooFar frm to \<or> jt = Long" and ?s = "s\<lparr>kmem := store_org org prev (kmem s)\<rparr>"
  obtain p opcode argument disp where rp: "routePatches (kmem ?s) frm to ?abs 0 (fpatch ?s) = (p, opcode, argument, disp)"
    by (cases "routePatches (kmem ?s) frm to ?abs 0 (fpatch ?s)")
  have r: "route_ready ?s" using rr by (simp add: route_ready_def)
  obtain s' where d: "routeCommit frm to ?abs 0 kr False prev ?s = Inr (prev, s')"
    "kmem s' = routed_mem (kmem ?s) frm to ?abs 0" "same_cpu s' (?s\<lparr>fpatch := p\<rparr>)" "route_ready s'"
    using routeCommit_ok [OF r _ rp, where kr = kr and rv = False and tr = prev] by auto
  have e: "(case org of None \<Rightarrow> s | Some o1 \<Rightarrow> s\<lparr>kmem := store64 (kmem s) o1 prev\<rparr>) = ?s"
    by (auto simp: store_org_def split: option.splits)
  have "routeFunctionInternal qis frm to True kr rv jt info org s = Inr (prev, s')"
    using prev jt d(1) by (simp add: routeFunctionInternal_def routeWith_def e Let_def)
  then show thesis using d same_cpu_kpatcher(4) [OF d(3)] by (intro that) simp_all
qed

section \<open>Properties\<close>

text \<open>A function whose prologue does not decode.\<close>

lemma createTrampoline_undecodable:
  assumes bm: "bare_metal s" and q: "qis (kmem s) func minimum = 0"
  obtains s' where "createTrampoline qis func minimum opcodes s = Inr (0, s')" "kmem s' = kmem s"
    "code s' = DisasmFailure" "cr0 s' = cr0 s" "eflags_if s' = eflags_if s" "lock_depth s' = lock_depth s"
proof -
  let ?l = "kernelWriteLock s"
  obtain t where t: "setKernelWriting True ?l s = (True, t)"
    using kw.enter_ok [OF bm, of ?l] by (cases "setKernelWriting True ?l s") auto
  have tf: "kernelWriteLock t = ?l" "kmem t = kmem s"
    using skw_kpatcher [of True ?l s] enter_kmem [of True ?l s] t by simp_all
  define s' where "s' = (kw.edit ?l (\<lambda>m. m) s)\<lparr>code := DisasmFailure\<rparr>"
  have e: "kw.edit ?l (\<lambda>m. m) s = snd (setKernelWriting False ?l t)" by (simp add: kw.edit_def t)
  have "createTrampoline qis func minimum opcodes s = Inr (0, s')"
    using q by (simp add: createTrampoline_def t tf Let_def s'_def e)
  then show thesis
    using same_cpu_fields [OF kw.edit_same [OF bm, of ?l "\<lambda>m. m"]] kw.edit_memory [of ?l "\<lambda>m. m" s]
    by (intro that [of s']) (simp_all add: s'_def)
qed

lemma routeFunction_undecodable_by:
  assumes "bare_metal s" and "fst (readChain (kmem s) frm) = 0" and "jt = Auto \<or> jt = Long"
    and "slotFor jt (jumpTooFar frm to \<or> jt = Long) info s = (slot, s1)"
    and "qis (kmem s) frm (route_length (jumpTooFar frm to \<or> jt = Long) slot) = 0"
    and "slot \<noteq> 0 \<Longrightarrow> jumpTooFar frm to \<or> jt = Long"
  shows "\<exists>s'. routeFunctionInternal qis frm to True kr rv jt info org s = Inr (EINVAL, s')
    \<and> kmem s' = kmem s \<and> code s' = DisasmFailure
    \<and> cr0 s' = cr0 s \<and> eflags_if s' = eflags_if s \<and> lock_depth s' = lock_depth s"
proof -
  obtain k where k: "s1 = s\<lparr>kinfos := k\<rparr>" using slotFor_state [OF assms(4)] by auto
  have bm: "bare_metal s1" using assms(1) k by (simp add: bare_metal_def)
  have l: "(if jumpTooFar frm to \<or> jt = Long then (if slot \<noteq> 0 then MediumJump else LongJump) else SmallJump)
      = route_length (jumpTooFar frm to \<or> jt = Long) slot" using assms(6) by (auto simp: route_length_def)
  have q: "qis (kmem s1) frm (route_length (jumpTooFar frm to \<or> jt = Long) slot) = 0" using assms(5) k by simp
  obtain s' where c: "createTrampoline qis frm (route_length (jumpTooFar frm to \<or> jt = Long) slot) [] s1 = Inr (0, s')"
    "kmem s' = kmem s1" "code s' = DisasmFailure" "cr0 s' = cr0 s1" "eflags_if s' = eflags_if s1" "lock_depth s' = lock_depth s1"
    by (rule createTrampoline_undecodable [where qis = qis and opcodes = "[]", OF bm q])
  have "routeFunctionInternal qis frm to True kr rv jt info org s = Inr (EINVAL, s')"
    using assms(2-4) c(1) by (auto simp: routeFunctionInternal_def routeWith_def l Let_def split: prod.splits)
  with c k show ?thesis by simp
qed

text \<open>Wrapping a function that is not routed yet, for any length disassembler.  The interface asks for one
  law: a length that is returned covers the requested minimum.\<close>

lemma routeFunction_wraps_by:
  fixes s :: "'a kpatcher_scheme" and frm to :: addr and jt :: jumpType
  defines "absolute \<equiv> jumpTooFar frm to \<or> jt = Long"
  assumes "route_ready s" and "temp_clear s" and "jt = Auto \<or> jt = Long"
    and "fst (readChain (kmem s) frm) = 0"
    and "slotFor jt absolute info s = (slot, s1)"
    and "qis (kmem s) frm (route_length absolute slot) = off"
    and "route_length absolute slot \<le> off"
    and "tempExecutableMemoryOff s + (off + LongJump) < TempExecutableMemorySize"
    and "T = tempExecutableMemory s + of_nat (tempExecutableMemoryOff s)"
    and "route_layout frm T off slot org"
  shows "\<exists>s'. routeFunctionInternal qis frm to True True rv jt info org s = Inr (T, s')
    \<and> fst (readChain (kmem s') frm) = to
    \<and> load_bytes (kmem s') T off = load_bytes (kmem s) frm off
    \<and> fst (readChain (kmem s') (T + of_nat off)) = frm + of_nat off
    \<and> (\<forall>o1. org = Some o1 \<longrightarrow> load64 (kmem s') o1 = T)
    \<and> (\<forall>x. off \<le> unat (x - frm) \<and> (slot \<noteq> 0 \<longrightarrow> 8 \<le> unat (x - slot)) \<and> off + LongJump \<le> unat (x - T)
          \<and> (\<forall>o1. org = Some o1 \<longrightarrow> 8 \<le> unat (x - o1)) \<longrightarrow> kmem s' x = kmem s x)
    \<and> cr0 s' = cr0 s \<and> eflags_if s' = eflags_if s \<and> lock_depth s' = lock_depth s"
proof -
  have pos: "0 < off" using assms(8) by (auto simp: route_length_def jump_consts split: if_splits)
  have "off + LongJump \<le> 2 ^ 64" using assms(9) by (simp add: TempExecutableMemorySize_def)
  note tramp = wrapped_mem_trampoline [OF assms(11) this]
  obtain s' where c: "routeFunctionInternal qis frm to True True rv jt info org s = Inr (T, s')"
    "kmem s' = wrapped_mem (kmem s) frm to absolute slot T off org"
    "cr0 s' = cr0 s" "eflags_if s' = eflags_if s" "lock_depth s' = lock_depth s"
    using routeWrapped_ok [where qis = qis and rv = rv,
        OF assms(2-5) assms(6,7) [unfolded absolute_def] pos assms(9-11)]
    unfolding absolute_def by metis
  have "fst (readChain (kmem s') frm) = to"
    unfolding c(2) wrapped_mem_def using assms(11)
    by (subst readChain_routed) (auto simp: absolute_def route_layout_def)
  moreover have "load64 (kmem s') o1 = T" if "org = Some o1" for o1
    using wrapped_mem_org assms(11) that c(2) by simp
  moreover have "kmem s' x = kmem s x" if "off \<le> unat (x - frm) \<and> (slot \<noteq> 0 \<longrightarrow> 8 \<le> unat (x - slot))
      \<and> off + LongJump \<le> unat (x - T) \<and> (\<forall>o1. org = Some o1 \<longrightarrow> 8 \<le> unat (x - o1))" for x
    unfolding c(2) using that assms(8) by (intro wrapped_mem_frame) auto
  ultimately show ?thesis using c tramp by auto
qed

locale length_disassembler =
  fixes qis :: "mem \<Rightarrow> addr \<Rightarrow> nat \<Rightarrow> nat"
  assumes qis_min: "qis m a n \<noteq> 0 \<Longrightarrow> n \<le> qis m a n"
begin

lemma wraps:
  fixes s :: "'a kpatcher_scheme" and frm to :: addr and jt :: jumpType
  defines "absolute \<equiv> jumpTooFar frm to \<or> jt = Long"
  assumes "route_ready s" and "temp_clear s" and "jt = Auto \<or> jt = Long"
    and "fst (readChain (kmem s) frm) = 0"
    and "slotFor jt absolute info s = (slot, s1)"
    and "off = qis (kmem s) frm (route_length absolute slot)" and "off \<noteq> 0"
    and "tempExecutableMemoryOff s + (off + LongJump) < TempExecutableMemorySize"
    and "T = tempExecutableMemory s + of_nat (tempExecutableMemoryOff s)"
    and "route_layout frm T off slot org"
  shows "\<exists>s'. routeFunctionInternal qis frm to True True rv jt info org s = Inr (T, s')
    \<and> fst (readChain (kmem s') frm) = to
    \<and> route_length absolute slot \<le> off
    \<and> load_bytes (kmem s') T off = load_bytes (kmem s) frm off
    \<and> fst (readChain (kmem s') (T + of_nat off)) = frm + of_nat off
    \<and> (\<forall>o1. org = Some o1 \<longrightarrow> load64 (kmem s') o1 = T)
    \<and> (\<forall>x. off \<le> unat (x - frm) \<and> (slot \<noteq> 0 \<longrightarrow> 8 \<le> unat (x - slot)) \<and> off + LongJump \<le> unat (x - T)
          \<and> (\<forall>o1. org = Some o1 \<longrightarrow> 8 \<le> unat (x - o1)) \<longrightarrow> kmem s' x = kmem s x)
    \<and> cr0 s' = cr0 s \<and> eflags_if s' = eflags_if s \<and> lock_depth s' = lock_depth s"
proof -
  have q: "qis (kmem s) frm (route_length absolute slot) = off" "route_length absolute slot \<le> off"
    using qis_min assms(7,8) by auto
  from routeFunction_wraps_by [where qis = qis, OF assms(2-5) assms(6) [unfolded absolute_def] q [unfolded absolute_def] assms(9-11), of rv] q(2)
  show ?thesis by blast
qed

end

text \<open>A small kernel: one function at \<open>0x1000\<close>, executable memory at \<open>0x100000\<close>.\<close>

definition demo_kp :: kpatcher where
  "demo_kp = \<lparr>kmem = (\<lambda>_. 0)(0x1000 := 0x55), cr0 = 0x80010033, eflags_if = True, lock_depth = 0,
     writeProtectionDisabled = False, interruptsDisabled = False, cr0_latch = (\<lambda>v. v),
     code = NoError, kinfos = [demo_info], kpatches = ev_empty, fpatch = replicate 16 0,
     tempExecutableMemory = 0x100000, tempExecutableMemoryOff = 0, kernelWriteLock = True, allocs = []\<rparr>"

lemma demo_kp_ready: "route_ready demo_kp"
  by (simp add: route_ready_def bare_metal_def demo_kp_def)

lemma of_nat_far:
  fixes a b :: addr
  assumes "i < 4096" and "4096 \<le> unat (b - a)"
  shows "a + of_nat i \<noteq> b"
proof
  assume "a + of_nat i = b"
  then have "unat (b - a) = i" using assms(1) by (auto simp: unat_of_nat_small64)
  with assms show False by simp
qed

lemma apart_far:
  assumes "unat (b - a) + k \<le> 2 ^ 64" and "n \<le> unat (b - a)"
  shows "apart a n b k"
proof -
  have "apart a (unat (b - a)) (a + of_nat (unat (b - a))) k" using assms(1) by (rule apart_next)
  then show ?thesis using apart_shift [of a "unat (b - a)" b k 0 n] assms(2) by simp
qed

lemma demo_kp_clear: "temp_clear demo_kp"
  using of_nat_far [of _ "0x1000" "0x100000"] by (auto simp: temp_clear_def demo_kp_def TempExecutableMemorySize_def)

text \<open>C4: the atomic store of an aligned route and the three separate patch writes of an unaligned one
  leave the same memory, for the short, the slotted and the long jump.\<close>

theorem routeWrite_equivalent:
  assumes "routePatches m frm to absolute slot p0 = (p, opcode, argument, disp)" and "length p0 = 16"
    and "slot \<noteq> 0 \<longrightarrow> apart frm 8 slot 8"
  shows "routeWrite frm absolute slot p opcode argument disp m = apply_patches opcode argument disp m"
  using assms routeWrite_small [of m frm to p0] routeWrite_long [of m frm to p0] routeWrite_medium [OF assms(1)]
  by (cases "slot = 0"; cases absolute) auto

theorem routeWrite_equivalent_witness:
  "\<exists>p opcode argument disp. routePatches (\<lambda>_. 0) 0x1000 0xFFFFFF8000000000 True 0 (replicate 16 0) = (p, opcode, argument, disp)
     \<and> routeWrite 0x1000 True 0 p opcode argument disp (\<lambda>_. 0) = apply_patches opcode argument disp (\<lambda>_. 0)"
proof -
  obtain p opcode argument disp where r:
    "routePatches (\<lambda>_. 0) 0x1000 0xFFFFFF8000000000 True 0 (replicate 16 0) = (p, opcode, argument, disp)"
    by (cases "routePatches (\<lambda>_. 0) 0x1000 0xFFFFFF8000000000 True 0 (replicate 16 0)")
  from routeWrite_equivalent [OF r] r show ?thesis by auto
qed

text \<open>C2: removing the patches at unload undoes a route.  A function routed without a wrapper, whatever
  the shape of the jump, leaves kernel memory exactly as it was before the route once \<open>deinit\<close> has
  run.\<close>

theorem routeFunction_reverts:
  fixes s :: "'a kpatcher_scheme"
  assumes "route_ready s" and "fst (readChain (kmem s) frm) = 0" and "jt = Auto \<or> jt = Long"
    and "ev_items (kpatches s) = []" and "kinfos s \<noteq> []"
  shows "\<exists>s'. routeFunctionInternal qis frm to False True True jt info None s = Inr (0, s')
    \<and> fst (readChain (kmem s') frm) = to \<and> kmem (deinit s') = kmem s"
proof -
  let ?abs = "jumpTooFar frm to \<or> jt = Long"
  obtain p opcode argument disp where rp: "routePatches (kmem s) frm to ?abs 0 (fpatch s) = (p, opcode, argument, disp)"
    by (cases "routePatches (kmem s) frm to ?abs 0 (fpatch s)")
  obtain s' where d: "routeCommit frm to ?abs 0 True True 0 s = Inr (0, s')"
    "kmem s' = routed_mem (kmem s) frm to ?abs 0"
    using routeCommit_ok [OF assms(1) _ rp, where kr = True and rv = True and tr = 0] by auto
  have "routeFunctionInternal qis frm to False True True jt info None s = Inr (0, s')"
    using assms(2,3) d(1) by (auto simp: routeFunctionInternal_def routeWith_def Let_def split: prod.splits)
  moreover have "fst (readChain (kmem s') frm) = to" unfolding d(2) by (subst readChain_routed) auto
  moreover have "kmem (deinit s') = kmem s" using routeCommit_deinit [OF assms(1) _ assms(4,5) d(1)] by simp
  ultimately show ?thesis by blast
qed

theorem routeFunction_reverts_witness:
  "\<exists>s'. routeFunctionInternal (\<lambda>m a n. 0) 0x1000 0xFFFFFF8000000000 False True True Auto None None demo_kp = Inr (0, s')
     \<and> fst (readChain (kmem s') 0x1000) = 0xFFFFFF8000000000 \<and> kmem (deinit s') 0x1000 = 0x55"
proof -
  have a: "fst (readChain (kmem demo_kp) 0x1000) = 0" "Auto = Auto \<or> Auto = Long"
    "ev_items (kpatches demo_kp) = []" "kinfos demo_kp \<noteq> []"
    by (code_simp, simp, simp_all add: demo_kp_def ev_empty_def)
  from routeFunction_reverts [OF demo_kp_ready a, of "\<lambda>m a n. 0" "0xFFFFFF8000000000" None]
  show ?thesis by (auto simp: demo_kp_def)
qed

text \<open>C3: routing a function that another plugin has routed with a long jump keeps the chain: the call
  returns the earlier plugin's function as the original, stores it in the caller's pointer, and
  redirects the function to the new hook; the earlier plugin's patches stay recorded once.\<close>

theorem routeFunction_chains:
  fixes s :: "'a kpatcher_scheme"
  assumes "route_ready s" and "readChain (kmem s) frm = (prev, Some Long)" and "prev \<noteq> 0" and "jt \<noteq> Short"
    and "apart o1 8 frm 14"
  shows "\<exists>s'. routeFunctionInternal qis frm to True kr rv jt info (Some o1) s = Inr (prev, s')
    \<and> fst (readChain (kmem s') frm) = to \<and> load64 (kmem s') o1 = prev
    \<and> ev_items (kpatches s') = ev_items (kpatches s)"
proof -
  obtain s' where c: "routeFunctionInternal qis frm to True kr rv jt info (Some o1) s = Inr (prev, s')"
    "kmem s' = routed_mem (store_org (Some o1) prev (kmem s)) frm to (jumpTooFar frm to \<or> jt = Long) 0"
    "ev_items (kpatches s') = ev_items (kpatches s)"
    using routeChained [OF assms(1-4), of "Some o1"] assms(5) by (metis option.inject)
  have "fst (readChain (kmem s') frm) = to" unfolding c(2) by (subst readChain_routed) auto
  moreover have "load_bytes (kmem s') o1 8 = load_bytes (store64 (kmem s) o1 prev) o1 8"
    unfolding c(2) using assms(5) by (subst routed_mem_load) (simp_all add: store_org_def)
  then have "load64 (kmem s') o1 = prev" using load_store64 [of "kmem s" o1 prev] by (simp add: load64_def)
  ultimately show ?thesis using c by blast
qed

theorem routeFunction_chains_witness:
  "\<exists>s'. routeFunctionInternal (\<lambda>m a n. 0) 0x1000 0xFFFFFF8000000000 True True True Long None (Some 0x3000)
        (demo_kp\<lparr>kmem := store_bytes (\<lambda>_. 0) 0x1000 (long_bytes 0x5000)\<rparr>) = Inr (0x5000, s')
     \<and> fst (readChain (kmem s') 0x1000) = 0xFFFFFF8000000000"
proof -
  let ?s = "demo_kp\<lparr>kmem := store_bytes (\<lambda>_. 0) 0x1000 (long_bytes 0x5000)\<rparr>"
  have r: "route_ready ?s" using demo_kp_ready by (simp add: route_ready_def)
  have c: "readChain (kmem ?s) 0x1000 = (0x5000, Some Long)" by (simp add: readChain_long)
  have ap: "apart 0x3000 8 (0x1000 :: addr) 14" by (rule apart_sym, rule apart_far) simp_all
  from routeFunction_chains [OF r c _ _ ap, of Long "\<lambda>m a n. 0" "0xFFFFFF8000000000" True True None] show ?thesis by auto
qed

end
