(* ===== verification/Kern_Lookup.thy ===== *)
theory Kern_Lookup
  imports Kern_Patcher
begin

text \<open>
  Find/replace patches over a whole image: \<open>KernelPatcher::applyLookupPatch\<close> of
  \<^verbatim>\<open>Lilu/Lilu/Sources/kern_patcher.cpp\<close>, on 64-bit pointers as the source computes them.  The two
  nested loops are a terminating scan and a \<open>partial_function\<close>: with a count of zero the outer loop
  need not end.
\<close>

section \<open>Kext descriptors and lookup patches\<close>

record kextinfo =
  ki_id :: string
  ki_pathNum :: nat
  ki_loaded :: bool
  ki_reloadable :: bool
  ki_disabled :: bool
  ki_fsonly :: bool
  ki_fsfallback :: bool
  loadIndex :: nat

definition Unloaded :: nat where "Unloaded = 0"
definition KernelID :: nat where "KernelID = 0"

record lookupPatch =
  lp_kext :: "kextinfo option"
  lp_find :: "byte list"
  lp_replace :: "byte list"
  lp_size :: nat
  lp_count :: nat

section \<open>The loops\<close>

definition lookupHit :: "lookupPatch \<Rightarrow> mem \<Rightarrow> addr \<Rightarrow> bool" where
  "lookupHit patch m cur \<longleftrightarrow> load_bytes m cur (lp_size patch) = take (lp_size patch) (lp_find patch)"

function lookupScan :: "lookupPatch \<Rightarrow> mem \<Rightarrow> addr \<Rightarrow> addr \<Rightarrow> addr" where
  "lookupScan patch m cur ending =
     (if cur < ending \<and> \<not> lookupHit patch m cur then lookupScan patch m (cur + 1) ending else cur)"
  by pat_completeness auto

lemma step_closer:
  fixes cur ending :: addr
  assumes "cur < ending"
  shows "unat (ending - (cur + 1)) = unat (ending - cur) - 1" "unat (cur + 1) = unat cur + 1" "0 < unat (ending - cur)"
proof -
  have lt: "unat cur < unat ending" using assms by (simp add: word_less_nat_alt)
  show u: "unat (cur + 1) = unat cur + 1"
    using lt unsigned_less [of ending, where ?'a = nat] by (subst unat_add_small64) auto
  have "cur \<le> ending" "cur + 1 \<le> ending" using lt u by (simp_all add: word_le_nat_alt)
  then show "unat (ending - (cur + 1)) = unat (ending - cur) - 1" "0 < unat (ending - cur)"
    using lt u by (simp_all add: unat_sub64)
qed

termination lookupScan
  by (relation "measure (\<lambda>(patch, m, cur, ending). unat (ending - cur))") (auto simp: step_closer)

declare lookupScan.simps [simp del]

partial_function (option) lookupLoop ::
  "lookupPatch \<Rightarrow> addr \<Rightarrow> nat \<Rightarrow> addr \<Rightarrow> nat \<Rightarrow> mem \<Rightarrow> (nat \<times> mem) option" where
  "lookupLoop patch ending i cur changes m =
     (if cur < ending \<and> (i < lp_count patch \<or> lp_count patch = 0) then
        (let cur' = lookupScan patch m cur ending
         in if cur' \<noteq> ending then
              lookupLoop patch ending (Suc i) cur' (Suc changes)
                (store_bytes m cur' (take (lp_size patch) (lp_replace patch)))
            else lookupLoop patch ending (Suc i) cur' changes m)
      else Some (changes, m))"

text \<open>The searched range: from the image or the requested start, up to the image or the requested end
  less the size of the pattern.\<close>

definition lookupRange :: "machinfo \<Rightarrow> lookupPatch \<Rightarrow> addr \<Rightarrow> u64 \<Rightarrow> addr \<times> addr" where
  "lookupRange info patch startingAddress maxSize =
     (let (kextAddress, sz) = getRunningPosition info;
          kextSize = (if lp_kext patch = None then (- 1) - kextAddress else sz);
          cur = (if kextAddress < startingAddress then startingAddress else kextAddress);
          end0 = kextAddress + kextSize;
          end1 = (if maxSize > 0 \<and> end0 > startingAddress + maxSize then startingAddress + maxSize else end0)
      in (cur, end1 - of_nat (lp_size patch)))"

definition applyLookupPatch ::
  "lookupPatch option \<Rightarrow> addr \<Rightarrow> u64 \<Rightarrow> 'a kpatcher_scheme \<Rightarrow> 'a kpatcher_scheme option" where
  "applyLookupPatch patch0 startingAddress maxSize s =
     (case patch0 of
        None \<Rightarrow> Some (s\<lparr>code := MemoryIssue\<rparr>)
      | Some patch \<Rightarrow>
          if (case lp_kext patch of None \<Rightarrow> False | Some k \<Rightarrow> loadIndex k = Unloaded)
          then Some (s\<lparr>code := MemoryIssue\<rparr>)
          else
            let idx = (case lp_kext patch of None \<Rightarrow> KernelID | Some k \<Rightarrow> loadIndex k);
                (cur, ending) = lookupRange (kinfos s ! idx) patch startingAddress maxSize;
                (w, s1) = setKernelWriting True (kernelWriteLock s) s
            in if \<not> w then Some (s1\<lparr>code := MemoryProtection\<rparr>)
               else
                 case lookupLoop patch ending 0 cur 0 (kmem s1) of
                   None \<Rightarrow> None
                 | Some (changes, m) \<Rightarrow>
                     let s2 = s1\<lparr>kmem := m\<rparr>;
                         (w', s3) = setKernelWriting False (kernelWriteLock s2) s2
                     in if \<not> w' then Some (s3\<lparr>code := MemoryProtection\<rparr>)
                        else if changes \<noteq> lp_count patch then Some (s3\<lparr>code := MemoryIssue\<rparr>)
                        else Some s3)"

section \<open>The scan\<close>

lemma lookupScan_props:
  "cur \<le> ending \<Longrightarrow> cur \<le> lookupScan patch m cur ending \<and> lookupScan patch m cur ending \<le> ending
     \<and> (lookupScan patch m cur ending \<noteq> ending \<longrightarrow> lookupHit patch m (lookupScan patch m cur ending))
     \<and> (\<forall>a. cur \<le> a \<and> a < lookupScan patch m cur ending \<longrightarrow> \<not> lookupHit patch m a)"
proof (induction patch m cur ending rule: lookupScan.induct)
  case (1 patch m cur ending)
  show ?case
  proof (cases "cur < ending \<and> \<not> lookupHit patch m cur")
    case True
    have u: "unat (cur + 1) = unat cur + 1" using True by (intro step_closer(2) [of cur ending]) simp
    then have le: "cur + 1 \<le> ending" "cur \<le> cur + 1" using True by (simp_all add: word_le_nat_alt word_less_nat_alt)
    have e: "lookupScan patch m cur ending = lookupScan patch m (cur + 1) ending"
      using True by (subst lookupScan.simps) simp
    have split: "a = cur \<or> cur + 1 \<le> a" if "cur \<le> a" for a
      using that u by (simp add: word_unat_eq_iff word_le_nat_alt) arith
    show ?thesis unfolding e using "1.IH" [OF True le(1)] le(2) True split by (auto intro: order_trans)
  next
    case False
    then have e: "lookupScan patch m cur ending = cur" by (subst lookupScan.simps) auto
    show ?thesis unfolding e using False "1.prems" by auto
  qed
qed

section \<open>The loop\<close>

text \<open>A patch whose arrays have the length it claims.\<close>

definition lookup_ok :: "lookupPatch \<Rightarrow> bool" where
  "lookup_ok patch \<longleftrightarrow> lp_size patch \<le> length (lp_find patch) \<and> lp_size patch \<le> length (lp_replace patch)
     \<and> lp_size patch < 2 ^ 64"

text \<open>The replacement differs from the pattern.\<close>

definition lookup_changes :: "lookupPatch \<Rightarrow> bool" where
  "lookup_changes patch \<longleftrightarrow> take (lp_size patch) (lp_replace patch) \<noteq> take (lp_size patch) (lp_find patch)"

lemma replaced_no_hit:
  assumes "lookup_ok patch" and "lookup_changes patch"
  shows "\<not> lookupHit patch (store_bytes m a (take (lp_size patch) (lp_replace patch))) a"
  using assms load_store_same [of "take (lp_size patch) (lp_replace patch)" "lp_size patch" m a]
  by (simp add: lookupHit_def lookup_ok_def lookup_changes_def)

text \<open>Memory outside every place the loop may write.\<close>

definition beyond :: "lookupPatch \<Rightarrow> addr \<Rightarrow> addr \<Rightarrow> addr \<Rightarrow> bool" where
  "beyond patch cur ending x \<longleftrightarrow> (\<forall>a. cur \<le> a \<and> a < ending \<longrightarrow> lp_size patch \<le> unat (x - a))"

lemma beyond_mono: "beyond patch cur ending x \<Longrightarrow> cur \<le> cur' \<Longrightarrow> beyond patch cur' ending x"
  by (auto simp: beyond_def)

lemma beyond_store:
  assumes "lookup_ok patch" and "beyond patch cur ending x" and "cur \<le> a" and "a < ending"
  shows "store_bytes m a (take (lp_size patch) (lp_replace patch)) x = m x"
  using assms by (auto simp: beyond_def lookup_ok_def store_bytes_other)

text \<open>What remains to be done: for a counted patch the rounds left, otherwise the distance to the end,
  counting a match at the current position.\<close>

definition lookup_left :: "lookupPatch \<Rightarrow> nat \<Rightarrow> addr \<Rightarrow> addr \<Rightarrow> mem \<Rightarrow> nat" where
  "lookup_left patch i cur ending m =
     (if lp_count patch > 0 then lp_count patch - i
      else 2 * unat (ending - cur) + of_bool (lookupHit patch m cur))"

lemma lookup_left_step:
  assumes "lookup_ok patch" and "lp_count patch > 0 \<or> lookup_changes patch"
    and "cur < ending" and "i < lp_count patch \<or> lp_count patch = 0" and "cur' = lookupScan patch m cur ending"
    and "m' = (if cur' \<noteq> ending then store_bytes m cur' (take (lp_size patch) (lp_replace patch)) else m)"
  shows "lookup_left patch (Suc i) cur' ending m' < lookup_left patch i cur ending m"
proof (cases "lp_count patch > 0")
  case True
  with assms(4) show ?thesis by (auto simp: lookup_left_def)
next
  case False
  have sc: "cur \<le> cur'" "cur' \<le> ending" "cur' \<noteq> ending \<longrightarrow> lookupHit patch m cur'"
    using lookupScan_props [of cur ending patch m] assms(3,5) by auto
  have d: "unat (ending - cur') + unat cur' = unat ending" "unat (ending - cur) + unat cur = unat ending"
    using sc(2) assms(3) by (simp_all add: unat_sub64 word_le_nat_alt word_less_nat_alt)
  have nh: "cur' \<noteq> ending \<Longrightarrow> \<not> lookupHit patch m' cur'"
    using replaced_no_hit [OF assms(1)] assms(2,6) False by simp
  show ?thesis
  proof (cases "cur' = cur")
    case True
    with sc(3) assms(3) nh False show ?thesis by (simp add: lookup_left_def)
  next
    case ne: False
    then have "unat cur < unat cur'" using sc(1) by (simp add: word_unat_eq_iff word_le_nat_alt)
    with d False show ?thesis by (simp add: lookup_left_def)
  qed
qed

lemma lookupLoop_total:
  assumes "lookup_ok patch" and "lp_count patch > 0 \<or> lookup_changes patch"
  shows "\<exists>c m'. lookupLoop patch ending i cur changes m = Some (c, m')
    \<and> changes \<le> c \<and> (\<forall>x. beyond patch cur ending x \<longrightarrow> m' x = m x)"
proof (induction "lookup_left patch i cur ending m" arbitrary: i cur changes m rule: less_induct)
  case less
  show ?case
  proof (cases "cur < ending \<and> (i < lp_count patch \<or> lp_count patch = 0)")
    case False
    then show ?thesis by (subst lookupLoop.simps) auto
  next
    case True
    let ?c = "lookupScan patch m cur ending"
    let ?m = "if ?c \<noteq> ending then store_bytes m ?c (take (lp_size patch) (lp_replace patch)) else m"
    have sc: "cur \<le> ?c" "?c \<le> ending" using lookupScan_props [of cur ending patch m] True by auto
    have lt: "lookup_left patch (Suc i) ?c ending ?m < lookup_left patch i cur ending m"
      using lookup_left_step [OF assms] True by simp
    let ?n = "if ?c \<noteq> ending then Suc changes else changes"
    from less.hyps [OF lt, of ?n] obtain c m' where *: "lookupLoop patch ending (Suc i) ?c ?n ?m = Some (c, m')"
      "?n \<le> c" "\<forall>x. beyond patch ?c ending x \<longrightarrow> m' x = ?m x" by blast
    have "lookupLoop patch ending i cur changes m = Some (c, m')"
      using True *(1) by (subst lookupLoop.simps) (auto simp: Let_def split: if_splits)
    moreover have "m' x = m x" if "beyond patch cur ending x" for x
    proof -
      have "m' x = ?m x" using *(3) beyond_mono [OF that sc(1)] by blast
      moreover have "?c \<noteq> ending \<Longrightarrow> ?c < ending" using sc(2) by (simp add: order_less_le)
      ultimately show ?thesis using beyond_store [OF assms(1) that sc(1)] by auto
    qed
    ultimately show ?thesis using *(2) by (auto split: if_splits)
  qed
qed

lemma lookupLoop_one:
  assumes "lp_count patch = 1"
  shows "lookupLoop patch ending 0 cur 0 m =
    (let c = lookupScan patch m cur ending
     in if cur < ending \<and> c \<noteq> ending then Some (1, store_bytes m c (take (lp_size patch) (lp_replace patch)))
        else Some (0, m))"
  using assms by (subst lookupLoop.simps, subst lookupLoop.simps) (simp add: Let_def lookupLoop.simps)

section \<open>Properties\<close>

definition patch_index :: "lookupPatch \<Rightarrow> nat" where
  "patch_index patch = (case lp_kext patch of None \<Rightarrow> KernelID | Some k \<Rightarrow> loadIndex k)"

definition patch_loaded :: "lookupPatch \<Rightarrow> bool" where
  "patch_loaded patch \<longleftrightarrow> (case lp_kext patch of None \<Rightarrow> True | Some k \<Rightarrow> loadIndex k \<noteq> Unloaded)"

lemma applyLookupPatch_window:
  fixes s :: "'a kpatcher_scheme"
  assumes "bare_metal s" and "patch_loaded patch"
    and "lookupRange (kinfos s ! patch_index patch) patch st mx = (cur, ending)"
    and "lookupLoop patch ending 0 cur 0 (kmem s) = Some (changes, m)"
  shows "applyLookupPatch (Some patch) st mx s =
    Some ((kw.edit (kernelWriteLock s) (\<lambda>_. m) s)\<lparr>code := if changes \<noteq> lp_count patch then MemoryIssue else code s\<rparr>)"
proof -
  let ?l = "kernelWriteLock s"
  obtain t where t: "setKernelWriting True ?l s = (True, t)"
    using kw.enter_ok [OF assms(1), of ?l] by (cases "setKernelWriting True ?l s") auto
  have tf: "kernelWriteLock t = ?l" "kmem t = kmem s"
    using skw_kpatcher(1) [of True ?l s] enter_kmem [of True ?l s] t by simp_all
  obtain u where u: "setKernelWriting False ?l (t\<lparr>kmem := m\<rparr>) = (True, u)"
    using kw.leave_ok [OF assms(1), of ?l m] t by (cases "setKernelWriting False ?l (t\<lparr>kmem := m\<rparr>)") auto
  have e: "kw.edit ?l (\<lambda>_. m) s = u" by (simp add: kw.edit_def t u)
  have "code u = code s" using same_cpu_kpatcher(2) [OF kw.edit_same [OF assms(1)], of ?l "\<lambda>_. m"] by (simp add: e)
  moreover have "u\<lparr>code := code u\<rparr> = u" by simp
  ultimately show ?thesis
    using assms(2-4) tf t u
    by (auto simp: applyLookupPatch_def patch_loaded_def patch_index_def e Let_def split: option.splits)
qed

text \<open>A lookup patch always comes to an end, unless it has no count and replaces the pattern by
  itself; it writes only over places of the searched range, keeps CR0, interrupts and lock, and an
  error code is set exactly when the number of replacements is not the requested count.\<close>

theorem applyLookupPatch_total:
  fixes s :: "'a kpatcher_scheme"
  assumes "bare_metal s" and "patch_loaded patch" and "lookup_ok patch"
    and "lp_count patch > 0 \<or> lookup_changes patch"
    and "lookupRange (kinfos s ! patch_index patch) patch st mx = (cur, ending)"
  shows "\<exists>s' changes. applyLookupPatch (Some patch) st mx s = Some s'
    \<and> lookupLoop patch ending 0 cur 0 (kmem s) = Some (changes, kmem s')
    \<and> code s' = (if changes \<noteq> lp_count patch then MemoryIssue else code s)
    \<and> (\<forall>x. beyond patch cur ending x \<longrightarrow> kmem s' x = kmem s x)
    \<and> cr0 s' = cr0 s \<and> eflags_if s' = eflags_if s \<and> lock_depth s' = lock_depth s"
proof -
  obtain changes m where l: "lookupLoop patch ending 0 cur 0 (kmem s) = Some (changes, m)"
    "\<forall>x. beyond patch cur ending x \<longrightarrow> m x = kmem s x"
    using lookupLoop_total [OF assms(3,4), of ending 0 cur 0 "kmem s"] by blast
  note a = applyLookupPatch_window [OF assms(1,2,5) l(1)]
  note e = kw.edit_same [OF assms(1), of "kernelWriteLock s" "\<lambda>_. m"]
  show ?thesis
    unfolding a using l same_cpu_fields(1-3) [OF e] by (auto simp: kw.edit_memory)
qed

text \<open>C26: a lookup patch with a count of one rewrites exactly the first match that starts before the end
  of its range and leaves the error code alone; without such a match it changes nothing and reports
  an error.\<close>

theorem applyLookupPatch_first:
  fixes s :: "'a kpatcher_scheme"
  assumes "bare_metal s" and "patch_loaded patch" and "lp_count patch = 1"
    and "lookupRange (kinfos s ! patch_index patch) patch st mx = (cur, ending)"
  shows "\<exists>s'. applyLookupPatch (Some patch) st mx s = Some s'
    \<and> (\<forall>a. cur \<le> a \<and> a < ending \<and> lookupHit patch (kmem s) a \<and> (\<forall>b. cur \<le> b \<and> b < a \<longrightarrow> \<not> lookupHit patch (kmem s) b)
          \<longrightarrow> kmem s' = store_bytes (kmem s) a (take (lp_size patch) (lp_replace patch)) \<and> code s' = code s)
    \<and> ((\<forall>a. cur \<le> a \<and> a < ending \<longrightarrow> \<not> lookupHit patch (kmem s) a)
          \<longrightarrow> kmem s' = kmem s \<and> code s' = MemoryIssue)"
proof -
  let ?c = "lookupScan patch (kmem s) cur ending"
  note one = lookupLoop_one [OF assms(3), of ending cur "kmem s", unfolded Let_def]
  have hit: "cur < ending \<and> ?c = a"
    if "cur \<le> a" "a < ending" "lookupHit patch (kmem s) a" "\<forall>b. cur \<le> b \<and> b < a \<longrightarrow> \<not> lookupHit patch (kmem s) b" for a
  proof -
    have "cur < ending" using that(1,2) by (rule order_le_less_trans)
    note p = lookupScan_props [OF order_less_imp_le [OF this], of patch "kmem s"]
    have "\<not> a < ?c" using p that by blast
    moreover have "\<not> ?c < a" using p that by (metis order_less_trans less_irrefl)
    ultimately show ?thesis using \<open>cur < ending\<close> by simp
  qed
  have miss: "\<not> (cur < ending \<and> ?c \<noteq> ending)" if "\<forall>a. cur \<le> a \<and> a < ending \<longrightarrow> \<not> lookupHit patch (kmem s) a"
    using that lookupScan_props [of cur ending patch "kmem s"] by (auto simp: order_less_le)
  show ?thesis
  proof (cases "cur < ending \<and> ?c \<noteq> ending")
    case True
    note a = applyLookupPatch_window [OF assms(1,2,4) one [unfolded if_P [OF True]]]
    show ?thesis unfolding a using hit miss True assms(3) by (auto simp: kw.edit_memory)
  next
    case False
    note a = applyLookupPatch_window [OF assms(1,2,4) one [unfolded if_not_P [OF False]]]
    show ?thesis unfolding a using hit False assms(3) by (auto simp: kw.edit_memory)
  qed
qed

text \<open>C27: a match at the very end of an image is never patched.  When the only match of the pattern lies
  in the last \<open>lp_size\<close> bytes of the kext, the patch is reported as failed and memory stays as it was,
  although the pattern is there.\<close>

theorem applyLookupPatch_misses_last:
  fixes s :: "'a kpatcher_scheme"
  assumes "bare_metal s" and "lp_kext patch = Some k" and "loadIndex k \<noteq> Unloaded" and "lp_count patch = 1"
    and "getRunningPosition (kinfos s ! loadIndex k) = (base, sz)"
    and "lookupHit patch (kmem s) (base + sz - of_nat (lp_size patch))"
    and "\<forall>a. base \<le> a \<and> a < base + sz - of_nat (lp_size patch) \<longrightarrow> \<not> lookupHit patch (kmem s) a"
  shows "\<exists>s'. applyLookupPatch (Some patch) 0 0 s = Some s' \<and> kmem s' = kmem s \<and> code s' = MemoryIssue"
proof -
  have r: "lookupRange (kinfos s ! patch_index patch) patch 0 0 = (base, base + sz - of_nat (lp_size patch))"
    using assms(2,5) by (simp add: lookupRange_def patch_index_def)
  have l: "patch_loaded patch" using assms(2,3) by (simp add: patch_loaded_def)
  let ?c = "lookupScan patch (kmem s) base (base + sz - of_nat (lp_size patch))"
  have "\<not> (base < base + sz - of_nat (lp_size patch) \<and> ?c \<noteq> base + sz - of_nat (lp_size patch))"
    using assms(7) lookupScan_props [of base "base + sz - of_nat (lp_size patch)" patch "kmem s"]
    by (auto simp: order_less_le)
  then have "lookupLoop patch (base + sz - of_nat (lp_size patch)) 0 base 0 (kmem s) = Some (0, kmem s)"
    using lookupLoop_one [OF assms(4)] by (auto simp: Let_def)
  from applyLookupPatch_window [OF assms(1) l r this] assms(4) show ?thesis by (simp add: kw.edit_memory)
qed

text \<open>A kext of eight bytes at \<open>0x1000\<close> whose last two bytes are the pattern.\<close>

definition demo_kext :: kextinfo where
  "demo_kext = \<lparr>ki_id = ''com.apple.demo'', ki_pathNum = 0, ki_loaded = True, ki_reloadable = False, ki_disabled = False,
     ki_fsonly = False, ki_fsfallback = False, loadIndex = 1\<rparr>"

definition demo_lookup :: lookupPatch where
  "demo_lookup = \<lparr>lp_kext = Some demo_kext, lp_find = [0x48, 0x83], lp_replace = [0x90, 0x90], lp_size = 2, lp_count = 1\<rparr>"

definition demo_image :: "byte list \<Rightarrow> kpatcher" where
  "demo_image bs = demo_kp\<lparr>kmem := store_bytes (\<lambda>_. 0) 0x1000 bs,
     kinfos := [demo_info, (new_machinfo False (Some ''com.apple.demo''))\<lparr>running_mh := 0x1000, memory_size := 8\<rparr>]\<rparr>"

lemma demo_image_facts:
  "bare_metal (demo_image bs)" "patch_loaded demo_lookup" "lookup_ok demo_lookup" "lp_count demo_lookup = 1"
  "lookupRange (kinfos (demo_image bs) ! patch_index demo_lookup) demo_lookup 0 0 = (0x1000, 0x1006)"
  by (simp_all add: demo_image_def demo_kp_def bare_metal_def demo_lookup_def demo_kext_def patch_loaded_def
      lookup_ok_def lookupRange_def patch_index_def getRunningPosition_def new_machinfo_def Unloaded_def Let_def)

theorem applyLookupPatch_total_witness:
  "\<exists>s' changes. applyLookupPatch (Some demo_lookup) 0 0 (demo_image [0x48, 0x83]) = Some s'
     \<and> lookupLoop demo_lookup 0x1006 0 0x1000 0 (kmem (demo_image [0x48, 0x83])) = Some (changes, kmem s')"
  using applyLookupPatch_total [OF demo_image_facts(1,2,3) _ demo_image_facts(5), of "[0x48, 0x83]"]
    demo_image_facts(4) by auto

lemma words_below:
  fixes a :: addr
  assumes "0x1000 \<le> a" and "a < 0x1000 + of_nat n" and "n \<le> 16"
  shows "\<exists>i < n. a = 0x1000 + of_nat i"
proof (intro exI conjI)
  have u: "unat (0x1000 + of_nat n :: addr) = 0x1000 + n"
    using assms(3) by (subst unat_add_small64) (auto simp: unat_of_nat_small64)
  then show "unat a - 0x1000 < n" using assms(1,2) by (simp add: word_le_nat_alt word_less_nat_alt)
  have "unat (a - 0x1000) = unat a - 0x1000" using assms(1) by (simp add: unat_sub64)
  then show "a = 0x1000 + of_nat (unat a - 0x1000)"
    by (metis add.commute diff_add_cancel of_nat_unat ucast_id)
qed

theorem applyLookupPatch_first_witness:
  "\<exists>s'. applyLookupPatch (Some demo_lookup) 0 0 (demo_image [0x48, 0x83]) = Some s'
     \<and> kmem s' 0x1000 = 0x90 \<and> code s' = NoError"
proof -
  have h: "lookupHit demo_lookup (kmem (demo_image [0x48, 0x83])) 0x1000" by code_simp
  from applyLookupPatch_first [OF demo_image_facts(1,2,4,5), of "[0x48, 0x83]"] obtain s' where
    s': "applyLookupPatch (Some demo_lookup) 0 0 (demo_image [0x48, 0x83]) = Some s'"
    "kmem s' = store_bytes (kmem (demo_image [0x48, 0x83])) 0x1000 (take (lp_size demo_lookup) (lp_replace demo_lookup))"
    "code s' = code (demo_image [0x48, 0x83])" using h by fastforce
  then show ?thesis by (simp add: demo_lookup_def demo_image_def demo_kp_def store_bytes_def)
qed

theorem applyLookupPatch_misses_last_witness:
  "lookupHit demo_lookup (kmem (demo_image [0, 0, 0, 0, 0, 0, 0x48, 0x83])) 0x1006
   \<and> (\<exists>s'. applyLookupPatch (Some demo_lookup) 0 0 (demo_image [0, 0, 0, 0, 0, 0, 0x48, 0x83]) = Some s'
        \<and> kmem s' 0x1006 = 0x48 \<and> code s' = MemoryIssue)"
proof -
  let ?s = "demo_image [0, 0, 0, 0, 0, 0, 0x48, 0x83]"
  have h: "lookupHit demo_lookup (kmem ?s) 0x1006" by code_simp
  have n: "\<not> lookupHit demo_lookup (kmem ?s) (0x1000 + of_nat i)" if "i < 6" for i
  proof -
    have "list_all (\<lambda>i. \<not> lookupHit demo_lookup (kmem ?s) (0x1000 + of_nat i)) [0..<6]" by code_simp
    then show ?thesis using that by (simp add: list_all_iff)
  qed
  have pos: "getRunningPosition (kinfos ?s ! loadIndex demo_kext) = (0x1000, 8)"
    "lp_kext demo_lookup = Some demo_kext" "loadIndex demo_kext \<noteq> Unloaded" "lp_size demo_lookup = 2"
    by (simp_all add: demo_image_def demo_kext_def demo_lookup_def getRunningPosition_def new_machinfo_def Unloaded_def)
  have "\<forall>a. 0x1000 \<le> a \<and> a < 0x1000 + 8 - of_nat (lp_size demo_lookup) \<longrightarrow> \<not> lookupHit demo_lookup (kmem ?s) a"
    using n words_below [of _ 6] pos(4) by auto
  from applyLookupPatch_misses_last [OF demo_image_facts(1) pos(2,3) demo_image_facts(4) pos(1) _ this] h pos(4)
  obtain s' where "applyLookupPatch (Some demo_lookup) 0 0 ?s = Some s'" "kmem s' = kmem ?s" "code s' = MemoryIssue" by auto
  with h show ?thesis by (auto simp: demo_image_def store_bytes_def)
qed

end
