(* ===== verification/Hde64.thy ===== *)
theory Hde64
  imports Kern_Patcher
begin

text \<open>
  The length disassembler of \<^verbatim>\<open>Lilu/hde/hde64.c\<close> with its table from \<^verbatim>\<open>Lilu/hde/table64.h\<close>, and
  \<open>Disassembler::quickInstructionSize\<close> of \<^verbatim>\<open>Lilu/Lilu/Sources/kern_disasm.cpp\<close> on top of it.  The
  instruction bytes are a reader \<open>rd\<close> of offsets from the start of the instruction, the pointer \<open>p\<close> is
  such an offset, and the decoder goes through its stages in the order of the source: prefixes, REX,
  opcode, ModRM with SIB and displacement, immediates, length.
\<close>

section \<open>The table\<close>

definition hde64_table :: "byte list" where
  "hde64_table =
    [0xa5, 0xaa, 0xa5, 0xb8, 0xa5, 0xaa, 0xa5, 0xaa, 0xa5, 0xb8, 0xa5, 0xb8, 0xa5, 0xb8, 0xa5, 0xb8,
     0xc0, 0xc0, 0xc0, 0xc0, 0xc0, 0xc0, 0xc0, 0xc0, 0xac, 0xc0, 0xcc, 0xc0, 0xa1, 0xa1, 0xa1, 0xa1,
     0xb1, 0xa5, 0xa5, 0xa6, 0xc0, 0xc0, 0xd7, 0xda, 0xe0, 0xc0, 0xe4, 0xc0, 0xea, 0xea, 0xe0, 0xe0,
     0x98, 0xc8, 0xee, 0xf1, 0xa5, 0xd3, 0xa5, 0xa5, 0xa1, 0xea, 0x9e, 0xc0, 0xc0, 0xc2, 0xc0, 0xe6,
     3, 0x7f, 0x11, 0x7f, 1, 0x7f, 1, 0x3f, 1, 1, 0xab, 0x8b, 0x90, 0x64, 0x5b, 0x5b,
     0x5b, 0x5b, 0x5b, 0x92, 0x5b, 0x5b, 0x76, 0x90, 0x92, 0x92, 0x5b, 0x5b, 0x5b, 0x5b, 0x5b, 0x5b,
     0x5b, 0x5b, 0x5b, 0x5b, 0x5b, 0x5b, 0x6a, 0x73, 0x90, 0x5b, 0x52, 0x52, 0x52, 0x52, 0x5b, 0x5b,
     0x5b, 0x5b, 0x77, 0x7c, 0x77, 0x85, 0x5b, 0x5b, 0x70, 0x5b, 0x7a, 0xaf, 0x76, 0x76, 0x5b, 0x5b,
     0x5b, 0x5b, 0x5b, 0x5b, 0x5b, 0x5b, 0x5b, 0x5b, 0x5b, 0x86, 1, 3, 1, 4, 3, 0xd5,
     3, 0xd5, 3, 0xcc, 1, 0xbc, 3, 0xf0, 3, 3, 4, 0, 0x50, 0x50, 0x50, 0x50,
     0xff, 0x20, 0x20, 0x20, 0x20, 1, 1, 1, 1, 0xc4, 2, 0x10, 0xff, 0xff, 0xff, 1,
     0, 3, 0x11, 0xff, 3, 0xc4, 0xc6, 0xc8, 2, 0x10, 0, 0xff, 0xcc, 1, 1, 1,
     0, 0, 0, 0, 1, 1, 3, 1, 0xff, 0xff, 0xc0, 0xc2, 0x10, 0x11, 2, 3,
     1, 1, 1, 0xff, 0xff, 0xff, 0, 0, 0, 0xff, 0, 0, 0xff, 0xff, 0xff, 0xff,
     0x10, 0x10, 0x10, 0x10, 2, 0x10, 0, 0, 0xc6, 0xc8, 2, 2, 2, 2, 6, 0,
     4, 0, 2, 0xff, 0, 0xc0, 0xc2, 1, 1, 3, 3, 3, 0xca, 0x40, 0, 0x0a,
     0, 4, 0, 0, 0, 0, 0x7f, 0, 0x33, 1, 0, 0, 0, 0, 0, 0,
     0xff, 0xbf, 0xff, 0xff, 0, 0, 0, 0, 7, 0, 0, 0xff, 0, 0, 0, 0,
     0, 0, 0, 0, 0, 0, 0, 0, 0, 0, 0xff, 0xff, 0, 0, 0, 0xbf,
     0, 0, 0, 0, 0, 0, 0, 0, 0x7f, 0, 0, 0xff, 0x40, 0x40, 0x40, 0x40,
     0x41, 0x49, 0x40, 0x40, 0x40, 0x40, 0x4c, 0x42, 0x40, 0x40, 0x40, 0x40, 0x40, 0x40, 0x40, 0x40,
     0x4f, 0x44, 0x53, 0x40, 0x40, 0x40, 0x44, 0x57, 0x43, 0x5c, 0x40, 0x60, 0x40, 0x40, 0x40, 0x40,
     0x40, 0x40, 0x40, 0x40, 0x40, 0x40, 0x40, 0x40, 0x40, 0x40, 0x64, 0x66, 0x6e, 0x6b, 0x40, 0x40,
     0x6a, 0x46, 0x40, 0x40, 0x44, 0x46, 0x40, 0x40, 0x5b, 0x44, 0x40, 0x40, 0, 0, 0, 0,
     6, 6, 6, 6, 1, 6, 6, 2, 6, 6, 0, 6, 0, 0x0a, 0x0a, 0,
     0, 0, 2, 7, 7, 6, 2, 0x0d, 6, 6, 6, 0x0e, 5, 5, 2, 2,
     0, 0, 4, 4, 4, 4, 5, 6, 6, 6, 0, 0, 0, 0x0e, 0, 0,
     8, 0, 0x10, 0, 0x18, 0, 0x20, 0, 0x28, 0, 0x30, 0, 0x80, 1, 0x82, 1,
     0x86, 0, 0xf6, 0xcf, 0xfe, 0x3f, 0xab, 0, 0xb0, 0, 0xb1, 0, 0xb3, 0, 0xba, 0xf8,
     0xbb, 0, 0xc0, 0, 0xc1, 0, 0xc7, 0xbf, 0x62, 0xff, 0, 0x8d, 0xff, 0, 0xc4, 0xff,
     0, 0xc5, 0xff, 0, 0xff, 0xff, 0xeb, 1, 0xff, 0x0e, 0x12, 8, 0, 0x13, 9, 0,
     0x16, 8, 0, 0x17, 9, 0, 0x2b, 9, 0, 0xae, 0xff, 7, 0xb2, 0xff, 0, 0xb4,
     0xff, 0, 0xb5, 0xff, 0, 0xc3, 1, 0, 0xc7, 0xff, 0xbf, 0xe7, 8, 0, 0xf0, 2,
     0]"

definition tb :: "nat \<Rightarrow> byte" where
  "tb i = hde64_table ! i"

text \<open>A two-level lookup: \<open>ht[ht[opcode / 4] + (opcode % 4)]\<close> at a base offset.\<close>

definition look :: "nat \<Rightarrow> byte \<Rightarrow> byte" where
  "look base opc = tb (base + unat (tb (base + unat opc div 4)) + unat opc mod 4)"

definition C_MODRM :: byte where "C_MODRM = 0x01"
definition C_IMM8 :: byte where "C_IMM8 = 0x02"
definition C_IMM16 :: byte where "C_IMM16 = 0x04"
definition C_IMM_P66 :: byte where "C_IMM_P66 = 0x10"
definition C_REL8 :: byte where "C_REL8 = 0x20"
definition C_REL32 :: byte where "C_REL32 = 0x40"
definition C_GROUP :: byte where "C_GROUP = 0x80"
definition C_ERROR :: byte where "C_ERROR = 0xff"

definition PRE_NONE :: byte where "PRE_NONE = 0x01"
definition PRE_F2 :: byte where "PRE_F2 = 0x02"
definition PRE_F3 :: byte where "PRE_F3 = 0x04"
definition PRE_66 :: byte where "PRE_66 = 0x08"
definition PRE_67 :: byte where "PRE_67 = 0x10"
definition PRE_LOCK :: byte where "PRE_LOCK = 0x20"
definition PRE_SEG :: byte where "PRE_SEG = 0x40"

definition DELTA_OPCODES :: nat where "DELTA_OPCODES = 0x4a"
definition DELTA_FPU_REG :: nat where "DELTA_FPU_REG = 0xfd"
definition DELTA_FPU_MODRM :: nat where "DELTA_FPU_MODRM = 0x104"
definition DELTA_PREFIXES :: nat where "DELTA_PREFIXES = 0x13c"
definition DELTA_OP_LOCK_OK :: nat where "DELTA_OP_LOCK_OK = 0x1ae"
definition DELTA_OP2_LOCK_OK :: nat where "DELTA_OP2_LOCK_OK = 0x1c6"
definition DELTA_OP_ONLY_MEM :: nat where "DELTA_OP_ONLY_MEM = 0x1d8"
definition DELTA_OP2_ONLY_MEM :: nat where "DELTA_OP2_ONLY_MEM = 0x1e7"

definition F_MODRM :: u32 where "F_MODRM = 0x00000001"
definition F_SIB :: u32 where "F_SIB = 0x00000002"
definition F_IMM8 :: u32 where "F_IMM8 = 0x00000004"
definition F_IMM16 :: u32 where "F_IMM16 = 0x00000008"
definition F_IMM32 :: u32 where "F_IMM32 = 0x00000010"
definition F_IMM64 :: u32 where "F_IMM64 = 0x00000020"
definition F_DISP8 :: u32 where "F_DISP8 = 0x00000040"
definition F_DISP16 :: u32 where "F_DISP16 = 0x00000080"
definition F_DISP32 :: u32 where "F_DISP32 = 0x00000100"
definition F_RELATIVE :: u32 where "F_RELATIVE = 0x00000200"
definition F_ERROR :: u32 where "F_ERROR = 0x00001000"
definition F_ERROR_OPCODE :: u32 where "F_ERROR_OPCODE = 0x00002000"
definition F_ERROR_LENGTH :: u32 where "F_ERROR_LENGTH = 0x00004000"
definition F_ERROR_LOCK :: u32 where "F_ERROR_LOCK = 0x00008000"
definition F_ERROR_OPERAND :: u32 where "F_ERROR_OPERAND = 0x00010000"
definition F_PREFIX_REX :: u32 where "F_PREFIX_REX = 0x40000000"

text \<open>\<open>flags & msk\<close> as a condition.\<close>

definition has :: "byte \<Rightarrow> byte \<Rightarrow> bool" where
  "has flags msk \<longleftrightarrow> flags AND msk \<noteq> 0"

text \<open>\<open>(msk << k) & 0x80\<close> as a condition.\<close>

definition top_shifted :: "byte \<Rightarrow> byte \<Rightarrow> bool" where
  "top_shifted msk k \<longleftrightarrow> push_bit (unat k) msk AND 0x80 \<noteq> 0"

section \<open>The decoded instruction\<close>

record hde64s =
  hs_len :: byte
  p_rep :: byte
  p_lock :: byte
  p_seg :: byte
  p_66 :: byte
  p_67 :: byte
  rex_w :: byte
  rex_r :: byte
  rex_x :: byte
  rex_b :: byte
  hs_opcode :: byte
  opcode2 :: byte
  modrm :: byte
  modrm_mod :: byte
  modrm_reg :: byte
  modrm_rm :: byte
  sib :: byte
  sib_scale :: byte
  sib_index :: byte
  sib_base :: byte
  hs_imm :: u64
  hs_disp :: u32
  hs_flags :: u32

definition hde64s0 :: hde64s where
  "hde64s0 = \<lparr>hs_len = 0, p_rep = 0, p_lock = 0, p_seg = 0, p_66 = 0, p_67 = 0, rex_w = 0, rex_r = 0, rex_x = 0,
     rex_b = 0, hs_opcode = 0, opcode2 = 0, modrm = 0, modrm_mod = 0, modrm_reg = 0, modrm_rm = 0, sib = 0,
     sib_scale = 0, sib_index = 0, sib_base = 0, hs_imm = 0, hs_disp = 0, hs_flags = 0\<rparr>"

definition orf :: "u32 \<Rightarrow> hde64s \<Rightarrow> hde64s" where
  "orf f hs = hs\<lparr>hs_flags := hs_flags hs OR f\<rparr>"

section \<open>The decoder\<close>

type_synonym reader = "nat \<Rightarrow> byte"

definition rd16 :: "reader \<Rightarrow> nat \<Rightarrow> u16" where
  "rd16 rd p = ucast (rd p) + 256 * ucast (rd (p + 1))"

definition rd32 :: "reader \<Rightarrow> nat \<Rightarrow> u32" where
  "rd32 rd p = ucast (rd16 rd p) + 0x10000 * ucast (rd16 rd (p + 2))"

definition rd64 :: "reader \<Rightarrow> nat \<Rightarrow> u64" where
  "rd64 rd p = ucast (rd32 rd p) + 0x100000000 * ucast (rd32 rd (p + 4))"

text \<open>A prefix byte: the mask it sets and where it is remembered.\<close>

definition hdePrefix :: "byte \<Rightarrow> hde64s \<Rightarrow> (byte \<times> hde64s) option" where
  "hdePrefix c hs =
     (if c = 0xf3 then Some (PRE_F3, hs\<lparr>p_rep := c\<rparr>)
      else if c = 0xf2 then Some (PRE_F2, hs\<lparr>p_rep := c\<rparr>)
      else if c = 0xf0 then Some (PRE_LOCK, hs\<lparr>p_lock := c\<rparr>)
      else if c \<in> {0x26, 0x2e, 0x36, 0x3e, 0x64, 0x65} then Some (PRE_SEG, hs\<lparr>p_seg := c\<rparr>)
      else if c = 0x66 then Some (PRE_66, hs\<lparr>p_66 := c\<rparr>)
      else if c = 0x67 then Some (PRE_67, hs\<lparr>p_67 := c\<rparr>)
      else None)"

text \<open>The prefix loop: at most sixteen bytes; gives the position, the last byte read and the prefixes.\<close>

fun hdePrefixes :: "nat \<Rightarrow> reader \<Rightarrow> nat \<Rightarrow> byte \<Rightarrow> byte \<Rightarrow> hde64s \<Rightarrow> nat \<times> byte \<times> byte \<times> hde64s" where
  "hdePrefixes 0 rd p c pref hs = (p, c, pref, hs)"
| "hdePrefixes (Suc x) rd p c0 pref hs =
     (case hdePrefix (rd p) hs of
        Some (m, hs') \<Rightarrow> hdePrefixes x rd (p + 1) (rd p) (pref OR m) hs'
      | None \<Rightarrow> (p + 1, rd p, pref, hs))"

text \<open>The REX byte: position, next byte, whether the operand is 64 bits wide, and whether a second REX
  byte makes the opcode an error.\<close>

definition hdeRex :: "reader \<Rightarrow> nat \<Rightarrow> byte \<Rightarrow> hde64s \<Rightarrow> nat \<times> byte \<times> bool \<times> bool \<times> hde64s" where
  "hdeRex rd p c hs =
     (if c AND 0xf0 = 0x40 then
        (let w = drop_bit 3 (c AND 0xf);
             hs1 = (orf F_PREFIX_REX hs)\<lparr>rex_w := w, rex_r := drop_bit 2 (c AND 7), rex_x := drop_bit 1 (c AND 3),
                      rex_b := c AND 1\<rparr>;
             op64 = (w \<noteq> 0 \<and> rd p AND 0xf8 = 0xb8);
             c' = rd p
         in (p + 1, c', op64, c' AND 0xf0 = 0x40, hs1))
      else (p, c, False, False, hs))"

text \<open>The opcode: position, opcode, prefixes, operand width, table base and flags.\<close>

definition hdeOpcode ::
  "reader \<Rightarrow> nat \<Rightarrow> byte \<Rightarrow> byte \<Rightarrow> bool \<Rightarrow> hde64s \<Rightarrow> nat \<times> byte \<times> byte \<times> bool \<times> nat \<times> hde64s" where
  "hdeOpcode rd p c pref op64 hs =
     (if c = 0x0f then (p + 1, rd p, pref, op64, DELTA_OPCODES, hs\<lparr>hs_opcode := c, opcode2 := rd p\<rparr>)
      else if 0xa0 \<le> c \<and> c \<le> 0xa3 then
        (p, c, if has pref PRE_67 then pref OR PRE_66 else pref AND NOT PRE_66, True, 0, hs\<lparr>hs_opcode := c\<rparr>)
      else (p, c, pref, op64, 0, hs\<lparr>hs_opcode := c\<rparr>))"

text \<open>The operand flags of the opcode; an unknown opcode is an error and takes no operands, except that
  four of them take a ModRM byte.\<close>

definition hdeError :: "byte \<Rightarrow> hde64s \<Rightarrow> byte \<times> hde64s" where
  "hdeError opc hs = (if opc AND NOT 2 = 0x24 then 1 else 0, orf (F_ERROR OR F_ERROR_OPCODE) hs)"

definition hdeCflags :: "nat \<Rightarrow> byte \<Rightarrow> hde64s \<Rightarrow> byte \<times> hde64s" where
  "hdeCflags base opc hs = (if look base opc = C_ERROR then hdeError opc hs else (look base opc, hs))"

definition hdeGroup :: "nat \<Rightarrow> byte \<Rightarrow> byte \<times> byte" where
  "hdeGroup base cflags =
     (if has cflags C_GROUP
      then (tb (base + unat (cflags AND 0x7f)), tb (base + unat (cflags AND 0x7f) + 1))
      else (cflags, 0))"

definition hdePrefixCheck :: "byte \<Rightarrow> byte \<Rightarrow> hde64s \<Rightarrow> hde64s" where
  "hdePrefixCheck opc pref hs =
     (if opcode2 hs \<noteq> 0 \<and> has (look DELTA_PREFIXES opc) pref then orf (F_ERROR OR F_ERROR_OPCODE) hs else hs)"

text \<open>The lock table: the first pair for the opcode says whether the register form may be locked.\<close>

fun lockTable :: "byte list \<Rightarrow> byte \<Rightarrow> byte \<Rightarrow> bool" where
  "lockTable (k # msk # rest) op reg = (if k = op then \<not> top_shifted msk reg else lockTable rest op reg)"
| "lockTable _ op reg = False"

definition lockOk :: "byte \<Rightarrow> byte \<Rightarrow> hde64s \<Rightarrow> bool" where
  "lockOk opc reg hs =
     (if opcode2 hs \<noteq> 0
      then lockTable (take (DELTA_OP_ONLY_MEM - DELTA_OP2_LOCK_OK) (drop DELTA_OP2_LOCK_OK hde64_table)) opc reg
      else lockTable (take (DELTA_OP2_LOCK_OK - DELTA_OP_LOCK_OK) (drop DELTA_OP_LOCK_OK hde64_table)) (opc AND NOT 1) reg)"

text \<open>The table of opcodes whose operand must be in memory: the first triple for the opcode decides.\<close>

fun onlyMemTable :: "byte list \<Rightarrow> byte \<Rightarrow> byte \<Rightarrow> byte \<Rightarrow> bool" where
  "onlyMemTable (k # pm # msk # rest) op pref reg =
     (if k = op then has pm pref \<and> \<not> top_shifted msk reg else onlyMemTable rest op pref reg)"
| "onlyMemTable _ op pref reg = False"

definition onlyMem :: "byte \<Rightarrow> byte \<Rightarrow> byte \<Rightarrow> hde64s \<Rightarrow> bool" where
  "onlyMem opc pref reg hs =
     (if opcode2 hs \<noteq> 0 then onlyMemTable (drop DELTA_OP2_ONLY_MEM hde64_table) opc pref reg
      else onlyMemTable (take (DELTA_OP2_ONLY_MEM - DELTA_OP_ONLY_MEM) (drop DELTA_OP_ONLY_MEM hde64_table)) opc pref reg)"

text \<open>The operand checks: the mod field used from here on, and whether the operand is an error.\<close>

definition operandCheck :: "byte \<Rightarrow> byte \<Rightarrow> byte \<Rightarrow> byte \<Rightarrow> hde64s \<Rightarrow> byte \<times> bool" where
  "operandCheck opc pref m_mod m_reg hs =
     (if opcode2 hs \<noteq> 0 \<and> (opc = 0x20 \<or> opc = 0x22) then (3, m_reg > 4 \<or> m_reg = 1)
      else if opcode2 hs \<noteq> 0 \<and> (opc = 0x21 \<or> opc = 0x23) then (3, m_reg = 4 \<or> m_reg = 5)
      else if opcode2 hs = 0 \<and> opc = 0x8c then (m_mod, m_reg > 5)
      else if opcode2 hs = 0 \<and> opc = 0x8e then (m_mod, m_reg = 1 \<or> m_reg > 5)
      else if m_mod = 3 then (m_mod, onlyMem opc pref m_reg hs)
      else if opcode2 hs \<noteq> 0 then
        (m_mod,
         if opc = 0x50 \<or> opc = 0xd7 \<or> opc = 0xf7 then has pref (PRE_NONE OR PRE_66)
         else if opc = 0xd6 then has pref (PRE_F2 OR PRE_F3)
         else opc = 0xc5)
      else (m_mod, False))"

definition fpuError :: "byte \<Rightarrow> byte \<Rightarrow> byte \<Rightarrow> byte \<Rightarrow> hde64s \<Rightarrow> bool" where
  "fpuError opc m_mod m_reg m_rm hs =
     (opcode2 hs = 0 \<and> 0xd9 \<le> opc \<and> opc \<le> 0xdf
      \<and> (if m_mod = 3 then top_shifted (tb (DELTA_FPU_MODRM + unat (opc - 0xd9) * 8 + unat m_reg)) m_rm
         else top_shifted (tb (DELTA_FPU_REG + unat (opc - 0xd9))) m_reg))"

definition dispSize :: "byte \<Rightarrow> byte \<Rightarrow> byte \<Rightarrow> nat" where
  "dispSize pref m_mod m_rm =
     (if m_mod = 0 then (if has pref PRE_67 then (if m_rm = 6 then 2 else 0) else (if m_rm = 5 then 4 else 0))
      else if m_mod = 1 then 1
      else if m_mod = 2 then (if has pref PRE_67 then 2 else 4)
      else 0)"

text \<open>SIB byte and displacement after the ModRM byte at \<open>p - 1\<close>.\<close>

definition hdeSibDisp :: "reader \<Rightarrow> nat \<Rightarrow> byte \<Rightarrow> byte \<Rightarrow> byte \<Rightarrow> hde64s \<Rightarrow> nat \<times> hde64s" where
  "hdeSibDisp rd p pref m_mod m_rm hs =
     (let c = rd p;
          d0 = dispSize pref m_mod m_rm;
          (q, d, hs1) =
            (if m_mod \<noteq> 3 \<and> m_rm = 4 then
               (p + 1, if c AND 7 = 5 \<and> m_mod AND 1 = 0 then 4 else d0,
                (orf F_SIB hs)\<lparr>sib := c, sib_scale := drop_bit 6 c, sib_index := drop_bit 3 (c AND 0x3f),
                   sib_base := c AND 7\<rparr>)
             else (p, d0, hs));
          hs2 = (if d = 1 then (orf F_DISP8 hs1)\<lparr>hs_disp := ucast (rd q)\<rparr>
                 else if d = 2 then (orf F_DISP16 hs1)\<lparr>hs_disp := ucast (rd16 rd q)\<rparr>
                 else if d = 4 then (orf F_DISP32 hs1)\<lparr>hs_disp := rd32 rd q\<rparr>
                 else hs1)
      in (q + d, hs2))"

text \<open>ModRM with everything that hangs on it: position and operand flags.\<close>

definition hdeModrm :: "reader \<Rightarrow> nat \<Rightarrow> byte \<Rightarrow> byte \<Rightarrow> byte \<Rightarrow> byte \<Rightarrow> hde64s \<Rightarrow> nat \<times> byte \<times> hde64s" where
  "hdeModrm rd p opc pref cflags x hs =
     (if has cflags C_MODRM then
        (let c = rd p;
             m_mod = drop_bit 6 c; m_rm = c AND 7; m_reg = drop_bit 3 (c AND 0x3f);
             hs1 = (orf F_MODRM hs)\<lparr>modrm := c, modrm_mod := m_mod, modrm_rm := m_rm, modrm_reg := m_reg\<rparr>;
             hs2 = (if x \<noteq> 0 \<and> top_shifted x m_reg then orf (F_ERROR OR F_ERROR_OPCODE) hs1 else hs1);
             hs3 = (if fpuError opc m_mod m_reg m_rm hs2 then orf (F_ERROR OR F_ERROR_OPCODE) hs2 else hs2);
             hs4 = (if has pref PRE_LOCK \<and> (m_mod = 3 \<or> \<not> lockOk opc m_reg hs3)
                    then orf (F_ERROR OR F_ERROR_LOCK) hs3 else hs3);
             (m_mod', err) = operandCheck opc pref m_mod m_reg hs4;
             hs5 = (if err then orf (F_ERROR OR F_ERROR_OPERAND) hs4 else hs4);
             cflags' = (if m_reg \<le> 1 then
                          (if opc = 0xf6 then cflags OR C_IMM8
                           else if opc = 0xf7 then cflags OR C_IMM_P66 else cflags)
                        else cflags);
             (q, hs6) = hdeSibDisp rd (p + 1) pref m_mod' m_rm hs5
         in (q, cflags', hs6))
      else (p, cflags, if has pref PRE_LOCK then orf (F_ERROR OR F_ERROR_LOCK) hs else hs))"

text \<open>Writing a part of the immediate union.\<close>

definition put_imm :: "u64 \<Rightarrow> u64 \<Rightarrow> hde64s \<Rightarrow> hde64s" where
  "put_imm msk v hs = hs\<lparr>hs_imm := (hs_imm hs AND NOT msk) OR v\<rparr>"

definition imm8At :: "reader \<Rightarrow> u32 \<Rightarrow> nat \<Rightarrow> hde64s \<Rightarrow> nat \<times> hde64s" where
  "imm8At rd f p hs = (p + 1, put_imm 0xFF (ucast (rd p)) (orf f hs))"

definition imm16At :: "reader \<Rightarrow> u32 \<Rightarrow> nat \<Rightarrow> hde64s \<Rightarrow> nat \<times> hde64s" where
  "imm16At rd f p hs = (p + 2, put_imm 0xFFFF (ucast (rd16 rd p)) (orf f hs))"

definition imm32At :: "reader \<Rightarrow> u32 \<Rightarrow> nat \<Rightarrow> hde64s \<Rightarrow> nat \<times> hde64s" where
  "imm32At rd f p hs = (p + 4, put_imm 0xFFFFFFFF (ucast (rd32 rd p)) (orf f hs))"

definition imm64At :: "reader \<Rightarrow> u32 \<Rightarrow> nat \<Rightarrow> hde64s \<Rightarrow> nat \<times> hde64s" where
  "imm64At rd f p hs = (p + 8, put_imm (- 1) (rd64 rd p) (orf f hs))"

text \<open>The immediates from \<open>C_IMM8\<close> on.\<close>

definition hdeImmTail :: "reader \<Rightarrow> byte \<Rightarrow> nat \<Rightarrow> hde64s \<Rightarrow> nat \<times> hde64s" where
  "hdeImmTail rd cflags p hs =
     (let (p1, hs1) = (if has cflags C_IMM8 then imm8At rd F_IMM8 p hs else (p, hs))
      in if has cflags C_REL32 then imm32At rd (F_IMM32 OR F_RELATIVE) p1 hs1
         else if has cflags C_REL8 then imm8At rd (F_IMM8 OR F_RELATIVE) p1 hs1
         else (p1, hs1))"

definition hdeImm :: "reader \<Rightarrow> byte \<Rightarrow> byte \<Rightarrow> bool \<Rightarrow> nat \<Rightarrow> hde64s \<Rightarrow> nat \<times> hde64s" where
  "hdeImm rd pref cflags op64 p hs =
     (if has cflags C_IMM_P66 then
        (if has cflags C_REL32 then
           (if has pref PRE_66 then imm16At rd (F_IMM16 OR F_RELATIVE) p hs
            else imm32At rd (F_IMM32 OR F_RELATIVE) p hs)
         else
           let (p1, hs1) = (if op64 then imm64At rd F_IMM64 p hs
                            else if \<not> has pref PRE_66 then imm32At rd F_IMM32 p hs
                            else imm16At rd F_IMM16 p hs);
               (p2, hs2) = (if has cflags C_IMM16 \<and> (op64 \<or> \<not> has pref PRE_66)
                            then imm16At rd F_IMM16 p1 hs1 else (p1, hs1))
           in hdeImmTail rd cflags p2 hs2)
      else
        let (p2, hs2) = (if has cflags C_IMM16 then imm16At rd F_IMM16 p hs else (p, hs))
        in hdeImmTail rd cflags p2 hs2)"

definition hdeLength :: "nat \<Rightarrow> hde64s \<Rightarrow> hde64s" where
  "hdeLength p hs =
     (let len = (of_nat p :: byte)
      in if len > 15 then (orf (F_ERROR OR F_ERROR_LENGTH) hs)\<lparr>hs_len := 15\<rparr> else hs\<lparr>hs_len := len\<rparr>)"

text \<open>Everything up to the operand flags: position, opcode, prefixes, operand width, operand flags and the
  group byte.\<close>

definition hdeHead :: "reader \<Rightarrow> nat \<times> byte \<times> byte \<times> bool \<times> byte \<times> byte \<times> hde64s" where
  "hdeHead rd =
     (let (p1, c1, pref0, hs0) = hdePrefixes 16 rd 0 0 0 hde64s0;
          hs1 = hs0\<lparr>hs_flags := push_bit 23 (ucast pref0)\<rparr>;
          pref1 = (if pref0 = 0 then PRE_NONE else pref0);
          (p2, c2, op64a, again, hs2) = hdeRex rd p1 c1 hs1
      in if again then
           (let (cf, h) = hdeError c2 hs2 in (p2, c2, pref1, op64a, cf, 0, h))
         else
           let (q, opc, pr, o64, base, h) = hdeOpcode rd p2 c2 pref1 op64a hs2;
               (cf0, h1) = hdeCflags base opc h;
               (cf, y) = hdeGroup base cf0
           in (q, opc, pr, o64, cf, y, h1))"

definition hde64_decode :: "reader \<Rightarrow> hde64s" where
  "hde64_decode rd =
     (let (p3, opc, pref, op64, cflags, x, hs3) = hdeHead rd;
          hs4 = hdePrefixCheck opc pref hs3;
          (p4, cflags', hs5) = hdeModrm rd p3 opc pref cflags x hs4;
          (p5, hs6) = hdeImm rd pref cflags' op64 p4 hs5
      in hdeLength p5 hs6)"

definition hde64_disasm :: "mem \<Rightarrow> addr \<Rightarrow> hde64s" where
  "hde64_disasm m code0 = hde64_decode (\<lambda>i. m (code0 + of_nat i))"

section \<open>Positions\<close>

lemma hdePrefixes_bounds:
  "hdePrefixes x rd p c pref hs = (p', c', pref', hs') \<Longrightarrow> p \<le> p' \<and> p' \<le> p + x \<and> (0 < x \<longrightarrow> p < p')"
proof (induction x arbitrary: p c pref hs)
  case (Suc x)
  then show ?case
    using Suc.IH [of "p + 1" "rd p"] by (cases "hdePrefix (rd p) hs") fastforce+
qed simp

lemma hdeRex_bounds:
  assumes "hdeRex rd p c hs = (p', c', op64, again, hs')"
  shows "p \<le> p' \<and> p' \<le> p + 1 \<and> (op64 \<longrightarrow> c' AND 0xf8 = 0xb8)"
  using assms by (auto simp: hdeRex_def Let_def split: if_splits)

lemma hdeOpcode_bounds:
  assumes "hdeOpcode rd p c pref op64 hs = (p', opc, pref', op64', base, hs')"
    and "op64 \<longrightarrow> c AND 0xf8 = 0xb8"
  shows "p \<le> p' \<and> p' \<le> p + 1 \<and> (op64' \<longrightarrow> base = 0 \<and> (opc AND 0xf8 = 0xb8 \<or> 0xa0 \<le> opc \<and> opc \<le> 0xa3))"
  using assms by (auto simp: hdeOpcode_def split: if_splits)

lemma dispSize_cases: "dispSize pref m r \<in> {0, 1, 2, 4}"
  by (simp add: dispSize_def)

lemma hdeSibDisp_bounds:
  assumes "hdeSibDisp rd p pref m r hs = (p', hs')"
  shows "p \<le> p' \<and> p' \<le> p + 5"
proof (cases "m \<noteq> 3 \<and> r = 4")
  case True
  with assms have "p' = p + 1 + (if rd p AND 7 = 5 \<and> m AND 1 = 0 then 4 else dispSize pref m r)"
    unfolding hdeSibDisp_def Let_def by simp
  then show ?thesis using dispSize_cases [of pref m r] by (auto split: if_splits)
next
  case False
  with assms have "p' = p + dispSize pref m r" unfolding hdeSibDisp_def Let_def by auto
  then show ?thesis using dispSize_cases [of pref m r] by auto
qed

lemma hdeModrm_bounds:
  assumes "hdeModrm rd p opc pref cflags x hs = (p', cflags', hs')"
  shows "p \<le> p' \<and> p' \<le> p + 6 \<and> (\<not> has cflags C_MODRM \<longrightarrow> p' = p \<and> cflags' = cflags)"
proof (cases "has cflags C_MODRM")
  case True
  from assms [unfolded hdeModrm_def Let_def if_P [OF True]] obtain m r h where "hdeSibDisp rd (p + 1) pref m r h = (p', hs')"
    by (auto split: prod.split_asm)
  from hdeSibDisp_bounds [OF this] True show ?thesis by simp
next
  case False
  with assms show ?thesis by (simp add: hdeModrm_def)
qed

text \<open>Operand flags with which a 64-bit immediate stands alone.\<close>

definition imm_alone :: "byte \<Rightarrow> bool" where
  "imm_alone cf \<longleftrightarrow> \<not> has cf C_MODRM \<and> \<not> has cf C_IMM16 \<and> \<not> has cf C_IMM8 \<and> \<not> has cf C_REL8 \<and> \<not> has cf C_REL32"

lemma hdeImm_bounds:
  assumes "hdeImm rd pref cflags op64 p hs = (p', hs')" and "op64 \<longrightarrow> imm_alone cflags"
  shows "p \<le> p' \<and> p' \<le> p + 8"
  using assms
  by (cases "has cflags C_IMM_P66"; cases "has cflags C_REL32"; cases "has cflags C_IMM16"; cases op64)
     (auto simp: hdeImm_def hdeImmTail_def imm_alone_def imm8At_def imm16At_def imm32At_def imm64At_def Let_def
       split: if_splits prod.splits)

lemma byte_le_cases: "(b :: byte) \<le> of_nat n \<Longrightarrow> n < 256 \<Longrightarrow> \<exists>k \<le> n. b = of_nat k"
  by (intro exI [of _ "unat b"]) (simp add: word_le_nat_alt unsigned_of_nat take_bit_nat_eq_self)

lemma wide_opcodes:
  assumes "opc AND 0xf8 = 0xb8 \<or> 0xa0 \<le> opc \<and> opc \<le> 0xa3"
  shows "opc \<in> set [0xa0, 0xa1, 0xa2, 0xa3, 0xb8, 0xb9, 0xba, 0xbb, 0xbc, 0xbd, 0xbe, 0xbf :: byte]"
  using assms
proof
  assume a: "opc AND 0xf8 = 0xb8"
  have m: "(0xf8 OR 7 :: byte) = - 1" by simp
  have "opc = opc AND (0xf8 OR 7)" unfolding m by (rule and.right_neutral [symmetric])
  also have "\<dots> = 0xb8 OR (opc AND 7)" unfolding bit.conj_disj_distrib a ..
  finally have e: "opc = 0xb8 OR (opc AND 7)" .
  have "opc AND 7 \<le> of_nat 7" using word_and_le1 [of opc 7] by (simp add: and.commute)
  then obtain k where "k \<le> 7" "opc AND 7 = of_nat k" using byte_le_cases [of "opc AND 7" 7] by auto
  then have "k \<le> 7" "opc = 0xb8 OR of_nat k" using e by simp_all
  then show ?thesis by (auto simp: le_Suc_eq numeral_eq_Suc)
next
  assume a: "0xa0 \<le> opc \<and> opc \<le> 0xa3"
  then have "unat opc \<in> {160, 161, 162, 163}" by (auto simp: word_le_nat_alt)
  then have "opc \<in> {of_nat 160, of_nat 161, of_nat 162, of_nat 163}" by (metis insert_iff empty_iff of_nat_unat ucast_id)
  then show ?thesis by auto
qed

lemma wide_table:
  assumes "opc AND 0xf8 = 0xb8 \<or> 0xa0 \<le> opc \<and> opc \<le> 0xa3"
  shows "look 0 opc \<noteq> C_ERROR \<and> imm_alone (fst (hdeGroup 0 (look 0 opc)))"
proof -
  have "list_all (\<lambda>opc. look 0 opc \<noteq> C_ERROR \<and> imm_alone (fst (hdeGroup 0 (look 0 opc))))
      [0xa0, 0xa1, 0xa2, 0xa3, 0xb8, 0xb9, 0xba, 0xbb, 0xbc, 0xbd, 0xbe, 0xbf]" by code_simp
  then show ?thesis using wide_opcodes [OF assms] unfolding list_all_iff by blast
qed

section \<open>Only the first 32 bytes matter\<close>

definition agree32 :: "reader \<Rightarrow> reader \<Rightarrow> bool" where
  "agree32 rd rd' \<longleftrightarrow> (\<forall>i < 32. rd i = rd' i)"

lemma agree_reads:
  assumes "agree32 rd rd'"
  shows "p < 32 \<Longrightarrow> rd p = rd' p" "p + 2 \<le> 32 \<Longrightarrow> rd16 rd p = rd16 rd' p"
    "p + 4 \<le> 32 \<Longrightarrow> rd32 rd p = rd32 rd' p" "p + 8 \<le> 32 \<Longrightarrow> rd64 rd p = rd64 rd' p"
  using assms by (simp_all add: agree32_def rd16_def rd32_def rd64_def)

lemma hdePrefixes_agree:
  assumes "agree32 rd rd'"
  shows "p + x \<le> 32 \<Longrightarrow> hdePrefixes x rd p c pref hs = hdePrefixes x rd' p c pref hs"
proof (induction x arbitrary: p c pref hs)
  case (Suc x)
  then have "rd p = rd' p" using agree_reads(1) [OF assms] by simp
  with Suc show ?case by (simp split: option.splits)
qed simp

lemma hdeRex_agree: "agree32 rd rd' \<Longrightarrow> p < 32 \<Longrightarrow> hdeRex rd p c hs = hdeRex rd' p c hs"
  unfolding hdeRex_def by (simp only: agree_reads(1) [of rd rd' p])

lemma hdeOpcode_agree: "agree32 rd rd' \<Longrightarrow> p < 32 \<Longrightarrow> hdeOpcode rd p c pref op64 hs = hdeOpcode rd' p c pref op64 hs"
  using agree_reads(1) by (simp add: hdeOpcode_def)

lemma hdeSibDisp_agree:
  assumes "agree32 rd rd'" and "p + 5 \<le> 32"
  shows "hdeSibDisp rd p pref m r hs = hdeSibDisp rd' p pref m r hs"
proof -
  have "rd p = rd' p" "rd (p + 1) = rd' (p + 1)" "rd16 rd p = rd16 rd' p" "rd16 rd (p + 1) = rd16 rd' (p + 1)"
    "rd32 rd p = rd32 rd' p" "rd32 rd (p + 1) = rd32 rd' (p + 1)"
    using assms by (auto intro!: agree_reads)
  then show ?thesis by (cases "m \<noteq> 3 \<and> r = 4") (simp_all only: hdeSibDisp_def Let_def if_True if_False prod.case simp_thms)
qed

lemma hdeModrm_agree:
  assumes "agree32 rd rd'" and "p + 6 \<le> 32"
  shows "hdeModrm rd p opc pref cflags x hs = hdeModrm rd' p opc pref cflags x hs"
proof -
  have c: "rd p = rd' p" using assms by (intro agree_reads) auto
  have "hdeSibDisp rd (p + 1) = hdeSibDisp rd' (p + 1)"
    using hdeSibDisp_agree [OF assms(1), of "p + 1"] assms(2) by (intro ext) simp
  then show ?thesis unfolding hdeModrm_def c by (simp only:)
qed

lemma hdeImmTail_agree:
  assumes "agree32 rd rd'" and "p + (if has cflags C_IMM8 then 1 else 0) + (if has cflags C_REL32 then 4 else if has cflags C_REL8 then 1 else 0) \<le> 32"
  shows "hdeImmTail rd cflags p hs = hdeImmTail rd' cflags p hs"
  using assms agree_reads [OF assms(1)]
  by (cases "has cflags C_IMM8"; cases "has cflags C_REL32"; cases "has cflags C_REL8")
     (simp_all add: hdeImmTail_def imm8At_def imm32At_def)

lemma hdeImm_agree:
  assumes "agree32 rd rd'" and "p + 8 \<le> 32" and "op64 \<longrightarrow> imm_alone cflags"
  shows "hdeImm rd pref cflags op64 p hs = hdeImm rd' pref cflags op64 p hs"
  using assms(2,3) agree_reads [OF assms(1)] hdeImmTail_agree [OF assms(1)]
  by (cases "has cflags C_IMM_P66"; cases "has cflags C_REL32"; cases "has cflags C_IMM16"; cases op64; cases "has pref PRE_66")
     (simp_all add: hdeImm_def imm_alone_def imm8At_def imm16At_def imm32At_def imm64At_def)

section \<open>The whole decoder\<close>

lemma rex_not_wide: "c AND 0xf8 = 0xb8 \<Longrightarrow> (c :: byte) AND 0xf0 \<noteq> 0x40"
  using wide_opcodes [of c] by auto

lemma hdeHead_bounds:
  assumes "hdeHead rd = (p, opc, pref, op64, cflags, x, hs)"
  shows "1 \<le> p \<and> p \<le> 18 \<and> (op64 \<longrightarrow> imm_alone cflags)"
proof -
  obtain p1 c1 pref0 hs0 where 1: "hdePrefixes 16 rd 0 0 0 hde64s0 = (p1, c1, pref0, hs0)" by (metis prod_cases4)
  let ?h = "hs0\<lparr>hs_flags := push_bit 23 (ucast pref0)\<rparr>" and ?pr = "if pref0 = 0 then PRE_NONE else pref0"
  obtain p2 c2 o2 again hs2 where 2: "hdeRex rd p1 c1 ?h = (p2, c2, o2, again, hs2)" by (metis prod_cases5)
  note b = hdePrefixes_bounds [OF 1] hdeRex_bounds [OF 2]
  show ?thesis
  proof (cases again)
    case True
    then have "c2 AND 0xf0 = 0x40" using 2 by (auto simp: hdeRex_def Let_def split: if_splits)
    then have "\<not> o2" using b(2) rex_not_wide by blast
    with assms True 1 2 b show ?thesis by (auto simp: hdeHead_def hdeError_def)
  next
    case False
    obtain q opc' pr o64 base h where 3: "hdeOpcode rd p2 c2 ?pr o2 hs2 = (q, opc', pr, o64, base, h)" by (metis prod_cases6)
    note b3 = hdeOpcode_bounds [OF 3]
    from assms False 1 2 3 have e: "p = q" "op64 = o64" "cflags = fst (hdeGroup base (fst (hdeCflags base opc' h)))"
      by (auto simp: hdeHead_def split: prod.splits)
    have "imm_alone cflags" if op64
    proof -
      have w: "base = 0" "opc' AND 0xf8 = 0xb8 \<or> 0xa0 \<le> opc' \<and> opc' \<le> 0xa3" using that b3 b(2) e(2) by auto
      then show ?thesis using wide_table [OF w(2)] by (simp add: e(3) hdeCflags_def)
    qed
    with b b3 e show ?thesis by auto
  qed
qed

lemma hdeHead_agree:
  assumes "agree32 rd rd'"
  shows "hdeHead rd = hdeHead rd'"
proof -
  obtain p1 c1 pref0 hs0 where pf: "hdePrefixes 16 rd 0 0 0 hde64s0 = (p1, c1, pref0, hs0)" by (metis prod_cases4)
  then have pf': "hdePrefixes 16 rd' 0 0 0 hde64s0 = (p1, c1, pref0, hs0)"
    using hdePrefixes_agree [OF assms, of 0 16 0 0 hde64s0] by simp
  let ?h = "hs0\<lparr>hs_flags := push_bit 23 (ucast pref0)\<rparr>" and ?pr = "if pref0 = 0 then PRE_NONE else pref0"
  obtain p2 c2 o2 again hs2 where rx: "hdeRex rd p1 c1 ?h = (p2, c2, o2, again, hs2)" by (metis prod_cases5)
  have "p1 < 32" using hdePrefixes_bounds [OF pf] by simp
  then have rx': "hdeRex rd' p1 c1 ?h = (p2, c2, o2, again, hs2)" using rx hdeRex_agree [OF assms] by simp
  have "p2 < 32" using hdePrefixes_bounds [OF pf] hdeRex_bounds [OF rx] by simp
  then have "hdeOpcode rd p2 c2 ?pr o2 hs2 = hdeOpcode rd' p2 c2 ?pr o2 hs2" by (rule hdeOpcode_agree [OF assms])
  then show ?thesis unfolding hdeHead_def pf pf' prod.case Let_def rx rx' by (simp only:)
qed

lemma hde64_decode_agree:
  assumes "agree32 rd rd'"
  shows "hde64_decode rd = hde64_decode rd'"
proof -
  obtain p opc pref op64 cflags x hs where h: "hdeHead rd = (p, opc, pref, op64, cflags, x, hs)" by (metis prod_cases7)
  note b = hdeHead_bounds [OF h] and h' = h [unfolded hdeHead_agree [OF assms]]
  let ?h = "hdePrefixCheck opc pref hs"
  obtain q cf hs5 where m: "hdeModrm rd p opc pref cflags x ?h = (q, cf, hs5)" by (metis prod_cases3)
  have m': "hdeModrm rd' p opc pref cflags x ?h = (q, cf, hs5)"
    using m hdeModrm_agree [OF assms] b by simp
  have "op64 \<longrightarrow> imm_alone cf" using hdeModrm_bounds [OF m] b by (auto simp: imm_alone_def)
  moreover have "q + 8 \<le> 32" using hdeModrm_bounds [OF m] b by simp
  ultimately have "hdeImm rd pref cf op64 q hs5 = hdeImm rd' pref cf op64 q hs5"
    by (intro hdeImm_agree [OF assms])
  then show ?thesis unfolding hde64_decode_def h h' prod.case Let_def m m' by (simp only:)
qed

lemma hde64_decode_len: "1 \<le> unat (hs_len (hde64_decode rd)) \<and> unat (hs_len (hde64_decode rd)) \<le> 15"
proof -
  obtain p opc pref op64 cflags x hs where h: "hdeHead rd = (p, opc, pref, op64, cflags, x, hs)" by (metis prod_cases7)
  note b = hdeHead_bounds [OF h]
  obtain q cf hs5 where m: "hdeModrm rd p opc pref cflags x (hdePrefixCheck opc pref hs) = (q, cf, hs5)" by (metis prod_cases3)
  have "op64 \<longrightarrow> imm_alone cf" using hdeModrm_bounds [OF m] b by (auto simp: imm_alone_def)
  moreover obtain r hs6 where i: "hdeImm rd pref cf op64 q hs5 = (r, hs6)" by (metis surj_pair)
  ultimately have r: "1 \<le> r" "r \<le> 32" using hdeImm_bounds [OF i] hdeModrm_bounds [OF m] b by auto
  have e: "hde64_decode rd = hdeLength r hs6" by (simp add: hde64_decode_def h m i)
  have u: "unat (of_nat r :: byte) = r" using r by (simp add: unsigned_of_nat take_bit_nat_eq_self)
  then have "(of_nat r :: byte) > 15 \<longleftrightarrow> r > 15" by (simp add: word_less_nat_alt)
  then show ?thesis unfolding e using r u by (simp add: hdeLength_def Let_def)
qed

section \<open>Instruction sizes\<close>

text \<open>The loop of \<open>quickInstructionSize\<close>.  It ends because every decoded instruction is at least one byte
  long.\<close>

function quickSizeLoop :: "mem \<Rightarrow> nat \<Rightarrow> addr \<Rightarrow> nat \<Rightarrow> nat" where
  "quickSizeLoop m minimum a acc =
     (let hs = hde64_disasm m a
      in if hs_flags hs AND F_ERROR \<noteq> 0 then 0
         else
           let acc' = acc + unat (hs_len hs)
           in if acc' < minimum then quickSizeLoop m minimum (a + ucast (hs_len hs)) acc' else acc')"
  by pat_completeness auto

termination
proof (relation "measure (\<lambda>(m, minimum, a, acc). minimum - acc)", simp)
  fix m minimum a acc hs acc'
  assume h: "hs = hde64_disasm m a" "acc' = acc + unat (hs_len hs)" "acc' < minimum"
  have "1 \<le> unat (hs_len hs)" unfolding h(1) hde64_disasm_def by (rule conjunct1 [OF hde64_decode_len])
  with h(2,3) show "((m, minimum, a + ucast (hs_len hs), acc'), m, minimum, a, acc)
      \<in> measure (\<lambda>(m, minimum, a, acc). minimum - acc)" by simp
qed

declare quickSizeLoop.simps [simp del]

definition quickInstructionSize :: "mem \<Rightarrow> addr \<Rightarrow> nat \<Rightarrow> nat" where
  "quickInstructionSize m a minimum = quickSizeLoop m minimum a 0"

text \<open>Instruction boundaries, independently of the loop: \<open>k\<close> bytes from \<open>a\<close> are whole, valid
  instructions.\<close>

inductive decodes_to :: "mem \<Rightarrow> addr \<Rightarrow> nat \<Rightarrow> bool" for m where
  decodes_none: "decodes_to m a 0"
| decodes_one: "hs_flags (hde64_disasm m a) AND F_ERROR = 0
    \<Longrightarrow> decodes_to m (a + ucast (hs_len (hde64_disasm m a))) k
    \<Longrightarrow> decodes_to m a (unat (hs_len (hde64_disasm m a)) + k)"

lemma decodes_to_unfold:
  "decodes_to m a k \<longleftrightarrow> k = 0 \<or> hs_flags (hde64_disasm m a) AND F_ERROR = 0
     \<and> (\<exists>k'. k = unat (hs_len (hde64_disasm m a)) + k' \<and> decodes_to m (a + ucast (hs_len (hde64_disasm m a))) k')"
  by (subst decodes_to.simps) auto

text \<open>The least positive boundary at or after \<open>minimum\<close>, if any; \<open>n\<close> counts from \<open>acc\<close> bytes before \<open>a\<close>.\<close>

definition least_boundary :: "mem \<Rightarrow> nat \<Rightarrow> addr \<Rightarrow> nat \<Rightarrow> nat \<Rightarrow> bool" where
  "least_boundary m minimum a acc n \<longleftrightarrow>
     (if n = 0 then \<forall>k > 0. decodes_to m a k \<longrightarrow> acc + k < minimum
      else \<exists>k > 0. n = acc + k \<and> minimum \<le> n \<and> decodes_to m a k
        \<and> (\<forall>k' > 0. decodes_to m a k' \<and> minimum \<le> acc + k' \<longrightarrow> k \<le> k'))"

lemma least_boundary_step:
  assumes ok: "hs_flags (hde64_disasm m a) AND F_ERROR = 0" and len: "l = unat (hs_len (hde64_disasm m a))" "0 < l"
    and short: "acc + l < minimum"
    and rest: "least_boundary m minimum (a + ucast (hs_len (hde64_disasm m a))) (acc + l) n"
  shows "least_boundary m minimum a acc n"
proof (cases "n = 0")
  case True
  have "acc + k < minimum" if "0 < k" "decodes_to m a k" for k
    using that(2) rest True ok short that(1) unfolding least_boundary_def decodes_to_unfold [of m a k] len(1)
    by (cases "k = unat (hs_len (hde64_disasm m a))") (auto simp: add.assoc)
  with True show ?thesis by (simp add: least_boundary_def)
next
  case False
  with rest obtain k where k: "0 < k" "n = acc + l + k" "minimum \<le> n"
      "decodes_to m (a + ucast (hs_len (hde64_disasm m a))) k"
      "\<And>k'. 0 < k' \<Longrightarrow> decodes_to m (a + ucast (hs_len (hde64_disasm m a))) k' \<Longrightarrow> minimum \<le> acc + l + k' \<Longrightarrow> k \<le> k'"
    unfolding least_boundary_def by auto
  have "decodes_to m a (l + k)" unfolding len(1) by (rule decodes_one [OF ok k(4)])
  moreover have "l + k \<le> k'" if "0 < k'" "decodes_to m a k'" "minimum \<le> acc + k'" for k'
  proof -
    from that obtain k2 where "k' = l + k2" "decodes_to m (a + ucast (hs_len (hde64_disasm m a))) k2"
      unfolding decodes_to_unfold [of m a k'] len(1) by auto
    with that short k(5) [of k2] show ?thesis by (cases "k2 = 0") auto
  qed
  ultimately show ?thesis using False k(1-3) unfolding least_boundary_def
    by (auto intro!: exI [of _ "l + k"])
qed

lemma hde64_disasm_pos: "0 < unat (hs_len (hde64_disasm m a))"
  using hde64_decode_len [of "\<lambda>i. m (a + of_nat i)"] unfolding hde64_disasm_def by linarith

lemma quickSizeLoop_least:
  "acc < minimum \<or> acc = 0 \<Longrightarrow> least_boundary m minimum a acc (quickSizeLoop m minimum a acc)"
proof (induction m minimum a acc rule: quickSizeLoop.induct)
  case (1 m minimum a acc)
  let ?l = "unat (hs_len (hde64_disasm m a))" and ?ok = "hs_flags (hde64_disasm m a) AND F_ERROR = 0"
  note pos = hde64_disasm_pos [of m a]
  consider (err) "\<not> ?ok" | (more) ?ok "acc + ?l < minimum" | (last) ?ok "\<not> acc + ?l < minimum" by blast
  then show ?case
  proof cases
    case err
    then show ?thesis by (subst quickSizeLoop.simps) (simp add: Let_def least_boundary_def decodes_to_unfold [of m a])
  next
    case more
    from more have "quickSizeLoop m minimum a acc = quickSizeLoop m minimum (a + ucast (hs_len (hde64_disasm m a))) (acc + ?l)"
      by (subst quickSizeLoop.simps) (simp add: Let_def)
    with least_boundary_step [OF more(1) refl pos more(2)] 1(1) [OF refl _ refl more(2)] more show ?thesis by simp
  next
    case last
    then have e: "quickSizeLoop m minimum a acc = acc + ?l" by (subst quickSizeLoop.simps) (simp add: Let_def)
    have "decodes_to m a ?l" using decodes_one [OF last(1) decodes_none] by simp
    moreover have "?l \<le> k" if "0 < k" "decodes_to m a k" for k using that by (auto simp: decodes_to_unfold [of m a k])
    ultimately show ?thesis unfolding e least_boundary_def using pos last(2) by (auto intro!: exI [of _ ?l])
  qed
qed

section \<open>The decoder as the patcher's disassembler\<close>

lemma quickInstructionSize_min: "quickInstructionSize m a n \<noteq> 0 \<Longrightarrow> n \<le> quickInstructionSize m a n"
  using quickSizeLoop_least [of 0 n m a] by (auto simp: quickInstructionSize_def least_boundary_def)

interpretation hde: length_disassembler quickInstructionSize
  by unfold_locales (rule quickInstructionSize_min)

section \<open>Properties\<close>

lemma agree_reader: "agree m m' a 32 \<Longrightarrow> agree32 (\<lambda>i. m (a + of_nat i)) (\<lambda>i. m' (a + of_nat i))"
  by (simp add: agree_def agree32_def unat_of_nat_small64)

text \<open>Whatever bytes it is given, the instruction decoder reports a length between 1 and 15 bytes, also
  when it flags an error.\<close>

theorem hde64_length:
  "1 \<le> unat (hs_len (hde64_disasm m a)) \<and> unat (hs_len (hde64_disasm m a)) \<le> 15"
  unfolding hde64_disasm_def by (rule hde64_decode_len)

text \<open>The decoder looks at no byte beyond the 32 its header asks the caller to provide: two memories
  that agree on these bytes decode alike, in every field.\<close>

theorem hde64_confined: "agree m m' a 32 \<Longrightarrow> hde64_disasm m a = hde64_disasm m' a"
  unfolding hde64_disasm_def by (intro hde64_decode_agree agree_reader)

theorem hde64_confined_witness:
  "hde64_disasm ((\<lambda>_. 0x90)(0x1020 := 0xCC)) 0x1000 = hde64_disasm (\<lambda>_. 0x90) 0x1000"
  by (rule hde64_confined) (auto simp: agree_def)

text \<open>C9: \<open>quickInstructionSize\<close> always returns.  It returns the end of the first whole instruction that
  reaches the requested minimum, counting from the start of the code, and 0 exactly when the valid
  instructions before the first undecodable one do not reach it.\<close>

theorem quickInstructionSize_least:
  fixes m :: mem and a :: addr and minimum :: nat
  defines "n \<equiv> quickInstructionSize m a minimum"
  shows "if n = 0 then \<not> (\<exists>k > 0. minimum \<le> k \<and> decodes_to m a k)
    else minimum \<le> n \<and> decodes_to m a n \<and> \<not> (\<exists>k > 0. k < n \<and> minimum \<le> k \<and> decodes_to m a k)"
  using quickSizeLoop_least [of 0 minimum m a] unfolding n_def quickInstructionSize_def least_boundary_def
  by (fastforce simp: not_less not_le split: if_splits)

text \<open>C1: wrapping a function that is not routed yet installs the hook and keeps the original
  callable.  Afterwards a call of the function goes to the hook; the returned trampoline starts with
  the function's own first instructions and continues, by a jump, right behind them; these
  instructions cover every byte the hook overwrote; the caller's pointer to the original holds the
  trampoline; no other byte of memory changed, and CR0, interrupts and lock are as before.  Of the
  function it is only required that its first instructions decode.\<close>

theorem routeFunction_wraps:
  fixes s :: "'a kpatcher_scheme" and frm to :: addr and jt :: jumpType
  defines "absolute \<equiv> jumpTooFar frm to \<or> jt = Long"
  assumes "route_ready s" and "temp_clear s" and "jt = Auto \<or> jt = Long"
    and "fst (readChain (kmem s) frm) = 0"
    and "slotFor jt absolute info s = (slot, s1)"
    and "off = quickInstructionSize (kmem s) frm (route_length absolute slot)" and "off \<noteq> 0"
    and "tempExecutableMemoryOff s + (off + LongJump) < TempExecutableMemorySize"
    and "T = tempExecutableMemory s + of_nat (tempExecutableMemoryOff s)"
    and "route_layout frm T off slot org"
  shows "\<exists>s'. routeFunctionInternal quickInstructionSize frm to True True rv jt info org s = Inr (T, s')
    \<and> fst (readChain (kmem s') frm) = to
    \<and> route_length absolute slot \<le> off
    \<and> load_bytes (kmem s') T off = load_bytes (kmem s) frm off
    \<and> fst (readChain (kmem s') (T + of_nat off)) = frm + of_nat off
    \<and> (\<forall>o1. org = Some o1 \<longrightarrow> load64 (kmem s') o1 = T)
    \<and> (\<forall>x. off \<le> unat (x - frm) \<and> (slot \<noteq> 0 \<longrightarrow> 8 \<le> unat (x - slot)) \<and> off + LongJump \<le> unat (x - T)
          \<and> (\<forall>o1. org = Some o1 \<longrightarrow> 8 \<le> unat (x - o1)) \<longrightarrow> kmem s' x = kmem s x)
    \<and> cr0 s' = cr0 s \<and> eflags_if s' = eflags_if s \<and> lock_depth s' = lock_depth s"
  unfolding absolute_def
  by (rule hde.wraps [OF assms(2-5) assms(6,7) [unfolded absolute_def] assms(8-11)])

theorem routeFunction_wraps_witness:
  "\<exists>s'. routeFunctionInternal quickInstructionSize 0x1000 0x2000 True True True Auto (Some 0) (Some 0x3000) demo_kp
        = Inr (0x100000, s')
     \<and> fst (readChain (kmem s') 0x1000) = 0x2000 \<and> fst (readChain (kmem s') 0x100005) = 0x1005
     \<and> load64 (kmem s') 0x3000 = 0x100000"
proof -
  have f: "\<not> jumpTooFar 0x1000 0x2000" by code_simp
  have sl: "slotFor Auto (jumpTooFar 0x1000 0x2000 \<or> Auto = Long) (Some 0) demo_kp = (0, demo_kp)"
    using f by (simp add: slotFor_def)
  have "quickInstructionSize (kmem demo_kp) 0x1000 5 = 5" by code_simp
  then have q: "5 = quickInstructionSize (kmem demo_kp) 0x1000 (route_length (jumpTooFar 0x1000 0x2000 \<or> Auto = Long) 0)"
    using f by (simp add: route_length_def SmallJump_def)
  have rm: "tempExecutableMemoryOff demo_kp + (5 + LongJump) < TempExecutableMemorySize"
    "(0x100000 :: addr) = tempExecutableMemory demo_kp + of_nat (tempExecutableMemoryOff demo_kp)"
    by (simp_all add: demo_kp_def jump_consts)
  have nj: "fst (readChain (kmem demo_kp) 0x1000) = 0" by code_simp
  have lay: "route_layout 0x1000 0x100000 5 0 (Some 0x3000)"
    by (auto simp: route_layout_def LongJump_def intro!: apart_far)
  have jt: "Auto = Auto \<or> Auto = Long" "(5 :: nat) \<noteq> 0" by simp_all
  from routeFunction_wraps [OF demo_kp_ready demo_kp_clear jt(1) nj sl q jt(2) rm lay, of True]
  show ?thesis by auto
qed



end
