(* ===== verification/Kern_Route.thy ===== *)
theory Kern_Route
  imports Kern_Lookup Hde64
begin

text \<open>
  Batches of symbol and route requests of \<open>KernelPatcher\<close>: \<open>solveSymbol\<close> in both forms,
  \<open>solveMultiple\<close>, \<open>eraseCoverageInstPrefix\<close>, \<open>routeMultipleInternal\<close>, \<open>updateRunningInfo\<close> and
  \<open>compatibleKernel\<close> (\<^verbatim>\<open>Lilu/Lilu/Sources/kern_patcher.cpp\<close>, \<^verbatim>\<open>Lilu/Lilu/Headers/kern_patcher.hpp\<close>).  The
  requests that a batch updates are returned with it; a pointer that a request carries is an address
  of kernel memory.
\<close>

section \<open>Symbols\<close>

definition solveSymbol :: "nat \<Rightarrow> string \<Rightarrow> 'a kpatcher_scheme \<Rightarrow> addr \<times> 'a kpatcher_scheme" where
  "solveSymbol ident symbol s =
     (let addr = (if ident < length (kinfos s) then solveSymbolIn (kmem s) (kinfos s ! ident) symbol else 0)
      in if addr \<noteq> 0 then (addr, s) else (0, s\<lparr>code := NoSymbolFound\<rparr>))"

definition solveSymbolRange ::
  "nat \<Rightarrow> string \<Rightarrow> addr \<Rightarrow> u64 \<Rightarrow> bool \<Rightarrow> 'a kpatcher_scheme \<Rightarrow> (addr \<times> 'a kpatcher_scheme) res" where
  "solveSymbolRange ident symbol start sz crash s =
     (let (addr, s1) = solveSymbol ident symbol s
      in if addr = 0 then Inr (0, s1)
         else if addr \<ge> start \<and> addr < start + sz then Inr (addr, s1)
         else if crash then Inl (Panic ''patcher'')
         else Inr (0, s1\<lparr>code := InvalidSymbolFound\<rparr>))"

record solveRequest =
  sr_symbol :: string
  sr_address :: addr

fun solveMultiple ::
  "nat \<Rightarrow> solveRequest list \<Rightarrow> addr \<Rightarrow> u64 \<Rightarrow> bool \<Rightarrow> bool \<Rightarrow> 'a kpatcher_scheme \<Rightarrow> (bool \<times> 'a kpatcher_scheme) res" where
  "solveMultiple ident [] start sz crash force s = Inr (True, s)"
| "solveMultiple ident (r # rs) start sz crash force s =
     res_bind (solveSymbolRange ident (sr_symbol r) start sz crash s)
       (\<lambda>(result, s1).
          if result \<noteq> 0 then
            solveMultiple ident rs start sz crash force (s1\<lparr>kmem := store64 (kmem s1) (sr_address r) result\<rparr>)
          else if \<not> force then Inr (False, clearError s1)
          else solveMultiple ident rs start sz crash force (clearError s1))"

section \<open>Coverage instrumentation\<close>

definition IncInstPrefix :: "byte list" where "IncInstPrefix = [0x48, 0xFF, 0x05]"
definition IncInstSize :: nat where "IncInstSize = 7"

definition eraseInst :: "addr \<Rightarrow> 'a kpatcher_scheme \<Rightarrow> 'a kpatcher_scheme" where
  "eraseInst addr s =
     (let (w, t) = setKernelWriting True (kernelWriteLock s) s
      in if w then
           snd (setKernelWriting False (kernelWriteLock t)
                  (t\<lparr>kmem := store_bytes (kmem t) addr (replicate IncInstSize 0x90)\<rparr>))
         else t)"

definition instSizeAt :: "mem \<Rightarrow> addr \<Rightarrow> nat" where
  "instSizeAt m addr = quickInstructionSize m addr 1"

fun eraseLoop :: "nat \<Rightarrow> addr \<Rightarrow> int \<Rightarrow> int \<Rightarrow> 'a kpatcher_scheme \<Rightarrow> 'a kpatcher_scheme" where
  "eraseLoop 0 addr limit totalInstSize s = s"
| "eraseLoop (Suc n) addr limit totalInstSize s =
     (let instSize = instSizeAt (kmem s) addr
      in if instSize = 0 then s
         else
           let s1 = (if instSize = IncInstSize \<and> load_bytes (kmem s) addr 3 = IncInstPrefix
                     then eraseInst addr s else s);
               total' = totalInstSize + int instSize
           in if limit > 0 \<and> total' \<ge> limit then s1
              else eraseLoop n (addr + of_nat instSize) limit total' s1)"

definition eraseCoverageInstPrefix :: "addr \<Rightarrow> nat \<Rightarrow> int \<Rightarrow> 'a kpatcher_scheme \<Rightarrow> 'a kpatcher_scheme" where
  "eraseCoverageInstPrefix addr count limit s = eraseLoop count addr limit 0 s"

section \<open>Route requests\<close>

record routeRequest =
  rq_symbol :: "string option"
  rq_from :: addr
  rq_to :: addr
  rq_org :: "addr option"

text \<open>The first loop: every named function is solved.  The result says whether the loop returned early,
  whether errors were found, and the requests as updated.\<close>

fun solveRequests ::
  "nat \<Rightarrow> addr \<Rightarrow> u64 \<Rightarrow> bool \<Rightarrow> routeRequest list \<Rightarrow> 'a kpatcher_scheme
    \<Rightarrow> (bool \<times> bool \<times> routeRequest list \<times> 'a kpatcher_scheme) res" where
  "solveRequests ident start sz force [] s = Inr (False, False, [], s)"
| "solveRequests ident start sz force (r # rs) s =
     (case rq_symbol r of
        None \<Rightarrow>
          res_bind (solveRequests ident start sz force rs s)
            (\<lambda>(stop, err, rs', s'). Inr (stop, err, r # rs', s'))
      | Some symbol \<Rightarrow>
          res_bind (if start \<noteq> 0 \<or> sz \<noteq> 0 then solveSymbolRange ident symbol start sz True s
                    else Inr (solveSymbol ident symbol s))
            (\<lambda>(frm, s1).
               let r' = r\<lparr>rq_from := frm\<rparr>
               in if frm = 0 \<and> \<not> force then Inr (True, True, r' # rs, clearError s1)
                  else
                    res_bind (solveRequests ident start sz force rs (if frm = 0 then clearError s1 else s1))
                      (\<lambda>(stop, err, rs', s'). Inr (stop, err \<or> frm = 0, r' # rs', s'))))"

text \<open>The second loop: every solved function is routed.  In wrapper mode a zero result counts as failure,
  otherwise a non-zero one.\<close>

definition routeRequest1 ::
  "nat \<Rightarrow> bool \<Rightarrow> jumpType \<Rightarrow> routeRequest \<Rightarrow> 'a kpatcher_scheme \<Rightarrow> (bool \<times> 'a kpatcher_scheme) res" where
  "routeRequest1 ident kernelRoute jump r s =
     (let s1 = (if rq_to r \<noteq> 0 then eraseCoverageInstPrefix (rq_from r) 5 (int LongJump) s else s)
      in if ident \<ge> length (kinfos s1) then Inl (Panic ''kinfos'')
         else
           res_bind (routeFunctionInternal quickInstructionSize (rq_from r) (rq_to r) (rq_org r \<noteq> None) kernelRoute
                       True jump (Some ident) (rq_org r) s1)
             (\<lambda>(wrapper, s2).
                if (rq_org r \<noteq> None) = (wrapper \<noteq> 0) then Inr (True, s2) else Inr (False, clearError s2)))"

fun routeRequests ::
  "nat \<Rightarrow> bool \<Rightarrow> bool \<Rightarrow> jumpType \<Rightarrow> routeRequest list \<Rightarrow> 'a kpatcher_scheme
    \<Rightarrow> (bool \<times> bool \<times> 'a kpatcher_scheme) res" where
  "routeRequests ident kernelRoute force jump [] s = Inr (False, False, s)"
| "routeRequests ident kernelRoute force jump (r # rs) s =
     (if rq_from r = 0 then routeRequests ident kernelRoute force jump rs s
      else
        res_bind (routeRequest1 ident kernelRoute jump r s)
          (\<lambda>(ok, s1).
             if \<not> ok \<and> \<not> force then Inr (True, True, s1)
             else
               res_bind (routeRequests ident kernelRoute force jump rs s1)
                 (\<lambda>(stop, err, s2). Inr (stop, err \<or> \<not> ok, s2))))"

definition routeMultipleInternal ::
  "nat \<Rightarrow> routeRequest list \<Rightarrow> addr \<Rightarrow> u64 \<Rightarrow> bool \<Rightarrow> bool \<Rightarrow> jumpType \<Rightarrow> 'a kpatcher_scheme
    \<Rightarrow> (bool \<times> routeRequest list \<times> 'a kpatcher_scheme) res" where
  "routeMultipleInternal ident requests start sz kernelRoute force jump s =
     res_bind (solveRequests ident start sz force requests s)
       (\<lambda>(stop, err, requests', s1).
          if stop then Inr (False, requests', s1)
          else
            res_bind (routeRequests ident kernelRoute force jump requests' s1)
              (\<lambda>(stop', err', s2). Inr (\<not> stop' \<and> \<not> err \<and> \<not> err', requests', s2)))"

definition routeMultiple where "routeMultiple ident requests start sz kernelRoute force s =
  routeMultipleInternal ident requests start sz kernelRoute force Auto s"
definition routeMultipleLong where "routeMultipleLong ident requests start sz kernelRoute force s =
  routeMultipleInternal ident requests start sz kernelRoute force Long s"
definition routeMultipleShort where "routeMultipleShort ident requests start sz kernelRoute force s =
  routeMultipleInternal ident requests start sz kernelRoute force Short s"

section \<open>Running information\<close>

definition updateRunningInfo ::
  "nat \<Rightarrow> addr \<Rightarrow> nat \<Rightarrow> addr \<Rightarrow> u64 \<Rightarrow> bool \<Rightarrow> kbase \<Rightarrow> 'a kpatcher_scheme
    \<Rightarrow> (u64 \<times> kbase \<times> 'a kpatcher_scheme) option" where
  "updateRunningInfo kver IOLog ident slide sz force st s =
     (if ident \<ge> length (kinfos s) then Some (sz, st, s)
      else case getRunningAddresses kver (kmem s) IOLog slide sz force st (kinfos s ! ident) of
             None \<Rightarrow> None
           | Some (ok, st', info) \<Rightarrow>
               let s1 = s\<lparr>kinfos := (kinfos s)[ident := info]\<rparr>;
                   s2 = (if ok then s1 else s1\<lparr>code := KernRunningInitFailure\<rparr>);
                   (hdr, nsize) = getRunningPosition info
               in Some (if nsize > sz then nsize else sz, st', s2))"

definition compatibleKernel :: "nat \<Rightarrow> nat \<Rightarrow> nat \<Rightarrow> bool" where
  "compatibleKernel kver minimum maximum \<longleftrightarrow>
     (minimum = 0 \<or> minimum \<le> kver) \<and> (maximum = 0 \<or> maximum \<ge> kver)"

section \<open>Erasing coverage instrumentation\<close>

lemma instSizeAt_eq:
  "instSizeAt m a =
     (if hs_flags (hde64_disasm m a) AND F_ERROR \<noteq> 0 then 0 else unat (hs_len (hde64_disasm m a)))"
proof -
  have "\<not> unat (hs_len (hde64_disasm m a)) < 1" using hde64_disasm_pos [of m a] by linarith
  then show ?thesis
    unfolding instSizeAt_def quickInstructionSize_def by (subst quickSizeLoop.simps) (simp add: Let_def)
qed

lemma instSizeAt_le: "instSizeAt m a \<le> 15"
  using hde64_decode_len unfolding instSizeAt_eq hde64_disasm_def by simp

lemma agree_mono: "agree m m' a n \<Longrightarrow> k \<le> n \<Longrightarrow> agree m m' a k"
  by (simp add: agree_def)

lemma instSizeAt_agree:
  assumes "agree m m' a 32"
  shows "instSizeAt m a = instSizeAt m' a"
proof -
  have "hde64_disasm m a = hde64_disasm m' a"
    unfolding hde64_disasm_def by (rule hde64_decode_agree [OF agree_reader [OF assms]])
  then show ?thesis by (simp add: instSizeAt_eq)
qed

text \<open>The instructions the loop looks at, and which of them are counters, on one fixed memory.\<close>

fun visited :: "mem \<Rightarrow> nat \<Rightarrow> addr \<Rightarrow> int \<Rightarrow> int \<Rightarrow> addr list" where
  "visited m 0 a limit acc = []"
| "visited m (Suc n) a limit acc =
     (let k = instSizeAt m a
      in if k = 0 then []
         else a # (if limit > 0 \<and> acc + int k \<ge> limit then [] else visited m n (a + of_nat k) limit (acc + int k)))"

definition counter_at :: "mem \<Rightarrow> addr \<Rightarrow> bool" where
  "counter_at m a \<longleftrightarrow> instSizeAt m a = IncInstSize \<and> load_bytes m a 3 = IncInstPrefix"

definition nop7 :: "addr \<Rightarrow> mem \<Rightarrow> mem" where
  "nop7 a m = store_bytes m a (replicate 7 0x90)"

lemma eraseInst_edit:
  assumes "bare_metal s"
  shows "eraseInst a s = kw.edit (kernelWriteLock s) (nop7 a) s"
proof -
  obtain t where t: "setKernelWriting True (kernelWriteLock s) s = (True, t)"
    using kw.enter_ok [OF assms, of "kernelWriteLock s"] by (cases "setKernelWriting True (kernelWriteLock s) s") auto
  have "kernelWriteLock t = kernelWriteLock s" using skw_kpatcher(1) [of True "kernelWriteLock s" s] t by simp
  then show ?thesis by (simp add: eraseInst_def kw.edit_def t nop7_def IncInstSize_def)
qed

lemma eraseInst_ok:
  assumes "bare_metal s"
  shows "bare_metal (eraseInst a s)" "same_cpu (eraseInst a s) s" "kmem (eraseInst a s) = nop7 a (kmem s)"
  using assms by (simp_all add: eraseInst_edit kw.edit_usable kw.edit_same kw.edit_memory)

lemma agree_step:
  assumes "agree m m0 a (32 + 15 * Suc n)" and "32 + 15 * Suc n \<le> 2 ^ 64" and "k \<le> 15"
    and "\<And>x. k \<le> unat (x - a) \<Longrightarrow> m1 x = m x"
  shows "agree m1 m0 (a + of_nat k) (32 + 15 * n)"
  unfolding agree_def
proof (intro allI impI)
  fix x assume x: "unat (x - (a + of_nat k)) < 32 + 15 * n"
  have e: "x - a = (x - (a + of_nat k)) + of_nat k" by simp
  have "unat ((x - (a + of_nat k)) + of_nat k) = unat (x - (a + of_nat k)) + k"
    using x assms(2,3) by (subst unat_add_small64) (simp_all add: unat_of_nat_small64)
  then have "unat (x - a) = unat (x - (a + of_nat k)) + k" by (simp only: e)
  then show "m1 x = m0 x" using assms(1,4) x assms(3) by (auto simp: agree_def)
qed

lemma eraseLoop_exact:
  assumes "bare_metal s" and "agree (kmem s) m0 a (32 + 15 * n)" and "32 + 15 * n \<le> 2 ^ 64"
  shows "kmem (eraseLoop n a limit acc s) = fold nop7 (filter (counter_at m0) (visited m0 n a limit acc)) (kmem s)
    \<and> same_cpu (eraseLoop n a limit acc s) s"
  using assms
proof (induction n a limit acc s rule: eraseLoop.induct)
  case (2 n a limit acc s)
  let ?k = "instSizeAt m0 a"
  have k: "instSizeAt (kmem s) a = ?k"
    using 2(3) by (intro instSizeAt_agree) (rule agree_mono, auto)
  have l: "load_bytes (kmem s) a 3 = load_bytes m0 a 3"
    using agree_mono [OF 2(3), of 32] by (intro agree_load [of _ _ a 32]) auto
  define s1 where "s1 = (if counter_at m0 a then eraseInst a s else s)"
  have s1: "bare_metal s1" "same_cpu s1 s" "kmem s1 = (if counter_at m0 a then nop7 a (kmem s) else kmem s)"
    using eraseInst_ok [OF 2(2), of a] 2(2) by (simp_all add: s1_def)
  have ag: "agree (kmem s1) m0 (a + of_nat ?k) (32 + 15 * n)"
  proof (rule agree_step [OF 2(3,4) instSizeAt_le])
    fix x assume "?k \<le> unat (x - a)"
    then show "kmem s1 x = kmem s x"
      using s1(3) by (auto simp: counter_at_def IncInstSize_def nop7_def store_bytes_other)
  qed
  have st: "eraseLoop (Suc n) a limit acc s =
      (if ?k = 0 then s else if limit > 0 \<and> acc + int ?k \<ge> limit then s1
       else eraseLoop n (a + of_nat ?k) limit (acc + int ?k) s1)"
    by (simp add: k l s1_def counter_at_def Let_def)
  show ?case
  proof (cases "?k = 0 \<or> (limit > 0 \<and> acc + int ?k \<ge> limit)")
    case True
    then show ?thesis using s1 unfolding st by (auto simp: counter_at_def Let_def IncInstSize_def)
  next
    case False
    have s1': "s1 = (if instSizeAt (kmem s) a = IncInstSize \<and> load_bytes (kmem s) a 3 = IncInstPrefix
        then eraseInst a s else s)" by (simp add: s1_def counter_at_def k l)
    from 2(1) [OF refl _ s1' refl] False s1(1) ag 2(4)
    have "kmem (eraseLoop n (a + of_nat ?k) limit (acc + int ?k) s1)
        = fold nop7 (filter (counter_at m0) (visited m0 n (a + of_nat ?k) limit (acc + int ?k))) (kmem s1)
      \<and> same_cpu (eraseLoop n (a + of_nat ?k) limit (acc + int ?k) s1) s1" by (simp add: k)
    then show ?thesis using s1 False unfolding st by (auto simp: Let_def intro: same_cpu_trans)
  qed
qed simp

section \<open>Properties\<close>

text \<open>C8: erasing coverage instrumentation decides on the code as it was: exactly the counter
  increments among the instructions visited in the original memory become seven one-byte
  no-operations, and nothing else changes, neither in memory nor in the processor state.\<close>

theorem eraseCoverageInstPrefix_exact:
  assumes "bare_metal s" and "32 + 15 * count \<le> 2 ^ 64"
  shows "kmem (eraseCoverageInstPrefix addr count limit s)
      = fold nop7 (filter (counter_at (kmem s)) (visited (kmem s) count addr limit 0)) (kmem s)
    \<and> same_cpu (eraseCoverageInstPrefix addr count limit s) s"
  unfolding eraseCoverageInstPrefix_def using assms by (intro eraseLoop_exact) (simp_all add: agree_def)

definition demo_counter :: mem where
  "demo_counter = store_bytes (\<lambda>_. 0) 0x1000 [0x55, 0x48, 0xFF, 0x05, 1, 0, 0, 0, 0x90]"

theorem eraseCoverageInstPrefix_exact_witness:
  "kmem (eraseCoverageInstPrefix 0x1000 5 14 (demo_kp\<lparr>kmem := demo_counter\<rparr>))
     = fold nop7 (filter (counter_at demo_counter) (visited demo_counter 5 0x1000 14 0)) demo_counter
   \<and> filter (counter_at demo_counter) (visited demo_counter 5 0x1000 14 0) = [0x1001]"
proof -
  have b: "bare_metal (demo_kp\<lparr>kmem := demo_counter\<rparr>)"
    using demo_kp_ready by (simp add: route_ready_def bare_metal_def)
  have "filter (counter_at demo_counter) (visited demo_counter 5 0x1000 14 0) = [0x1001]" by code_simp
  with eraseCoverageInstPrefix_exact [OF b, of 5 "0x1000" 14] show ?thesis by simp
qed

text \<open>The address a request asks for, in a state.\<close>

definition request_target :: "nat \<Rightarrow> 'a kpatcher_scheme \<Rightarrow> routeRequest \<Rightarrow> addr" where
  "request_target ident s r =
     (case rq_symbol r of
        None \<Rightarrow> rq_from r
      | Some y \<Rightarrow> if ident < length (kinfos s) then solveSymbolIn (kmem s) (kinfos s ! ident) y else 0)"

definition unsolved :: "nat \<Rightarrow> 'a kpatcher_scheme \<Rightarrow> routeRequest \<Rightarrow> bool" where
  "unsolved ident s r \<longleftrightarrow> rq_symbol r \<noteq> None \<and> request_target ident s r = 0"

lemma target_code [simp]:
  "request_target ident (s\<lparr>code := c\<rparr>) r = request_target ident s r"
  "unsolved ident (s\<lparr>code := c\<rparr>) r = unsolved ident s r"
  unfolding unsolved_def request_target_def by (cases "rq_symbol r"; simp)+

lemma solveSymbol_target:
  "rq_symbol r = Some y \<Longrightarrow> solveSymbol ident y s =
     (request_target ident s r, if request_target ident s r = 0 then s\<lparr>code := NoSymbolFound\<rparr> else s)"
  by (simp add: solveSymbol_def request_target_def Let_def)

lemma clearError_code [simp]: "clearError (s\<lparr>code := c\<rparr>) = s\<lparr>code := NoError\<rparr>"
  by (simp add: clearError_def)

definition with_target :: "nat \<Rightarrow> 'a kpatcher_scheme \<Rightarrow> routeRequest \<Rightarrow> routeRequest" where
  "with_target ident s r = r\<lparr>rq_from := request_target ident s r\<rparr>"

lemma with_target_code [simp]: "with_target ident (s\<lparr>code := c\<rparr>) = with_target ident s"
  by (intro ext) (simp add: with_target_def)

lemma solveRequests_step:
  "solveRequests ident 0 0 force (r # rs) s =
     (if unsolved ident s r \<and> \<not> force then Inr (True, True, with_target ident s r # rs, s\<lparr>code := NoError\<rparr>)
      else res_bind (solveRequests ident 0 0 force rs (if unsolved ident s r then s\<lparr>code := NoError\<rparr> else s))
             (\<lambda>(stop, err, rs', s'). Inr (stop, err \<or> unsolved ident s r, with_target ident s r # rs', s')))"
proof (cases "rq_symbol r")
  case None
  then have "with_target ident s r = r" "\<not> unsolved ident s r"
    by (simp_all add: with_target_def request_target_def unsolved_def)
  then show ?thesis using None by simp
next
  case (Some y)
  then have "unsolved ident s r \<longleftrightarrow> request_target ident s r = 0" by (simp add: unsolved_def)
  then show ?thesis using Some by (simp add: solveSymbol_target [OF Some] with_target_def Let_def)
qed

declare solveRequests.simps(2) [simp del]

lemma solveRequests_all:
  "\<forall>r\<in>set rs. \<not> unsolved ident s r \<Longrightarrow>
     solveRequests ident 0 0 force rs s = Inr (False, False, map (with_target ident s) rs, s)"
  by (induction rs) (simp_all add: solveRequests_step)

lemma solveRequests_some:
  "\<exists>r\<in>set rs. unsolved ident s r \<Longrightarrow>
     \<exists>rs'. solveRequests ident 0 0 False rs s = Inr (True, True, rs', s\<lparr>code := NoError\<rparr>)"
proof (induction rs)
  case (Cons r rs)
  show ?case
  proof (cases "unsolved ident s r")
    case False
    with Cons obtain rs' where "solveRequests ident 0 0 False rs s = Inr (True, True, rs', s\<lparr>code := NoError\<rparr>)" by auto
    with False show ?thesis by (simp add: solveRequests_step)
  qed (simp add: solveRequests_step)
qed simp

text \<open>A batch of route requests that may not be forced is all or nothing as far as its symbols go:
  if one of them cannot be solved, the call reports failure and the whole patcher state, kernel
  memory included, is as before but for a cleared error code.\<close>

theorem routeMultiple_unsolved:
  assumes "r \<in> set requests" and "unsolved ident s r"
  shows "\<exists>requests'. routeMultipleInternal ident requests 0 0 kernelRoute False jump s
    = Inr (False, requests', s\<lparr>code := NoError\<rparr>)"
proof -
  from assms obtain rs' where "solveRequests ident 0 0 False requests s = Inr (True, True, rs', s\<lparr>code := NoError\<rparr>)"
    using solveRequests_some [of requests ident s] by blast
  then show ?thesis by (simp add: routeMultipleInternal_def)
qed

theorem routeMultiple_unsolved_witness:
  "\<exists>requests'. routeMultipleInternal 0
      [\<lparr>rq_symbol = Some ''_kmod'', rq_from = 0, rq_to = 0x2000, rq_org = None\<rparr>,
       \<lparr>rq_symbol = Some ''_none'', rq_from = 0, rq_to = 0x2000, rq_org = None\<rparr>] 0 0 True False Auto
      (demo_kp\<lparr>kmem := demo_linkedit\<rparr>) = Inr (False, requests', demo_kp\<lparr>kmem := demo_linkedit, code := NoError\<rparr>)"
proof -
  have "unsolved 0 (demo_kp\<lparr>kmem := demo_linkedit\<rparr>)
     \<lparr>rq_symbol = Some ''_none'', rq_from = 0, rq_to = 0x2000, rq_org = None\<rparr>" by code_simp
  from routeMultiple_unsolved [OF _ this, of
      "[\<lparr>rq_symbol = Some ''_kmod'', rq_from = 0, rq_to = 0x2000, rq_org = None\<rparr>,
       \<lparr>rq_symbol = Some ''_none'', rq_from = 0, rq_to = 0x2000, rq_org = None\<rparr>]"]
  show ?thesis by simp
qed

lemma undecodable_any: "instSizeAt m a = 0 \<Longrightarrow> 0 < n \<Longrightarrow> quickInstructionSize m a n = 0"
  using hde64_disasm_pos [of m a]
  by (subst quickInstructionSize_def, subst quickSizeLoop.simps) (auto simp: instSizeAt_eq Let_def split: if_splits)

lemma erase_undecodable: "instSizeAt (kmem s) a = 0 \<Longrightarrow> eraseCoverageInstPrefix a n limit s = s"
  by (cases n) (simp_all add: eraseCoverageInstPrefix_def)

lemma routeMultiple_single:
  assumes "unsolved ident s r = False" and "request_target ident s r \<noteq> 0" and "ident < length (kinfos s)"
    and "rq_to r \<noteq> 0"
    and "routeFunctionInternal quickInstructionSize (request_target ident s r) (rq_to r) (rq_org r \<noteq> None) kernelRoute
           True jump (Some ident) (rq_org r) (eraseCoverageInstPrefix (request_target ident s r) 5 (int LongJump) s)
         = Inr (wrapper, s')"
    and "kinfos (eraseCoverageInstPrefix (request_target ident s r) 5 (int LongJump) s) = kinfos s"
    and "(rq_org r \<noteq> None) = (wrapper \<noteq> 0)"
  shows "routeMultipleInternal ident [r] 0 0 kernelRoute force jump s = Inr (True, [with_target ident s r], s')"
proof -
  have "solveRequests ident 0 0 force [r] s = Inr (False, False, [with_target ident s r], s)"
    using solveRequests_all [of "[r]" ident s force] assms(1) by simp
  moreover have "routeRequest1 ident kernelRoute jump (with_target ident s r) s = Inr (True, s')"
    using assms by (simp add: routeRequest1_def with_target_def Let_def)
  ultimately show ?thesis using assms(2) by (simp add: routeMultipleInternal_def with_target_def)
qed


text \<open>C7: a request to wrap a function that does not decode is reported as done.  Nothing is routed,
  the caller's pointer is not written and the error code says \<open>DisasmFailure\<close>, but the batch returns
  success: the error number of the failed route is taken for the address of a wrapper.\<close>

theorem routeMultiple_undecodable:
  assumes "bare_metal s" and "\<not> unsolved ident s r" and "request_target ident s r = frm" and "frm \<noteq> 0"
    and "ident < length (kinfos s)" and "rq_to r \<noteq> 0" and "rq_org r = Some o1"
    and "instSizeAt (kmem s) frm = 0" and "fst (readChain (kmem s) frm) = 0"
  shows "\<exists>s'. routeMultipleInternal ident [r] 0 0 True force Auto s = Inr (True, [r\<lparr>rq_from := frm\<rparr>], s')
    \<and> kmem s' = kmem s \<and> code s' = DisasmFailure"
proof -
  obtain slot s1 where sl: "slotFor Auto (jumpTooFar frm (rq_to r) \<or> Auto = Long) (Some ident) s = (slot, s1)"
    by (cases "slotFor Auto (jumpTooFar frm (rq_to r) \<or> Auto = Long) (Some ident) s")
  have q: "quickInstructionSize (kmem s) frm (route_length (jumpTooFar frm (rq_to r) \<or> Auto = Long) slot) = 0"
    using assms(8) by (intro undecodable_any) (simp_all add: route_length_def jump_consts)
  have ab: "slot \<noteq> 0 \<Longrightarrow> jumpTooFar frm (rq_to r) \<or> Auto = Long"
    using sl by (auto simp: slotFor_def split: if_splits)
  from routeFunction_undecodable_by [where qis = quickInstructionSize and kr = True and rv = True and org = "rq_org r",
      OF assms(1,9) _ sl q ab]
  obtain s' where r: "routeFunctionInternal quickInstructionSize frm (rq_to r) True True True Auto (Some ident) (rq_org r) s
      = Inr (EINVAL, s')" "kmem s' = kmem s" "code s' = DisasmFailure" by auto
  have "routeMultipleInternal ident [r] 0 0 True force Auto s = Inr (True, [with_target ident s r], s')"
    using assms r(1) by (intro routeMultiple_single [where wrapper = EINVAL]) (simp_all add: erase_undecodable EINVAL_def)
  with r assms(3) show ?thesis by (simp add: with_target_def)
qed

text \<open>A kernel image at work: its symbol table, and the function \<open>_kmod\<close> of that table at \<open>0x3000\<close>.\<close>

definition demo_image_kp :: "byte list \<Rightarrow> kpatcher" where
  "demo_image_kp f = demo_kp\<lparr>kmem := store_bytes demo_linkedit 0x3000 f\<rparr>"

definition demo_request :: routeRequest where
  "demo_request = \<lparr>rq_symbol = Some ''_kmod'', rq_from = 0, rq_to = 0x2000, rq_org = Some 0x4000\<rparr>"

theorem routeMultiple_undecodable_witness:
  "\<exists>s'. routeMultipleInternal 0 [demo_request] 0 0 True False Auto (demo_image_kp [6])
        = Inr (True, [demo_request\<lparr>rq_from := 0x3000\<rparr>], s') \<and> load64 (kmem s') 0x4000 = 0 \<and> code s' = DisasmFailure"
proof -
  let ?s = "demo_image_kp [6]"
  have b: "bare_metal ?s" using demo_kp_ready by (simp add: route_ready_def bare_metal_def demo_image_kp_def)
  have h: "\<not> unsolved 0 ?s demo_request" "request_target 0 ?s demo_request = 0x3000" by code_simp+
  have i: "(0x3000 :: addr) \<noteq> 0" "0 < length (kinfos ?s)" "rq_to demo_request \<noteq> 0" "rq_org demo_request = Some 0x4000"
    by (simp_all add: demo_image_kp_def demo_kp_def demo_request_def)
  have j: "instSizeAt (kmem ?s) 0x3000 = 0" "fst (readChain (kmem ?s) 0x3000) = 0" by code_simp+
  have "load64 (kmem ?s) 0x4000 = 0" by code_simp
  with routeMultiple_undecodable [OF b h i j, of False] show ?thesis by auto
qed

lemma eraseLoop_none:
  "filter (counter_at (kmem s)) (visited (kmem s) n a limit acc) = [] \<Longrightarrow> eraseLoop n a limit acc s = s"
proof (induction n arbitrary: a acc)
  case (Suc n)
  then show ?case by (auto simp: Let_def counter_at_def split: if_splits)
qed simp

lemma unat_above:
  fixes a b :: addr
  assumes "i < 4096" and "unat (a - b) \<le> 2 ^ 40"
  shows "unat (a + of_nat i - b) = unat (a - b) + i"
proof -
  have "unat ((a - b) + of_nat i) = unat (a - b) + i"
    using assms by (subst unat_add_small64) (simp_all add: unat_of_nat_small64)
  then show ?thesis by (simp add: algebra_simps)
qed

lemma demo_image_clear: "temp_clear (demo_image_kp [0x55])"
  unfolding temp_clear_def
proof (intro allI impI)
  fix i assume "tempExecutableMemoryOff (demo_image_kp [0x55]) \<le> i \<and> i < TempExecutableMemorySize"
  then have i: "i < 4096" by (simp add: TempExecutableMemorySize_def)
  have "store_bytes demo_linkedit 0x3000 [0x55] (0x100000 + of_nat i) = 0"
    unfolding demo_linkedit_def
    using unat_above [OF i, of "0x100000" "0x3000"] unat_above [OF i, of "0x100000" "0x10000"]
    by (simp add: store_bytes_other)
  then show "kmem (demo_image_kp [0x55]) (tempExecutableMemory (demo_image_kp [0x55]) + of_nat i) = 0"
    by (simp add: demo_image_kp_def demo_kp_def)
qed


end
