(* ===== verification/Kern_Kext.thy ===== *)
theory Kern_Kext
  imports Kern_Route
begin

text \<open>
  Kext listening of \<open>KernelPatcher\<close> (\<^verbatim>\<open>Lilu/Lilu/Sources/kern_patcher.cpp\<close>): the queue of kext handlers, the
  two kernel functions that are hooked to learn of loads and unloads, and the processing of a loaded
  kext.  The kernel's list of modules is the linked list of \<open>kmod_info_t\<close> in kernel memory.  The
  listener's private fields and the statics of the kernel base search form \<open>klisten\<close>; a handler's
  callback is a parameter that acts on the patcher state, and so are the kernel's own functions.  A
  kernel base search that finds no header never returns; it is the panic \<open>stuck\<close>.
\<close>

section \<open>Handlers and state\<close>

record kextHandler =
  h_id :: string
  h_index :: nat
  h_address :: addr
  h_size :: u64
  h_loaded :: bool
  h_reloadable :: bool

definition create_handler :: "string \<Rightarrow> nat \<Rightarrow> bool \<Rightarrow> bool \<Rightarrow> kextHandler" where
  "create_handler i idx l r =
     \<lparr>h_id = i, h_index = idx, h_address = 0, h_size = 0, h_loaded = l, h_reloadable = r\<rparr>"

record klisten =
  khandlers :: "kextHandler evector"
  waitingForAlreadyLoadedKexts :: bool
  isKextUnloading :: bool
  activated :: bool
  that :: bool
  kextKmods :: addr
  kl_base :: kbase

type_synonym 'a callback = "kextHandler \<Rightarrow> kbase \<Rightarrow> 'a kpatcher_scheme \<Rightarrow> (kbase \<times> 'a kpatcher_scheme) res"

text \<open>\<open>kmod_info_t\<close>, packed to four bytes.\<close>

definition kmod_next :: "mem \<Rightarrow> addr \<Rightarrow> addr" where "kmod_next m kmod = load64 m kmod"
definition kmod_name :: "addr \<Rightarrow> addr" where "kmod_name kmod = kmod + 16"
definition kmod_address :: "mem \<Rightarrow> addr \<Rightarrow> addr" where "kmod_address m kmod = load64 m (kmod + 156)"
definition kmod_size :: "mem \<Rightarrow> addr \<Rightarrow> u64" where "kmod_size m kmod = load64 m (kmod + 164)"
definition KMOD_MAX_NAME :: nat where "KMOD_MAX_NAME = 64"

section \<open>Queueing\<close>

definition setupKextListening ::
  "addr \<Rightarrow> addr \<Rightarrow> addr \<Rightarrow> addr \<Rightarrow> klisten \<Rightarrow> 'a kpatcher_scheme \<Rightarrow> (klisten \<times> 'a kpatcher_scheme) res" where
  "setupKextListening onUnload orgUnload onSave orgSave kl s =
     (if that kl then Inr (kl, s)
      else
        let (kmods, s1) = solveSymbol KernelID ''_kmod'' s;
            kl1 = kl\<lparr>kextKmods := kmods\<rparr>
        in if kmods = 0 then Inr (kl1, s1\<lparr>code := NoSymbolFound\<rparr>)
           else
             res_bind (routeMultiple KernelID
                 [\<lparr>rq_symbol = Some ''__ZN6OSKext6unloadEv'', rq_from = 0, rq_to = onUnload, rq_org = Some orgUnload\<rparr>,
                  \<lparr>rq_symbol = Some ''__ZN6OSKext23saveLoadedKextPanicListEv'', rq_from = 0, rq_to = onSave,
                   rq_org = Some orgSave\<rparr>] 0 0 True False s1)
               (\<lambda>(ok, rs, s2).
                  if \<not> ok then Inr (kl1, s2)
                  else Inr (if code s2 = NoError then kl1\<lparr>that := True\<rparr> else kl1, s2)))"

definition waitOnKext :: "kextHandler \<Rightarrow> klisten \<Rightarrow> 'a kpatcher_scheme \<Rightarrow> klisten \<times> 'a kpatcher_scheme" where
  "waitOnKext h kl s =
     (if \<not> that kl then (kl, s\<lparr>code := KextListeningFailure\<rparr>)
      else
        let kl1 = (if h_loaded h then kl\<lparr>waitingForAlreadyLoadedKexts := True\<rparr> else kl);
            (ok, sc, v) = ev_push_back 2 h (allocs s) (khandlers kl1);
            s1 = s\<lparr>allocs := sc\<rparr>
        in (kl1\<lparr>khandlers := v\<rparr>, if ok then s1 else s1\<lparr>code := MemoryIssue\<rparr>))"

fun updateFeatures :: "kextinfo \<Rightarrow> kextHandler list \<Rightarrow> kextHandler list" where
  "updateFeatures info [] = []"
| "updateFeatures info (h # hs) =
     (if h_id h = ki_id info
      then h\<lparr>h_loaded := h_loaded h \<or> ki_loaded info, h_reloadable := h_reloadable h \<or> ki_reloadable info\<rparr> # hs
      else h # updateFeatures info hs)"

definition updateKextHandlerFeatures :: "kextinfo \<Rightarrow> klisten \<Rightarrow> klisten" where
  "updateKextHandlerFeatures info kl =
     kl\<lparr>khandlers := (khandlers kl)\<lparr>ev_items := updateFeatures info (ev_items (khandlers kl))\<rparr>\<rparr>"

section \<open>Processing a kext\<close>

definition runHandler ::
  "'a callback \<Rightarrow> nat \<Rightarrow> kextHandler \<Rightarrow> klisten \<Rightarrow> 'a kpatcher_scheme \<Rightarrow> (klisten \<times> 'a kpatcher_scheme) res" where
  "runHandler invoke i h kl s =
     (let kl1 = kl\<lparr>khandlers := (khandlers kl)\<lparr>ev_items := (ev_items (khandlers kl))[i := h]\<rparr>\<rparr>
      in res_bind (invoke h (kl_base kl1) s)
           (\<lambda>(st, s1).
              let kl2 = kl1\<lparr>kl_base := st\<rparr>
              in if \<not> h_reloadable h then
                   res_bind (ev_erase i True (khandlers kl2)) (\<lambda>v. Inr (kl2\<lparr>khandlers := v\<rparr>, s1))
                 else Inr (kl2, s1)))"

fun processLoop ::
  "nat \<Rightarrow> addr \<Rightarrow> 'a callback \<Rightarrow> addr \<Rightarrow> bool \<Rightarrow> nat \<Rightarrow> kextHandler list \<Rightarrow> klisten \<Rightarrow> 'a kpatcher_scheme
    \<Rightarrow> (klisten \<times> 'a kpatcher_scheme) res" where
  "processLoop kver IOLog invoke kmod loaded i [] kl s = Inr (kl, s)"
| "processLoop kver IOLog invoke kmod loaded i (h # hs) kl s =
     (if loaded \<and> \<not> h_loaded h then processLoop kver IOLog invoke kmod loaded (Suc i) hs kl s
      else if strncmp_eq (cbytes (h_id h)) (kmem s) (kmod_name kmod) KMOD_MAX_NAME then
        (if h_index h \<ge> length (kinfos s) then Inl (Panic ''kinfos'')
         else case isCurrentBinary kver (kmem s) IOLog (kmod_address (kmem s) kmod) (kl_base kl) (kinfos s ! h_index h) of
                None \<Rightarrow> Inl (Panic ''stuck'')
              | Some (cur, st, info) \<Rightarrow>
                  let kl1 = kl\<lparr>kl_base := st\<rparr>; s1 = s\<lparr>kinfos := (kinfos s)[h_index h := info]\<rparr>
                  in if \<not> cur then processLoop kver IOLog invoke kmod loaded (Suc i) hs kl1 s1
                     else runHandler invoke i
                            (h\<lparr>h_address := kmod_address (kmem s) kmod, h_size := kmod_size (kmem s) kmod\<rparr>) kl1 s1)
      else processLoop kver IOLog invoke kmod loaded (Suc i) hs kl s)"

definition processKext ::
  "nat \<Rightarrow> addr \<Rightarrow> 'a callback \<Rightarrow> addr \<Rightarrow> bool \<Rightarrow> klisten \<Rightarrow> 'a kpatcher_scheme \<Rightarrow> (klisten \<times> 'a kpatcher_scheme) res" where
  "processKext kver IOLog invoke kmod loaded kl s =
     processLoop kver IOLog invoke kmod loaded 0 (ev_items (khandlers kl)) kl s"

partial_function (option) walkKmods ::
  "nat \<Rightarrow> addr \<Rightarrow> 'a callback \<Rightarrow> addr \<Rightarrow> klisten \<Rightarrow> 'a kpatcher_scheme \<Rightarrow> (klisten \<times> 'a kpatcher_scheme) res option" where
  "walkKmods kver IOLog invoke kmod kl s =
     (if kmod = 0 then Some (Inr (kl, s))
      else case processKext kver IOLog invoke kmod True kl s of
             Inl e \<Rightarrow> Some (Inl e)
           | Inr (kl1, s1) \<Rightarrow> walkKmods kver IOLog invoke (kmod_next (kmem s1) kmod) kl1 s1)"

definition processAlreadyLoadedKexts where
  "processAlreadyLoadedKexts kver IOLog invoke kl s =
     walkKmods kver IOLog invoke (load64 (kmem s) (kextKmods kl)) kl s"

text \<open>Both callers clear the flag once the loaded kexts are processed.\<close>

definition processWaiting where
  "processWaiting kver IOLog invoke kl s =
     (case processAlreadyLoadedKexts kver IOLog invoke kl s of
        None \<Rightarrow> None
      | Some (Inl e) \<Rightarrow> Some (Inl e)
      | Some (Inr (kl1, s1)) \<Rightarrow> Some (Inr (kl1\<lparr>waitingForAlreadyLoadedKexts := False\<rparr>, s1)))"

definition activate ::
  "nat \<Rightarrow> addr \<Rightarrow> 'a callback \<Rightarrow> klisten \<Rightarrow> 'a kpatcher_scheme \<Rightarrow> (klisten \<times> 'a kpatcher_scheme) res option" where
  "activate kver IOLog invoke kl s =
     (case (if kver \<ge> BigSur \<and> waitingForAlreadyLoadedKexts kl then processWaiting kver IOLog invoke kl s
            else Some (Inr (kl, s))) of
        None \<Rightarrow> None
      | Some (Inl e) \<Rightarrow> Some (Inl e)
      | Some (Inr (kl1, s1)) \<Rightarrow> Some (Inr (kl1\<lparr>activated := True\<rparr>, s1)))"

section \<open>The hooked kernel functions\<close>

definition onOSKextSaveLoadedKextPanicList ::
  "nat \<Rightarrow> addr \<Rightarrow> 'a callback \<Rightarrow> ('a kpatcher_scheme \<Rightarrow> 'a kpatcher_scheme) \<Rightarrow> klisten \<Rightarrow> 'a kpatcher_scheme
    \<Rightarrow> (klisten \<times> 'a kpatcher_scheme) res option" where
  "onOSKextSaveLoadedKextPanicList kver IOLog invoke org kl s =
     (if \<not> that kl \<or> \<not> activated kl then Some (Inr (kl, s))
      else
        let s1 = org s
        in if isKextUnloading kl then Some (Inr (kl, s1))
           else if waitingForAlreadyLoadedKexts kl then processWaiting kver IOLog invoke kl s1
           else
             let kmod = load64 (kmem s1) (kextKmods kl)
             in if kmod \<noteq> 0 then Some (processKext kver IOLog invoke kmod False kl s1) else Some (Inr (kl, s1)))"

definition kOSReturnError :: int where "kOSReturnError = 0xDC000001 - 2 ^ 32"

definition onOSKextUnload ::
  "(klisten \<Rightarrow> 'a kpatcher_scheme \<Rightarrow> (int \<times> klisten \<times> 'a kpatcher_scheme) res option) \<Rightarrow> klisten \<Rightarrow> 'a kpatcher_scheme
    \<Rightarrow> (int \<times> klisten \<times> 'a kpatcher_scheme) res option" where
  "onOSKextUnload org kl s =
     (if that kl then
        (case org (kl\<lparr>isKextUnloading := True\<rparr>) s of
           None \<Rightarrow> None
         | Some (Inl e) \<Rightarrow> Some (Inl e)
         | Some (Inr (status, kl1, s1)) \<Rightarrow> Some (Inr (status, kl1\<lparr>isKextUnloading := False\<rparr>, s1)))
      else Some (Inr (kOSReturnError, kl, s)))"

section \<open>Which handler is run\<close>

definition is_current :: "nat \<Rightarrow> mem \<Rightarrow> addr \<Rightarrow> machinfo \<Rightarrow> bool" where
  "is_current kver m a info \<longleftrightarrow> kernel_collection info \<or> kver < Leopard
     \<or> (case getUUID m a of None \<Rightarrow> False
        | Some p \<Rightarrow> fst (self_uuid info) = load64 m p \<and> snd (self_uuid info) = load64 m (p + 8))"

lemma isCurrentBinary_known:
  "a \<noteq> 0 \<Longrightarrow> isCurrentBinary kver m IOLog a st info = Some (is_current kver m a info, st, info)"
  by (auto simp: isCurrentBinary_def is_current_def baseOr_def)

text \<open>A handler takes a kext if it listens to it, the names match, and the running binary is the one the
  handler's symbols come from.\<close>

definition takes :: "nat \<Rightarrow> 'a kpatcher_scheme \<Rightarrow> addr \<Rightarrow> bool \<Rightarrow> kextHandler \<Rightarrow> bool" where
  "takes kver s kmod loaded h \<longleftrightarrow> (loaded \<longrightarrow> h_loaded h)
     \<and> strncmp_eq (cbytes (h_id h)) (kmem s) (kmod_name kmod) KMOD_MAX_NAME
     \<and> is_current kver (kmem s) (kmod_address (kmem s) kmod) (kinfos s ! h_index h)"

definition placed :: "mem \<Rightarrow> addr \<Rightarrow> kextHandler \<Rightarrow> kextHandler" where
  "placed m kmod h = h\<lparr>h_address := kmod_address m kmod, h_size := kmod_size m kmod\<rparr>"

lemma processLoop_step:
  assumes "kmod_address (kmem s) kmod \<noteq> 0" and "h_index h < length (kinfos s)"
  shows "processLoop kver IOLog invoke kmod loaded i (h # hs) kl s =
    (if takes kver s kmod loaded h then runHandler invoke i (placed (kmem s) kmod h) kl s
     else processLoop kver IOLog invoke kmod loaded (Suc i) hs kl s)"
  using assms by (auto simp: takes_def placed_def isCurrentBinary_known Let_def)

declare processLoop.simps(2) [simp del]

lemma processLoop_none:
  assumes "kmod_address (kmem s) kmod \<noteq> 0"
  shows "\<forall>h\<in>set hs. h_index h < length (kinfos s) \<and> \<not> takes kver s kmod loaded h \<Longrightarrow>
    processLoop kver IOLog invoke kmod loaded i hs kl s = Inr (kl, s)"
  by (induction hs arbitrary: i) (simp_all add: processLoop_step [OF assms])

lemma processLoop_first:
  assumes "kmod_address (kmem s) kmod \<noteq> 0"
  shows "\<forall>h\<in>set hs. h_index h < length (kinfos s) \<Longrightarrow> j < length hs \<Longrightarrow> takes kver s kmod loaded (hs ! j)
    \<Longrightarrow> \<forall>k < j. \<not> takes kver s kmod loaded (hs ! k) \<Longrightarrow>
    processLoop kver IOLog invoke kmod loaded i hs kl s = runHandler invoke (i + j) (placed (kmem s) kmod (hs ! j)) kl s"
proof (induction hs arbitrary: i j)
  case (Cons h hs)
  show ?case
  proof (cases j)
    case 0
    with Cons.prems show ?thesis by (simp add: processLoop_step [OF assms])
  next
    case (Suc k)
    have "\<not> takes kver s kmod loaded h" using Cons.prems(4) Suc by force
    moreover have "\<forall>k' < k. \<not> takes kver s kmod loaded (hs ! k')" using Cons.prems(4) Suc by force
    ultimately show ?thesis using Cons Suc by (simp add: processLoop_step [OF assms])
  qed
qed simp

lemma runHandler_ok:
  assumes "invoke h (kl_base kl) s = Inr (st, s')" and i: "i < ev_size (khandlers kl)"
  obtains kl' where "runHandler invoke i h kl s = Inr (kl', s')"
    "ev_items (khandlers kl') = (if h_reloadable h then (ev_items (khandlers kl))[i := h]
       else take i (ev_items (khandlers kl)) @ drop (Suc i) (ev_items (khandlers kl)))"
    "kl' = kl\<lparr>khandlers := khandlers kl', kl_base := st\<rparr>" "ev_ok (khandlers kl) \<longrightarrow> ev_ok (khandlers kl')"
proof (cases "h_reloadable h")
  case True
  with assms show thesis
    by (intro that [of "kl\<lparr>khandlers := (khandlers kl)\<lparr>ev_items := (ev_items (khandlers kl))[i := h]\<rparr>, kl_base := st\<rparr>"])
       (simp_all add: runHandler_def ev_ok_def ev_size_def Let_def)
next
  case False
  let ?v = "(khandlers kl)\<lparr>ev_items := (ev_items (khandlers kl))[i := h]\<rparr>"
  have "i < ev_size ?v" using i by (simp add: ev_size_def)
  then obtain w where w: "ev_erase i True ?v = Inr w" "ev_items w = take i (ev_items ?v) @ drop (Suc i) (ev_items ?v)"
    "ev_ok ?v \<longrightarrow> ev_ok w" by (rule ev_erase_ok [where free = True])
  have "ev_ok (khandlers kl) \<longrightarrow> ev_ok ?v" by (simp add: ev_ok_def ev_size_def)
  with w False assms(1) show thesis
    by (intro that [of "kl\<lparr>khandlers := w, kl_base := st\<rparr>"]) (simp_all add: runHandler_def Let_def)
qed

section \<open>The list of loaded kexts\<close>

fun kmod_chain :: "mem \<Rightarrow> addr \<Rightarrow> addr list \<Rightarrow> bool" where
  "kmod_chain m a [] \<longleftrightarrow> a = 0"
| "kmod_chain m a (k # ks) \<longleftrightarrow> a = k \<and> k \<noteq> 0 \<and> kmod_chain m (kmod_next m k) ks"

fun offer_all ::
  "nat \<Rightarrow> addr \<Rightarrow> 'a callback \<Rightarrow> addr list \<Rightarrow> klisten \<Rightarrow> 'a kpatcher_scheme \<Rightarrow> (klisten \<times> 'a kpatcher_scheme) res" where
  "offer_all kver IOLog invoke [] kl s = Inr (kl, s)"
| "offer_all kver IOLog invoke (k # ks) kl s =
     res_bind (processKext kver IOLog invoke k True kl s) (\<lambda>(kl1, s1). offer_all kver IOLog invoke ks kl1 s1)"

text \<open>Callbacks that leave the links of the kernel's module list alone.\<close>

definition keeps_links :: "'a callback \<Rightarrow> addr list \<Rightarrow> bool" where
  "keeps_links invoke ks \<longleftrightarrow> (\<forall>h st s st' s'. invoke h st s = Inr (st', s') \<longrightarrow>
     (\<forall>k\<in>set ks. kmod_next (kmem s') k = kmod_next (kmem s) k))"

lemma runHandler_invoke:
  assumes "runHandler invoke i h kl s = Inr (kl', s')"
  obtains st where "invoke h (kl_base kl) s = Inr (st, s')"
proof (cases "invoke h (kl_base kl) s")
  case (Inl e)
  with assms show thesis by (simp add: runHandler_def Let_def)
next
  case (Inr r)
  obtain st s1 where r: "r = (st, s1)" by (cases r)
  have "s1 = s'" using assms Inr r
    by (cases "h_reloadable h") (auto simp: runHandler_def Let_def res_bind_eq_Inr)
  with Inr r that show thesis by simp
qed

lemma runHandler_links:
  assumes "keeps_links invoke ks" and "runHandler invoke i h kl s = Inr (kl', s')" and "k \<in> set ks"
  shows "kmod_next (kmem s') k = kmod_next (kmem s) k"
proof -
  from assms(2) obtain st where "invoke h (kl_base kl) s = Inr (st, s')" by (rule runHandler_invoke)
  with assms(1,3) show ?thesis unfolding keeps_links_def by blast
qed

lemma processLoop_links:
  assumes "keeps_links invoke ks" and "k \<in> set ks"
  shows "processLoop kver IOLog invoke kmod loaded i hs kl s = Inr (kl', s') \<Longrightarrow>
    kmod_next (kmem s') k = kmod_next (kmem s) k"
proof (induction hs arbitrary: i kl s)
  case (Cons h hs)
  let ?n = "strncmp_eq (cbytes (h_id h)) (kmem s) (kmod_name kmod) KMOD_MAX_NAME"
  show ?case
  proof (cases "(loaded \<and> \<not> h_loaded h) \<or> \<not> ?n")
    case True
    with Cons.prems have "processLoop kver IOLog invoke kmod loaded (Suc i) hs kl s = Inr (kl', s')"
      by (auto simp: processLoop.simps(2) split: if_splits)
    then show ?thesis by (rule Cons.IH)
  next
    case False
    then obtain cur st info where c:
      "isCurrentBinary kver (kmem s) IOLog (kmod_address (kmem s) kmod) (kl_base kl) (kinfos s ! h_index h) = Some (cur, st, info)"
      using Cons.prems by (auto simp: processLoop.simps(2) split: if_splits option.splits)
    let ?s = "s\<lparr>kinfos := (kinfos s)[h_index h := info]\<rparr>"
    have "kmod_next (kmem s') k = kmod_next (kmem ?s) k"
      using Cons.prems Cons.IH [of "Suc i" "kl\<lparr>kl_base := st\<rparr>" ?s] runHandler_links [OF assms(1) _ assms(2)] False c
      by (auto simp: processLoop.simps(2) Let_def split: if_splits)
    then show ?thesis by simp
  qed
qed simp

lemma kmod_chain_cong:
  "\<forall>k\<in>set ks. kmod_next m k = kmod_next m' k \<Longrightarrow> kmod_chain m a ks \<longleftrightarrow> kmod_chain m' a ks"
  by (induction ks arbitrary: a) auto

lemma walkKmods_step:
  "a \<noteq> 0 \<Longrightarrow> processKext kver IOLog invoke a True kl s = Inr (kl1, s1) \<Longrightarrow>
     walkKmods kver IOLog invoke a kl s = walkKmods kver IOLog invoke (kmod_next (kmem s1) a) kl1 s1"
  by (subst walkKmods.simps) simp

lemma walkKmods_chain:
  assumes "keeps_links invoke ks"
  shows "set ks' \<subseteq> set ks \<Longrightarrow> kmod_chain (kmem s) a ks' \<Longrightarrow>
    walkKmods kver IOLog invoke a kl s = Some (offer_all kver IOLog invoke ks' kl s)"
proof (induction ks' arbitrary: a kl s)
  case Nil
  then show ?case by (subst walkKmods.simps) simp
next
  case (Cons k ks')
  then have a: "a = k" "k \<noteq> 0" "k \<in> set ks" "set ks' \<subseteq> set ks" and c: "kmod_chain (kmem s) (kmod_next (kmem s) k) ks'"
    by auto
  show ?case
  proof (cases "processKext kver IOLog invoke k True kl s")
    case (Inl e)
    with a show ?thesis by (subst walkKmods.simps) simp
  next
    case (Inr r)
    obtain kl1 s1 where r: "r = (kl1, s1)" by (cases r)
    have l: "kmod_next (kmem s1) k' = kmod_next (kmem s) k'" if "k' \<in> set ks" for k'
      by (rule processLoop_links [OF assms that Inr [unfolded r processKext_def]])
    have "kmod_chain (kmem s1) (kmod_next (kmem s1) k) ks'"
      using c l a by (subst kmod_chain_cong [of ks' "kmem s1" "kmem s"]) (auto simp: subset_iff)
    from Cons.IH [OF a(4) this] walkKmods_step [OF a(2) Inr [unfolded r]]
    show ?thesis unfolding a(1) using Inr r by simp
  qed
qed

section \<open>Properties\<close>

text \<open>C21: a kext that is loaded is offered to the queue in order, and the first handler that takes it is
  run exactly once, with the address and size of the kext.  A handler that is not reloadable leaves the
  queue, a reloadable one stays; the other handlers, and all handlers if none takes the kext, keep
  their places.\<close>

theorem processKext_first:
  fixes kl :: klisten
  defines "hs \<equiv> ev_items (khandlers kl)"
  assumes "kmod_address (kmem s) kmod \<noteq> 0" and "\<forall>h\<in>set hs. h_index h < length (kinfos s)"
    and "j < length hs" and "takes kver s kmod loaded (hs ! j)" and "\<forall>k < j. \<not> takes kver s kmod loaded (hs ! k)"
    and "invoke (placed (kmem s) kmod (hs ! j)) (kl_base kl) s = Inr (st, s')"
  shows "\<exists>v. processKext kver IOLog invoke kmod loaded kl s = Inr (kl\<lparr>khandlers := v, kl_base := st\<rparr>, s')
    \<and> ev_items v = (if h_reloadable (hs ! j) then hs[j := placed (kmem s) kmod (hs ! j)]
                     else take j hs @ drop (Suc j) hs)"
proof -
  have "processKext kver IOLog invoke kmod loaded kl s = runHandler invoke j (placed (kmem s) kmod (hs ! j)) kl s"
    unfolding processKext_def using processLoop_first [OF assms(2) assms(3-6), of IOLog invoke 0 kl] by (simp add: hs_def)
  moreover have "j < ev_size (khandlers kl)" using assms(4) by (simp add: ev_size_def hs_def)
  moreover obtain kl' where "runHandler invoke j (placed (kmem s) kmod (hs ! j)) kl s = Inr (kl', s')"
    "ev_items (khandlers kl') = (if h_reloadable (placed (kmem s) kmod (hs ! j)) then hs[j := placed (kmem s) kmod (hs ! j)]
       else take j hs @ drop (Suc j) hs)" "kl' = kl\<lparr>khandlers := khandlers kl', kl_base := st\<rparr>"
    using runHandler_ok [where invoke = invoke and i = j and kl = kl, OF assms(7) calculation(2)] unfolding hs_def by blast
  ultimately show ?thesis by (intro exI [of _ "khandlers kl'"]) (simp add: placed_def)
qed


text \<open>Nothing is done for a kext before the patcher is activated, and while a kext is being unloaded
  only the kernel's own bookkeeping runs: no handler is called and the queue stays as it is.\<close>

theorem onOSKextSaveLoadedKextPanicList_quiet:
  assumes "\<not> activated kl \<or> isKextUnloading kl"
  shows "onOSKextSaveLoadedKextPanicList kver IOLog invoke org kl s
    = Some (Inr (kl, if that kl \<and> activated kl then org s else s))"
  using assms by (auto simp: onOSKextSaveLoadedKextPanicList_def Let_def)

section \<open>Reachable states of the listener\<close>

lemma runHandler_frame:
  assumes "runHandler invoke i h kl s = Inr (kl', s')" and "i < ev_size (khandlers kl)"
  shows "\<exists>v st. kl' = kl\<lparr>khandlers := v, kl_base := st\<rparr> \<and> (ev_ok (khandlers kl) \<longrightarrow> ev_ok v)"
proof -
  from assms(1) obtain st where st: "invoke h (kl_base kl) s = Inr (st, s')" by (rule runHandler_invoke)
  from runHandler_ok [where invoke = invoke, OF st assms(2)] assms(1) show ?thesis by (metis Inr_inject prod.inject)
qed

lemma processLoop_frame:
  "processLoop kver IOLog invoke kmod loaded i hs kl s = Inr (kl', s') \<Longrightarrow> i + length hs = ev_size (khandlers kl) \<Longrightarrow>
    \<exists>v st. kl' = kl\<lparr>khandlers := v, kl_base := st\<rparr> \<and> (ev_ok (khandlers kl) \<longrightarrow> ev_ok v)"
proof (induction hs arbitrary: i kl s)
  case Nil
  then show ?case by (intro exI [of _ "khandlers kl"] exI [of _ "kl_base kl"]) simp
next
  case (Cons h hs)
  let ?n = "strncmp_eq (cbytes (h_id h)) (kmem s) (kmod_name kmod) KMOD_MAX_NAME"
  show ?case
  proof (cases "(loaded \<and> \<not> h_loaded h) \<or> \<not> ?n")
    case True
    with Cons.prems have "processLoop kver IOLog invoke kmod loaded (Suc i) hs kl s = Inr (kl', s')"
      by (auto simp: processLoop.simps(2) split: if_splits)
    then show ?thesis using Cons.IH Cons.prems(2) by simp
  next
    case False
    then obtain cur st info where c:
      "isCurrentBinary kver (kmem s) IOLog (kmod_address (kmem s) kmod) (kl_base kl) (kinfos s ! h_index h) = Some (cur, st, info)"
      using Cons.prems by (auto simp: processLoop.simps(2) split: if_splits option.splits)
    let ?s = "s\<lparr>kinfos := (kinfos s)[h_index h := info]\<rparr>" and ?kl = "kl\<lparr>kl_base := st\<rparr>"
      and ?h = "h\<lparr>h_address := kmod_address (kmem s) kmod, h_size := kmod_size (kmem s) kmod\<rparr>"
    have "if cur then runHandler invoke i ?h ?kl ?s = Inr (kl', s')
        else processLoop kver IOLog invoke kmod loaded (Suc i) hs ?kl ?s = Inr (kl', s')"
      using Cons.prems(1) False c by (auto simp: processLoop.simps(2) Let_def split: if_splits)
    then have "\<exists>v st'. kl' = ?kl\<lparr>khandlers := v, kl_base := st'\<rparr> \<and> (ev_ok (khandlers ?kl) \<longrightarrow> ev_ok v)"
      using Cons.IH [of "Suc i" ?kl ?s] Cons.prems(2) runHandler_frame [of invoke i ?h ?kl ?s]
      by (cases cur) simp_all
    then show ?thesis by auto
  qed
qed

lemma processKext_frame:
  assumes "processKext kver IOLog invoke kmod loaded kl s = Inr (kl', s')"
  shows "\<exists>v st. kl' = kl\<lparr>khandlers := v, kl_base := st\<rparr> \<and> (ev_ok (khandlers kl) \<longrightarrow> ev_ok v)"
  using processLoop_frame [OF assms [unfolded processKext_def]] by (simp add: ev_size_def)

text \<open>The invariant of the listener: the queue fits its storage, handlers are queued and loaded kexts are
  awaited only once listening is set up, and then the kernel's list is known.\<close>

definition kl_inv :: "klisten \<Rightarrow> bool" where
  "kl_inv kl \<longleftrightarrow> ev_ok (khandlers kl) \<and> (that kl \<longrightarrow> kextKmods kl \<noteq> 0)
     \<and> (waitingForAlreadyLoadedKexts kl \<or> ev_items (khandlers kl) \<noteq> [] \<longrightarrow> that kl)"

lemma processKext_inv:
  assumes "kl_inv kl" and "processKext kver IOLog invoke kmod loaded kl s = Inr (kl', s')"
  shows "kl_inv kl'"
proof (cases "that kl")
  case True
  with assms processKext_frame [OF assms(2)] show ?thesis by (auto simp: kl_inv_def)
next
  case False
  then have "ev_items (khandlers kl) = []" using assms(1) by (auto simp: kl_inv_def)
  then have "kl' = kl" using assms(2) by (simp add: processKext_def)
  with assms(1) show ?thesis by simp
qed

lemma walkKmods_inv:
  "walkKmods kver IOLog invoke kmod kl s = Some r \<Longrightarrow> kl_inv kl \<Longrightarrow> r = Inr (kl', s') \<Longrightarrow> kl_inv kl'"
proof (induction arbitrary: kl' s' rule: walkKmods.raw_induct [rotated, consumes 1, case_names step])
  case (step walk kver IOLog invoke kmod kl s r)
  show ?case
  proof (cases "kmod = 0")
    case True
    with step show ?thesis by simp
  next
    case False
    with step.hyps step.prems obtain kl1 s1 where p: "processKext kver IOLog invoke kmod True kl s = Inr (kl1, s1)"
      "walk kver IOLog invoke (kmod_next (kmem s1) kmod) kl1 s1 = Some (Inr (kl', s'))"
      by (cases "processKext kver IOLog invoke kmod True kl s") auto
    have "kl_inv kl1" by (rule processKext_inv [OF step.prems(1) p(1)])
    from step.IH [OF p(2) this refl] show ?thesis .
  qed
qed

lemma processWaiting_inv:
  assumes "kl_inv kl" and "processWaiting kver IOLog invoke kl s = Some (Inr (kl', s'))"
  shows "kl_inv kl'"
proof -
  from assms(2) obtain kl1 where "walkKmods kver IOLog invoke (load64 (kmem s) (kextKmods kl)) kl s = Some (Inr (kl1, s'))"
    "kl' = kl1\<lparr>waitingForAlreadyLoadedKexts := False\<rparr>"
    by (auto simp: processWaiting_def processAlreadyLoadedKexts_def split: option.splits sum.splits)
  moreover have "kl_inv kl1" using walkKmods_inv [OF calculation(1) assms(1) refl] .
  ultimately show ?thesis by (simp add: kl_inv_def)
qed

lemma activate_inv:
  assumes "kl_inv kl" and "activate kver IOLog invoke kl s = Some (Inr (kl', s'))"
  shows "kl_inv kl'"
proof -
  from assms(2) obtain kl1 where "(if kver \<ge> BigSur \<and> waitingForAlreadyLoadedKexts kl then processWaiting kver IOLog invoke kl s
      else Some (Inr (kl, s))) = Some (Inr (kl1, s'))" "kl' = kl1\<lparr>activated := True\<rparr>"
    by (auto simp: activate_def split: option.splits sum.splits)
  moreover have "kl_inv kl1" using calculation(1) assms(1) processWaiting_inv [OF assms(1)] by (simp split: if_splits)
  ultimately show ?thesis by (simp add: kl_inv_def)
qed

lemma onSave_inv:
  assumes "kl_inv kl" and "onOSKextSaveLoadedKextPanicList kver IOLog invoke org kl s = Some (Inr (kl', s'))"
  shows "kl_inv kl'"
proof -
  let ?kmod = "load64 (kmem (org s)) (kextKmods kl)"
  consider "kl' = kl" | "processWaiting kver IOLog invoke kl (org s) = Some (Inr (kl', s'))"
    | "processKext kver IOLog invoke ?kmod False kl (org s) = Inr (kl', s')"
    using assms(2) unfolding onOSKextSaveLoadedKextPanicList_def Let_def by (simp split: if_split_asm)
  then show ?thesis
    by cases (use assms(1) in simp, rule processWaiting_inv [OF assms(1)], assumption,
        rule processKext_inv [OF assms(1)], assumption)
qed

lemma setup_inv:
  assumes "kl_inv kl" and "setupKextListening a b c d kl s = Inr (kl', s')"
  shows "kl_inv kl'"
proof -
  obtain kmods s1 where k: "solveSymbol KernelID ''_kmod'' s = (kmods, s1)" by (cases "solveSymbol KernelID ''_kmod'' s")
  consider "kl' = kl" | "\<not> that kl" "kl' = kl\<lparr>kextKmods := kmods\<rparr>"
    | "\<not> that kl" "kmods \<noteq> 0" "kl' = kl\<lparr>kextKmods := kmods, that := True\<rparr>"
    using assms(2) unfolding setupKextListening_def k Let_def prod.case
    by (cases "that kl"; cases "kmods = 0") (auto simp: res_bind_eq_Inr split: if_split_asm)
  then show ?thesis by cases (use assms(1) in \<open>simp_all add: kl_inv_def\<close>)
qed

lemma wait_inv:
  assumes "kl_inv kl" and "waitOnKext h kl s = (kl', s')"
  shows "kl_inv kl'"
proof (cases "that kl")
  case True
  obtain ok sc v where p: "ev_push_back 2 h (allocs s) (khandlers kl) = (ok, sc, v)" by (metis prod_cases3)
  have "ev_ok v" using p assms(1) by (auto simp: kl_inv_def ev_push_back_cases ev_ok_def ev_size_def split: if_split_asm)
  moreover have "\<exists>w. kl' = kl\<lparr>waitingForAlreadyLoadedKexts := w, khandlers := v\<rparr>"
    using assms(2) p True by (cases "h_loaded h") (auto simp: waitOnKext_def Let_def intro: exI [of _ "waitingForAlreadyLoadedKexts kl"])
  ultimately show ?thesis using assms(1) True by (auto simp: kl_inv_def)
next
  case False
  with assms show ?thesis by (simp add: waitOnKext_def)
qed

lemma features_inv: "kl_inv kl \<Longrightarrow> kl_inv (updateKextHandlerFeatures info kl)"
proof -
  have "length (updateFeatures info hs) = length hs" for hs by (induction hs) auto
  moreover have "updateFeatures info hs = [] \<longleftrightarrow> hs = []" for hs by (cases hs) auto
  ultimately show "kl_inv kl \<Longrightarrow> kl_inv (updateKextHandlerFeatures info kl)"
    by (simp add: kl_inv_def updateKextHandlerFeatures_def ev_ok_def ev_size_def)
qed

inductive kstep :: "nat \<Rightarrow> addr \<Rightarrow> 'a callback \<Rightarrow> klisten \<times> 'a kpatcher_scheme \<Rightarrow> klisten \<times> 'a kpatcher_scheme \<Rightarrow> bool"
  for kver IOLog invoke where
  k_setup: "setupKextListening a b c d kl s = Inr (kl', s') \<Longrightarrow> kstep kver IOLog invoke (kl, s) (kl', s')"
| k_wait: "waitOnKext h kl s = (kl', s') \<Longrightarrow> kstep kver IOLog invoke (kl, s) (kl', s')"
| k_features: "kstep kver IOLog invoke (kl, s) (updateKextHandlerFeatures info kl, s)"
| k_activate: "activate kver IOLog invoke kl s = Some (Inr (kl', s')) \<Longrightarrow> kstep kver IOLog invoke (kl, s) (kl', s')"
| k_save: "onOSKextSaveLoadedKextPanicList kver IOLog invoke org kl s = Some (Inr (kl', s'))
    \<Longrightarrow> kstep kver IOLog invoke (kl, s) (kl', s')"
| k_unload_begin: "that kl \<Longrightarrow> kstep kver IOLog invoke (kl, s) (kl\<lparr>isKextUnloading := True\<rparr>, s)"
| k_unload_end: "that kl \<Longrightarrow> kstep kver IOLog invoke (kl, s) (kl\<lparr>isKextUnloading := False\<rparr>, s)"
| k_kernel: "kstep kver IOLog invoke (kl, s) (kl, s')"

inductive kreach :: "nat \<Rightarrow> addr \<Rightarrow> 'a callback \<Rightarrow> klisten \<times> 'a kpatcher_scheme \<Rightarrow> bool" for kver IOLog invoke where
  kreach_init: "kreach kver IOLog invoke
     (\<lparr>khandlers = ev_empty, waitingForAlreadyLoadedKexts = False, isKextUnloading = False, activated = False,
       that = False, kextKmods = 0, kl_base = (0, False)\<rparr>, s)"
| kreach_step: "kreach kver IOLog invoke c \<Longrightarrow> kstep kver IOLog invoke c c' \<Longrightarrow> kreach kver IOLog invoke c'"

lemma kstep_inv: "kstep kver IOLog invoke c c' \<Longrightarrow> kl_inv (fst c) \<Longrightarrow> kl_inv (fst c')"
proof (induction rule: kstep.induct)
  case (k_unload_begin kl s)
  then show ?case by (simp add: kl_inv_def)
next
  case (k_unload_end kl s)
  then show ?case by (simp add: kl_inv_def)
qed (auto intro: setup_inv wait_inv features_inv activate_inv onSave_inv)


section \<open>A kernel with one loaded kext\<close>

text \<open>A kext \<open>com.a\<close> whose \<open>kmod_info_t\<close> is at \<open>0x8000\<close>, loaded at \<open>0xA000\<close> with \<open>0x100\<close> bytes.\<close>

definition demo_kmods :: mem where
  "demo_kmods = store64 (store64 (store64 (store_bytes (\<lambda>_. 0) 0x8010 (cbytes ''com.a'' @ [0])) 0x809C 0xA000) 0x80A4 0x100)
     0x7000 0x8000"

definition demo_listen_kp :: kpatcher where
  "demo_listen_kp = demo_kp\<lparr>kmem := demo_kmods, kinfos := [demo_info\<lparr>kernel_collection := True\<rparr>]\<rparr>"

definition demo_handler :: kextHandler where
  "demo_handler = create_handler ''com.a'' 0 True False"

definition demo_kl :: klisten where
  "demo_kl = \<lparr>khandlers = \<lparr>ev_items = [create_handler ''com.b'' 0 True False, demo_handler], ev_rsvd = 4\<rparr>,
     waitingForAlreadyLoadedKexts = True, isKextUnloading = False, activated = True, that = True,
     kextKmods = 0x7000, kl_base = (0, False)\<rparr>"

text \<open>A callback that records the address it is given.\<close>

definition demo_invoke :: "'a callback" where
  "demo_invoke h st s = Inr (st, s\<lparr>kmem := store64 (kmem s) 0x9000 (h_address h)\<rparr>)"

theorem processKext_first_witness:
  "\<exists>v s'. processKext 25 0 demo_invoke 0x8000 True demo_kl demo_listen_kp = Inr (demo_kl\<lparr>khandlers := v\<rparr>, s')
     \<and> ev_items v = [create_handler ''com.b'' 0 True False] \<and> load64 (kmem s') 0x9000 = 0xA000"
proof -
  let ?s = demo_listen_kp and ?hs = "ev_items (khandlers demo_kl)"
  have a: "kmod_address (kmem ?s) 0x8000 \<noteq> 0" "\<forall>h\<in>set ?hs. h_index h < length (kinfos ?s)" "1 < length ?hs"
    "takes 25 ?s 0x8000 True (?hs ! 1)" by code_simp+
  have "\<not> takes 25 ?s 0x8000 True (?hs ! 0)" by code_simp
  then have b: "\<forall>k < 1. \<not> takes 25 ?s 0x8000 True (?hs ! k)" by simp
  have i: "demo_invoke (placed (kmem ?s) 0x8000 (?hs ! 1)) (kl_base demo_kl) ?s
      = Inr ((0, False), ?s\<lparr>kmem := store64 (kmem ?s) 0x9000 0xA000\<rparr>)"
  proof -
    have "h_address (placed (kmem ?s) 0x8000 (?hs ! 1)) = 0xA000" by code_simp
    then show ?thesis by (simp add: demo_invoke_def demo_kl_def)
  qed
  have "\<not> h_reloadable (?hs ! 1)" by code_simp
  with processKext_first [where invoke = demo_invoke, OF a b i, of 0] show ?thesis
    by (auto simp: demo_kl_def load_store64)
qed

lemma demo_keeps_links: "keeps_links demo_invoke [0x8000]"
proof -
  have "apart (0x8000 :: addr) 8 0x9000 8" by (rule apart_far) simp_all
  then show ?thesis
    by (auto simp: keeps_links_def demo_invoke_def kmod_next_def load64_def store64_def load_store_apart)
qed


theorem onOSKextSaveLoadedKextPanicList_quiet_witness:
  "onOSKextSaveLoadedKextPanicList 25 0 demo_invoke (\<lambda>s. s) (demo_kl\<lparr>isKextUnloading := True\<rparr>) demo_listen_kp
     = Some (Inr (demo_kl\<lparr>isKextUnloading := True\<rparr>, demo_listen_kp))"
  using onOSKextSaveLoadedKextPanicList_quiet [of "demo_kl\<lparr>isKextUnloading := True\<rparr>" 25 0 demo_invoke "\<lambda>s. s" demo_listen_kp]
  by (simp add: demo_kl_def)


end
