(* ===== verification/Kern_Balance.thy ===== *)
theory Kern_Balance
  imports Kern_Kext
begin

text \<open>
  Every patching operation gives the processor back as it found it, on every path on which it returns:
  success, refusal or failure.  The view is the part of the state that a forgotten window would change,
  and the number of images, which only loading an image changes.
\<close>

section \<open>The view\<close>

definition cpu_view :: "'a kpatcher_scheme \<Rightarrow> u64 \<times> bool \<times> nat \<times> (u64 \<Rightarrow> u64) \<times> bool \<times> nat" where
  "cpu_view s = (cr0 s, eflags_if s, lock_depth s, cr0_latch s, kernelWriteLock s, length (kinfos s))"

lemma view_updates [simp]:
  "cpu_view (s\<lparr>kmem := m\<rparr>) = cpu_view s" "cpu_view (s\<lparr>code := c\<rparr>) = cpu_view s"
  "length k = length (kinfos s) \<Longrightarrow> cpu_view (s\<lparr>kinfos := k\<rparr>) = cpu_view s" "cpu_view (s\<lparr>kpatches := v\<rparr>) = cpu_view s"
  "cpu_view (s\<lparr>fpatch := p\<rparr>) = cpu_view s" "cpu_view (s\<lparr>tempExecutableMemoryOff := n\<rparr>) = cpu_view s"
  "cpu_view (s\<lparr>allocs := a\<rparr>) = cpu_view s"
  by (simp_all add: cpu_view_def)

lemma view_clearError [simp]: "cpu_view (clearError s) = cpu_view s"
  by (simp add: clearError_def)

lemma view_bare: "cpu_view t = cpu_view s \<Longrightarrow> bare_metal s \<Longrightarrow> bare_metal t"
  by (simp add: cpu_view_def bare_metal_def)

lemma view_same: "same_cpu t s \<Longrightarrow> cpu_view t = cpu_view s"
  using same_cpu_fields [of t s] same_cpu_kpatcher(1,3) [of t s] by (simp add: cpu_view_def)

text \<open>A window around an edit of memory and of the trampoline offset.\<close>

lemma view_window:
  assumes "bare_metal s" and "setKernelWriting True l s = (w, t)"
  shows "w" "cpu_view (snd (setKernelWriting False l (t\<lparr>kmem := m\<rparr>))) = cpu_view s"
    "cpu_view (snd (setKernelWriting False l t)) = cpu_view s"
    "cpu_view (snd (setKernelWriting False l (t\<lparr>tempExecutableMemoryOff := n, kmem := m\<rparr>))) = cpu_view s"
    "cpu_view (snd (setKernelWriting False l (t\<lparr>tempExecutableMemoryOff := n\<rparr>))) = cpu_view s"
proof -
  have t: "t = snd (setKernelWriting True l s)" using assms(2) by simp
  show "w" using enter_eq [OF assms(1), of l] assms(2) by simp
  have v: "cpu_view (snd (setKernelWriting False l (t\<lparr>kmem := m'\<rparr>))) = cpu_view s" for m'
    unfolding t leave_enter_eq [OF assms(1)] by (simp add: cpu_view_def)
  then show "cpu_view (snd (setKernelWriting False l (t\<lparr>kmem := m\<rparr>))) = cpu_view s" .
  from v [of "kmem t"] show "cpu_view (snd (setKernelWriting False l t)) = cpu_view s" by simp
  show w: "cpu_view (snd (setKernelWriting False l (t\<lparr>tempExecutableMemoryOff := n, kmem := m\<rparr>))) = cpu_view s" for m
    by (simp add: skw_temp v)
  from w [of "kmem t"] show "cpu_view (snd (setKernelWriting False l (t\<lparr>tempExecutableMemoryOff := n\<rparr>))) = cpu_view s" by simp
qed

section \<open>Routing\<close>

lemma view_alloc1: "cpu_view (snd (alloc1 s)) = cpu_view s"
  by (simp add: alloc1_def split: prod.splits)

lemma view_push: "push_patch p s = (b, t) \<Longrightarrow> cpu_view t = cpu_view s"
  by (auto simp: push_patch_def split: prod.splits)

lemma view_erase_if: "erase_if b s = Inr s' \<Longrightarrow> cpu_view s' = cpu_view s"
  by (auto simp: erase_if_def res_bind_eq_Inr split: if_splits)

lemma view_storePatches:
  assumes "storePatches opcode argument disp s = Inr s'"
  shows "cpu_view s' = cpu_view s"
proof -
  obtain o1 s1 where 1: "push_patch opcode s = (o1, s1)" by (cases "push_patch opcode s")
  obtain a1 s2 where 2: "push_patch argument s1 = (a1, s2)" by (cases "push_patch argument s1")
  obtain d1 s3 where 3: "(case disp of Some d \<Rightarrow> push_patch d s2 | None \<Rightarrow> (False, s2)) = (d1, s3)"
    by (cases "case disp of Some d \<Rightarrow> push_patch d s2 | None \<Rightarrow> (False, s2)")
  have v: "cpu_view s1 = cpu_view s" "cpu_view s2 = cpu_view s1" by (rule view_push [OF 1], rule view_push [OF 2])
  have v3: "cpu_view s3 = cpu_view s2" using 3 by (cases disp) (auto dest: view_push)
  show ?thesis
    using assms v v3 by (auto simp: storePatches_def 1 2 3 res_bind_eq_Inr dest!: view_erase_if split: if_splits)
qed

lemma view_routeCommit:
  assumes bm: "bare_metal s" and r: "routeCommit frm to ab slot kr rv tr s = Inr (a, s')"
  shows "cpu_view s' = cpu_view s"
proof -
  obtain p opcode argument disp where 0: "routePatches (kmem s) frm to ab slot (fpatch s) = (p, opcode, argument, disp)"
    by (cases "routePatches (kmem s) frm to ab slot (fpatch s)")
  obtain ok1 s1 where 1: "alloc1 (s\<lparr>fpatch := p\<rparr>) = (ok1, s1)" by (cases "alloc1 (s\<lparr>fpatch := p\<rparr>)")
  obtain ok2 s2 where 2: "alloc1 s1 = (ok2, s2)" by (cases "alloc1 s1")
  obtain ok3 s3 where 3: "(if disp = None then (False, s2) else alloc1 s2) = (ok3, s3)"
    by (cases "if disp = None then (False, s2) else alloc1 s2")
  have v: "cpu_view s3 = cpu_view s"
    using view_alloc1 [of "s\<lparr>fpatch := p\<rparr>"] view_alloc1 [of s1] view_alloc1 [of s2] 1 2 3 by (auto split: if_splits)
  obtain w t where t: "setKernelWriting True (kernelWriteLock s3) s3 = (w, t)" by (cases "setKernelWriting True (kernelWriteLock s3) s3")
  note b = view_bare [OF v bm] and win = view_window [OF view_bare [OF v bm] t]
  have l: "kernelWriteLock t = kernelWriteLock s3" using skw_kpatcher(1) [of True "kernelWriteLock s3" s3] t by simp
  show ?thesis
    using r v win(1) win(2) unfolding routeCommit_def 0 1 2 3 t Let_def prod.case
    by (cases kr; cases rv) (auto simp: t l res_bind_eq_Inr dest: view_storePatches split: if_split_asm)
qed

text \<open>A trampoline maker that keeps the view.\<close>

definition keeps_view :: "(addr \<Rightarrow> nat \<Rightarrow> 'a kpatcher_scheme \<Rightarrow> (addr \<times> 'a kpatcher_scheme) res) \<Rightarrow> bool" where
  "keeps_view mk \<longleftrightarrow> (\<forall>f n s a s'. bare_metal s \<longrightarrow> mk f n s = Inr (a, s') \<longrightarrow> cpu_view s' = cpu_view s)"

lemma view_take_slot: "cpu_view (snd (take_slot i s)) = cpu_view s"
  by (simp add: take_slot_def split: prod.splits)

lemma view_slotFor: "cpu_view (snd (slotFor jt ab info s)) = cpu_view s"
  by (simp add: slotFor_def view_take_slot split: option.splits)

lemma view_finish:
  assumes "bare_metal s" and "cpu_view t = cpu_view s"
    and "routeCommit frm to ab slot kr rv tr (case org of None \<Rightarrow> t | Some o1 \<Rightarrow> t\<lparr>kmem := store64 (kmem t) o1 tr\<rparr>) = Inr (a, s')"
  shows "cpu_view s' = cpu_view s"
proof -
  let ?t = "case org of None \<Rightarrow> t | Some o1 \<Rightarrow> t\<lparr>kmem := store64 (kmem t) o1 tr\<rparr>"
  have v: "cpu_view ?t = cpu_view s" using assms(2) by (simp split: option.splits)
  from view_routeCommit [OF view_bare [OF v assms(1)] assms(3)] v show ?thesis by simp
qed

lemma view_routeWith:
  assumes mk: "keeps_view mk" and bm: "bare_metal s"
    and r: "routeWith mk frm to bw kr rv jt info org s = Inr (a, s')"
  shows "cpu_view s' = cpu_view s"
proof -
  obtain tr pj where c: "readChain (kmem s) frm = (tr, pj)" by (cases "readChain (kmem s) frm")
  define ab where "ab = (jumpTooFar frm to \<or> jt = Long)"
  obtain slot s1 where sl: "slotFor jt ab info s = (slot, s1)" by (cases "slotFor jt ab info s")
  have v1: "cpu_view s1 = cpu_view s" using view_slotFor [of jt ab info s] sl by simp
  note fin = view_finish [OF bm]
  show ?thesis
  proof (cases "jt = Short \<and> jumpTooFar frm to")
    case True
    with r show ?thesis by (auto simp: routeWith_def Let_def)
  next
    case False
    note r1 = r [unfolded routeWith_def Let_def c prod.case if_not_P [OF False], folded ab_def]
    consider (chain) "tr \<noteq> 0" | (wrap) "tr = 0" bw | (plain) "tr = 0" "\<not> bw" by blast
    then show ?thesis
    proof cases
      case chain
      show ?thesis
      proof (cases "pj = Some Medium")
        case True
        then obtain i slot' s2 where i: "info = Some i" "take_slot i s = (slot', s2)" "pj \<noteq> Some Short" "jt \<noteq> Short"
          "slot' \<noteq> 0" using r1 chain by (auto split: option.split_asm prod.split_asm if_split_asm)
        have "cpu_view s2 = cpu_view s" using view_take_slot [of i s] i(2) by simp
        from fin [OF this] r1 chain True i show ?thesis by (auto split: if_split_asm)
      next
        case False
        with r1 chain fin [OF refl] show ?thesis by (auto split: if_split_asm)
      qed
    next
      case wrap
      let ?n = "if ab then (if slot \<noteq> 0 then MediumJump else LongJump) else SmallJump"
      from r1 wrap obtain tr2 s2 where m: "mk frm ?n s1 = Inr (tr2, s2)" by (auto simp: sl res_bind_eq_Inr)
      have "cpu_view s2 = cpu_view s" using mk m v1 view_bare [OF v1 bm] unfolding keeps_view_def by metis
      from this fin [OF this] r1 wrap m show ?thesis by (auto simp: sl split: if_split_asm)
    next
      case plain
      with r1 fin [OF refl] show ?thesis by auto
    qed
  qed
qed

lemma view_routeUnwrapped:
  "bare_metal s \<Longrightarrow> routeUnwrapped frm to kr rv jt info org s = Inr (a, s') \<Longrightarrow> cpu_view s' = cpu_view s"
  unfolding routeUnwrapped_def
  by (rule view_routeWith [where mk = "\<lambda>_ _ s'. Inr (0, s')"]) (auto simp: keeps_view_def)

lemma view_createTrampoline:
  assumes bm: "bare_metal s" and r: "createTrampoline qis func minimum opcodes s = Inr (a, s')"
  shows "cpu_view s' = cpu_view s"
proof -
  let ?l = "kernelWriteLock s"
  obtain w t where t: "setKernelWriting True ?l s = (w, t)" by (cases "setKernelWriting True ?l s")
  note win = view_window [OF bm t]
  have l: "kernelWriteLock t = ?l" using skw_kpatcher(1) [of True ?l s] t by simp
  let ?off = "qis (kmem t) func minimum"
  let ?n = "size_add (tempExecutableMemoryOff t) (?off + LongJump + length opcodes)"
  let ?T = "tempExecutableMemory t + of_nat (tempExecutableMemoryOff t)"
  consider (bad) "?off = 0 \<or> ?off > unat PAGE_SIZE - LongJump"
    | (full) "\<not> (?off = 0 \<or> ?off > unat PAGE_SIZE - LongJump)" "?n \<ge> TempExecutableMemorySize"
    | (room) "\<not> (?off = 0 \<or> ?off > unat PAGE_SIZE - LongJump)" "\<not> ?n \<ge> TempExecutableMemorySize" by blast
  then show ?thesis
  proof cases
    case bad
    with r win(1,3) show ?thesis by (auto simp: createTrampoline_def t l Let_def)
  next
    case full
    with r win(1,5) show ?thesis by (auto simp: createTrampoline_def t l Let_def)
  next
    case room
    let ?m = "store_bytes (kmem t) ?T opcodes"
    let ?m2 = "store_bytes ?m (?T + of_nat (length opcodes)) (load_bytes ?m func ?off)"
    let ?s5 = "clearError (snd (setKernelWriting False ?l (t\<lparr>tempExecutableMemoryOff := ?n, kmem := ?m2\<rparr>)))"
    have v: "cpu_view ?s5 = cpu_view s" using win(4) by simp
    from r win(1) room obtain x s6 where "routeUnwrapped (?T + of_nat (length opcodes) + of_nat ?off) (func + of_nat ?off)
        True False Auto None None ?s5 = Inr (x, s6)" "s' = s6"
      unfolding createTrampoline_def t Let_def prod.case if_not_P [OF room(1)]
      by (auto simp: l res_bind_eq_Inr split: if_split_asm)
    from view_routeUnwrapped [OF view_bare [OF v bm] this(1)] this(2) v show ?thesis by simp
  qed
qed

lemma view_routeFunction:
  "bare_metal s \<Longrightarrow> routeFunctionInternal qis frm to bw kr rv jt info org s = Inr (a, s') \<Longrightarrow> cpu_view s' = cpu_view s"
  unfolding routeFunctionInternal_def
  by (rule view_routeWith [where mk = "\<lambda>f n. createTrampoline qis f n []"])
     (auto simp: keeps_view_def dest: view_createTrampoline)

section \<open>Batches of the kernel patcher\<close>

lemma view_solveSymbol: "cpu_view (snd (solveSymbol ident y s)) = cpu_view s"
  by (simp add: solveSymbol_def Let_def)

lemma view_solveSymbolRange:
  "solveSymbolRange ident y start sz crash s = Inr (a, s') \<Longrightarrow> cpu_view s' = cpu_view s"
  using view_solveSymbol [of ident y s]
  by (cases "solveSymbol ident y s") (auto simp: solveSymbolRange_def Let_def split: if_split_asm)

lemma view_erase: "bare_metal s \<Longrightarrow> cpu_view (eraseCoverageInstPrefix a 5 limit s) = cpu_view s"
  unfolding eraseCoverageInstPrefix_def
  using eraseLoop_exact [of s "kmem s" a 5 limit 0] by (intro view_same) (simp add: agree_def)

lemma view_solveRequests:
  "solveRequests ident start sz force rs s = Inr (stop, err, rs', s') \<Longrightarrow> cpu_view s' = cpu_view s"
proof (induction rs arbitrary: s stop err rs')
  case (Cons r rs)
  show ?case
  proof (cases "rq_symbol r")
    case None
    with Cons show ?thesis by (auto simp: solveRequests.simps(2) res_bind_eq_Inr)
  next
    case (Some y)
    let ?x = "if start \<noteq> 0 \<or> sz \<noteq> 0 then solveSymbolRange ident y start sz True s else Inr (solveSymbol ident y s)"
    from Cons.prems Some obtain frm s1 where f: "?x = Inr (frm, s1)"
      unfolding solveRequests.simps(2) by (auto simp: res_bind_eq_Inr)
    have v: "cpu_view s1 = cpu_view s"
      using f view_solveSymbolRange [of ident y start sz True s frm s1] view_solveSymbol [of ident y s]
      by (cases "solveSymbol ident y s") (auto split: if_split_asm)
    have "cpu_view s' = cpu_view s1"
      using Cons.prems Some f Cons.IH [of s1] Cons.IH [of "clearError s1"] unfolding solveRequests.simps(2)
      by (auto simp: res_bind_eq_Inr Let_def split: if_split_asm)
    with v show ?thesis by simp
  qed
qed simp

lemma view_routeRequest1:
  assumes "bare_metal s" and "routeRequest1 ident kr jump r s = Inr (ok, s')"
  shows "cpu_view s' = cpu_view s"
proof -
  let ?s = "if rq_to r \<noteq> 0 then eraseCoverageInstPrefix (rq_from r) 5 (int LongJump) s else s"
  have v: "cpu_view ?s = cpu_view s" using view_erase [OF assms(1)] by simp
  from assms(2) obtain w s2 where w: "routeFunctionInternal quickInstructionSize (rq_from r) (rq_to r) (rq_org r \<noteq> None) kr True jump
      (Some ident) (rq_org r) ?s = Inr (w, s2)" "s' = s2 \<or> s' = clearError s2"
    unfolding routeRequest1_def Let_def by (auto simp: res_bind_eq_Inr split: if_split_asm)
  from view_routeFunction [OF view_bare [OF v assms(1)] w(1)] w(2) v show ?thesis by auto
qed

lemma view_routeRequests:
  "bare_metal s \<Longrightarrow> routeRequests ident kr force jump rs s = Inr (stop, err, s') \<Longrightarrow> cpu_view s' = cpu_view s"
proof (induction rs arbitrary: s stop err)
  case (Cons r rs)
  show ?case
  proof (cases "rq_from r = 0")
    case True
    with Cons show ?thesis by simp
  next
    case False
    with Cons.prems(2) obtain ok s1 where o: "routeRequest1 ident kr jump r s = Inr (ok, s1)"
      by (auto simp: res_bind_eq_Inr)
    note v = view_routeRequest1 [OF Cons.prems(1) o]
    have "cpu_view s' = cpu_view s1"
      using Cons.prems(2) False o Cons.IH [OF view_bare [OF v Cons.prems(1)]]
      by (auto simp: res_bind_eq_Inr split: if_split_asm)
    with v show ?thesis by simp
  qed
qed simp

lemma view_routeMultiple:
  assumes "bare_metal s" and "routeMultipleInternal ident rs start sz kr force jump s = Inr (ok, rs', s')"
  shows "cpu_view s' = cpu_view s"
proof -
  from assms(2) obtain stop err rs1 s1 where 1: "solveRequests ident start sz force rs s = Inr (stop, err, rs1, s1)"
    by (auto simp: routeMultipleInternal_def res_bind_eq_Inr)
  note v = view_solveRequests [OF 1]
  have "cpu_view s' = cpu_view s1"
    using assms(2) 1 view_routeRequests [OF view_bare [OF v assms(1)]]
    by (auto simp: routeMultipleInternal_def res_bind_eq_Inr split: if_split_asm)
  with v show ?thesis by simp
qed

section \<open>Replacements\<close>

lemma view_farLoop:
  fixes s :: "'a kpatcher_scheme"
  shows "farLoop fnd findSize findMask data dataSize repl replaceSize replaceMask lock skip count replCount dataOffset s
      = Some r \<Longrightarrow> bare_metal s \<Longrightarrow> cpu_view (snd r) = cpu_view s"
proof (induction rule: farLoop.raw_induct [rotated, consumes 1, case_names step])
  case (step far fnd findSize findMask data dataSize repl replaceSize replaceMask lock skip count replCount dataOffset s r)
  show ?case
  proof (cases "findPattern fnd findMask findSize (kmem s) data dataSize dataOffset")
    case None
    with step.hyps show ?thesis by auto
  next
    case (Some off)
    show ?thesis
    proof (cases "skip > 0")
      case True
      with step.hyps Some step.IH [OF _ step.prems] show ?thesis by auto
    next
      case False
      obtain w t where t: "setKernelWriting True lock s = (w, t)" by (cases "setKernelWriting True lock s")
      note win = view_window [OF step.prems t]
      let ?m = "replaceAt repl replaceSize replaceMask findSize data off (kmem t)"
      let ?s3 = "snd (setKernelWriting False lock (t\<lparr>kmem := ?m\<rparr>))"
      have "r = (True, ?s3) \<or> far fnd findSize findMask data dataSize repl replaceSize replaceMask lock
          skip (if count > 0 then count - 1 else count) (Suc replCount) (size_add off replaceSize) ?s3 = Some r"
        using step.hyps Some False win(1) by (auto simp: t Let_def split: if_split_asm)
      then show ?thesis
      proof
        assume f: "far fnd findSize findMask data dataSize repl replaceSize replaceMask lock
          skip (if count > 0 then count - 1 else count) (Suc replCount) (size_add off replaceSize) ?s3 = Some r"
        from step.IH [OF f view_bare [OF win(2) [of ?m] step.prems]] win(2) [of ?m] show ?thesis by simp
      qed (use win(2) [of ?m] in simp)
    qed
  qed
qed

lemma view_findAndReplace:
  fixes s :: "'a kpatcher_scheme"
  assumes "bare_metal s"
    and "findAndReplaceWithMask data dataSize fnd findSize findMask repl replaceSize replaceMask count skip lock s = Some (b, s')"
  shows "cpu_view s' = cpu_view s"
  using assms view_farLoop [of fnd findSize findMask data dataSize repl replaceSize replaceMask lock skip count 0 0 s "(b, s')"]
  by (auto simp: findAndReplaceWithMask_def split: if_split_asm)

lemma view_lookup:
  assumes "bare_metal s" and "applyLookupPatch p st mx s = Some s'"
  shows "cpu_view s' = cpu_view s"
proof (cases "\<exists>q. p = Some q \<and> \<not> (case lp_kext q of None \<Rightarrow> False | Some k \<Rightarrow> loadIndex k = Unloaded)")
  case False
  with assms(2) show ?thesis by (auto simp: applyLookupPatch_def split: option.split_asm)
next
  case True
  then obtain q where q: "p = Some q" "\<not> (case lp_kext q of None \<Rightarrow> False | Some k \<Rightarrow> loadIndex k = Unloaded)" by blast
  let ?idx = "case lp_kext q of None \<Rightarrow> KernelID | Some k \<Rightarrow> loadIndex k"
  obtain cur ending where c: "lookupRange (kinfos s ! ?idx) q st mx = (cur, ending)" by (cases "lookupRange (kinfos s ! ?idx) q st mx")
  obtain w t where t: "setKernelWriting True (kernelWriteLock s) s = (w, t)" by (cases "setKernelWriting True (kernelWriteLock s) s")
  note win = view_window [OF assms(1) t]
  have l: "kernelWriteLock t = kernelWriteLock s" using skw_kpatcher(1) [of True "kernelWriteLock s" s] t by simp
  from assms(2) win(1) obtain ch m where m: "lookupLoop q ending 0 cur 0 (kmem t) = Some (ch, m)"
    unfolding applyLookupPatch_def q(1) option.case if_not_P [OF q(2)] Let_def c prod.case t
    by (auto split: option.split_asm)
  obtain w' s3 where s3: "setKernelWriting False (kernelWriteLock s) (t\<lparr>kmem := m\<rparr>) = (w', s3)"
    by (cases "setKernelWriting False (kernelWriteLock s) (t\<lparr>kmem := m\<rparr>)")
  have "s' = s3 \<or> (\<exists>c. s' = s3\<lparr>code := c\<rparr>)"
    using assms(2) win(1) m
    unfolding applyLookupPatch_def q(1) option.case if_not_P [OF q(2)] Let_def c prod.case t
    by (auto simp: l s3 split: if_split_asm)
  then show ?thesis using win(2) [of m] s3 by auto
qed

end
