(* ===== verification/Patcher_Plus.thy ===== *)
theory Patcher_Plus
  imports Kern_Balance
begin

text \<open>
  \<open>Patcher+\<close> of NootedDeck (\<^verbatim>\<open>NootedDeck/Patcher+.cpp\<close>, \<^verbatim>\<open>NootedDeck/KextHeaders/Patcher+.hpp\<close>): requests that
  fall back from a symbol to a byte pattern, masked patches, and the destination of a jump
  instruction.  The route requests and the patch extend Lilu's structures, as in the source; a solve
  request has the two members of Lilu's, with a symbol that may be null.  A call that panics is
  \<open>Inl\<close>; a call that need not return (a lookup patch whose count is 0) is \<open>None\<close>.  The members the
  header calls \<open>Pattern\<close>, \<open>Mask\<close> and \<open>patternSize\<close> are those the methods read.
\<close>

section \<open>Requests\<close>

record patternSolveRequest =
  ps_symbol :: "string option"
  ps_address :: addr
  ps_pattern :: "byte list option"
  ps_mask :: "byte list option"
  ps_patternSize :: nat

record patternRouteRequest = routeRequest +
  pr_pattern :: "byte list option"
  pr_mask :: "byte list option"
  pr_patternSize :: nat

record jumpPatternRouteRequest = routeRequest +
  jp_pattern :: "byte list option"
  jp_mask :: "byte list option"
  jp_patternSize :: nat
  jumpInstOff :: u64

record maskedLookupPatch = lookupPatch +
  ml_findMask :: "byte list option"
  ml_replaceMask :: "byte list option"
  ml_skip :: nat

text \<open>The first half that the three requests share: the symbol, within the image if its range is
  given.\<close>

definition solveWithin :: "nat \<Rightarrow> string \<Rightarrow> addr \<Rightarrow> u64 \<Rightarrow> 'a kpatcher_scheme \<Rightarrow> (addr \<times> 'a kpatcher_scheme) res" where
  "solveWithin ident symbol start sz s =
     (let s1 = clearError s
      in if start = 0 \<or> sz = 0 then Inr (solveSymbol ident symbol s1)
         else solveSymbolRange ident symbol start sz True s1)"

text \<open>The second half: the pattern.  \<open>None\<close> when it does not occur.\<close>

definition solveByPattern ::
  "string option \<Rightarrow> byte list option \<Rightarrow> byte list option \<Rightarrow> nat \<Rightarrow> addr \<Rightarrow> u64 \<Rightarrow> mem \<Rightarrow> nat option res" where
  "solveByPattern symbol ptn msk n start sz m =
     (if ptn = None \<or> n = 0 then (if symbol = None then Inl (Panic ''Patcher+'') else Inr None)
      else if start = 0 \<or> sz = 0 then Inl (Panic ''Patcher+'')
      else Inr (findPattern (the ptn) msk n m start (unat sz) 0))"

section \<open>Solving\<close>

definition Solve ::
  "nat \<Rightarrow> addr \<Rightarrow> u64 \<Rightarrow> patternSolveRequest \<Rightarrow> 'a kpatcher_scheme \<Rightarrow> (bool \<times> 'a kpatcher_scheme) res" where
  "Solve ident start sz r s =
     (if ps_address r = 0 then Inl (Panic ''Patcher+'')
      else
        res_bind (case ps_symbol r of
                    None \<Rightarrow> Inr (0, s)
                  | Some symbol \<Rightarrow>
                      res_bind (solveWithin ident symbol start sz s)
                        (\<lambda>(a, s1). Inr (a, s1\<lparr>kmem := store64 (kmem s1) (ps_address r) a\<rparr>)))
          (\<lambda>(a, s1).
             if a \<noteq> 0 then Inr (True, s1)
             else
               res_bind (solveByPattern (ps_symbol r) (ps_pattern r) (ps_mask r) (ps_patternSize r) start sz (kmem s1))
                 (\<lambda>found. case found of
                    None \<Rightarrow> Inr (False, s1)
                  | Some off \<Rightarrow>
                      Inr (True, s1\<lparr>kmem := store64 (kmem s1) (ps_address r) (start + of_nat off)\<rparr>))))"

section \<open>Routing\<close>

definition solveFrom ::
  "nat \<Rightarrow> addr \<Rightarrow> u64 \<Rightarrow> string option \<Rightarrow> addr \<Rightarrow> 'a kpatcher_scheme \<Rightarrow> (addr \<times> 'a kpatcher_scheme) res" where
  "solveFrom ident start sz symbol frm s =
     (case symbol of None \<Rightarrow> Inr (frm, s) | Some y \<Rightarrow> solveWithin ident y start sz s)"

definition Route ::
  "nat \<Rightarrow> addr \<Rightarrow> u64 \<Rightarrow> patternRouteRequest \<Rightarrow> 'a kpatcher_scheme \<Rightarrow> (bool \<times> patternRouteRequest \<times> 'a kpatcher_scheme) res" where
  "Route ident start sz r s =
     res_bind (solveFrom ident start sz (rq_symbol r) (rq_from r) s)
       (\<lambda>(frm, s1).
          res_bind (if frm \<noteq> 0 then Inr (Some frm)
                    else res_bind (solveByPattern (rq_symbol r) (pr_pattern r) (pr_mask r) (pr_patternSize r) start sz (kmem s1))
                           (\<lambda>found. Inr (case found of None \<Rightarrow> None | Some off \<Rightarrow> Some (start + of_nat off))))
            (\<lambda>found.
               case found of
                 None \<Rightarrow> Inr (False, r\<lparr>rq_from := frm\<rparr>, s1)
               | Some frm' \<Rightarrow>
                   let r' = r\<lparr>rq_from := frm', rq_symbol := None\<rparr>
                   in res_bind (routeMultiple ident [routeRequest.truncate r'] start sz True False s1)
                        (\<lambda>(ok, rs, s2). Inr (ok, r', s2))))"

section \<open>Masked patches\<close>

definition Apply ::
  "addr \<Rightarrow> u64 \<Rightarrow> maskedLookupPatch \<Rightarrow> 'a kpatcher_scheme \<Rightarrow> (bool \<times> 'a kpatcher_scheme) res option" where
  "Apply start sz p s =
     (if ml_findMask p = None \<and> ml_replaceMask p = None \<and> ml_skip p = 0 then
        (case applyLookupPatch (Some (lookupPatch.truncate p)) start sz (clearError s) of
           None \<Rightarrow> None
         | Some s1 \<Rightarrow> Some (Inr (code s1 = NoError, s1)))
      else if start = 0 \<or> sz = 0 then Some (Inl (Panic ''Patcher+''))
      else
        (case findAndReplaceWithMask start (unat sz) (lp_find p) (lp_size p) (ml_findMask p) (lp_replace p) (lp_size p)
                (ml_replaceMask p) (lp_count p) (ml_skip p) (kernelWriteLock s) s of
           None \<Rightarrow> None
         | Some (ok, s1) \<Rightarrow> Some (Inr (ok, s1))))"

section \<open>Jump instructions\<close>

definition JumpInstDestination :: "mem \<Rightarrow> addr \<Rightarrow> addr \<Rightarrow> addr" where
  "JumpInstDestination m start ending =
     (if start = 0 \<or> ending = 0 then 0
      else
        let Instr = m start;
            decoded =
              (if Instr = 0x0F then
                 (if start + 6 > ending then None
                  else if 0x80 \<le> m (start + 1) \<and> m (start + 1) \<le> 0x8F
                  then Some (6, sint (load32 m (start + 2))) else None)
               else if Instr = 0xE8 \<or> Instr = 0xE9 then
                 (if start + 5 > ending then None else Some (5, sint (load32 m (start + 1))))
               else if 0x70 \<le> Instr \<and> Instr \<le> 0x7F then
                 (if start + 2 > ending then None else Some (2, sint (m (start + 1))))
               else None)
        in case decoded of
             None \<Rightarrow> 0
           | Some (InstrSize, Offset) \<Rightarrow>
               if Offset < 0 then
                 (let AbsoluteOffset = of_int (- Offset)
                  in if AbsoluteOffset > start then 0
                     else let Result = start - AbsoluteOffset + InstrSize in if Result \<ge> ending then 0 else Result)
               else let Result = start + of_int Offset + InstrSize in if Result \<ge> ending then 0 else Result)"

definition JumpRoute ::
  "nat \<Rightarrow> addr \<Rightarrow> u64 \<Rightarrow> jumpPatternRouteRequest \<Rightarrow> 'a kpatcher_scheme
    \<Rightarrow> (bool \<times> jumpPatternRouteRequest \<times> 'a kpatcher_scheme) res" where
  "JumpRoute ident start sz r s =
     res_bind (solveFrom ident start sz (rq_symbol r) (rq_from r) s)
       (\<lambda>(frm, s1).
          res_bind (if frm \<noteq> 0 then Inr frm
                    else res_bind (solveByPattern (rq_symbol r) (jp_pattern r) (jp_mask r) (jp_patternSize r) start sz (kmem s1))
                           (\<lambda>found. Inr (case found of None \<Rightarrow> 0
                              | Some off \<Rightarrow> JumpInstDestination (kmem s1) (start + of_nat off + jumpInstOff r) (start + sz))))
            (\<lambda>frm'.
               let r' = r\<lparr>rq_from := frm'\<rparr>
               in if frm' = 0 then Inr (False, r', s1)
                  else
                    res_bind (routeFunctionInternal quickInstructionSize frm' (rq_to r) (rq_org r \<noteq> None) True True Auto None None s1)
                      (\<lambda>(Wrapper, s2).
                         case rq_org r of
                           Some o1 \<Rightarrow>
                             if Wrapper = 0 then Inr (False, r', s2)
                             else Inr (True, r', s2\<lparr>kmem := store64 (kmem s2) o1 Wrapper\<rparr>)
                         | None \<Rightarrow> Inr (Wrapper = 0, r', s2))))"

section \<open>Batches\<close>

text \<open>The loop of the four batch functions: stop at the first failure unless forced.\<close>

fun runAll ::
  "('r \<Rightarrow> 's \<Rightarrow> (bool \<times> 'r \<times> 's) res option) \<Rightarrow> bool \<Rightarrow> 'r list \<Rightarrow> 's \<Rightarrow> (bool \<times> 'r list \<times> 's) res option" where
  "runAll step force [] s = Some (Inr (True, [], s))"
| "runAll step force (r # rs) s =
     (case step r s of
        None \<Rightarrow> None
      | Some (Inl e) \<Rightarrow> Some (Inl e)
      | Some (Inr (ok, r', s1)) \<Rightarrow>
          if \<not> ok \<and> \<not> force then Some (Inr (False, r' # rs, s1))
          else (case runAll step force rs s1 of
                  None \<Rightarrow> None
                | Some (Inl e) \<Rightarrow> Some (Inl e)
                | Some (Inr (b, rs', s2)) \<Rightarrow> Some (Inr (b, r' # rs', s2))))"

definition SolveStep where
  "SolveStep ident start sz r s = Some (res_bind (Solve ident start sz r s) (\<lambda>(b, s'). Inr (b, r, s')))"
definition RouteStep where "RouteStep ident start sz r s = Some (Route ident start sz r s)"
definition JumpRouteStep where "JumpRouteStep ident start sz r s = Some (JumpRoute ident start sz r s)"
definition ApplyStep where
  "ApplyStep start sz p s =
     (case Apply start sz p s of None \<Rightarrow> None | Some r \<Rightarrow> Some (res_bind r (\<lambda>(b, s'). Inr (b, p, s'))))"

definition SolveAll where "SolveAll ident requests start sz s = runAll (SolveStep ident start sz) False requests s"
definition RouteAll where "RouteAll ident requests start sz s = runAll (RouteStep ident start sz) False requests s"
definition JumpRouteAll where "JumpRouteAll ident requests start sz s = runAll (JumpRouteStep ident start sz) False requests s"
definition ApplyAll where "ApplyAll patches start sz force s = runAll (ApplyStep start sz) force patches s"

section \<open>The contract of a batch\<close>

text \<open>What every batch function needs of the request it repeats: a request that returns leaves the view
  of a usable state as it was, and usability depends on the view alone.\<close>

locale request_batch =
  fixes step :: "'r \<Rightarrow> 's \<Rightarrow> (bool \<times> 'r \<times> 's) res option"
    and usable :: "'s \<Rightarrow> bool"
    and view :: "'s \<Rightarrow> 'v"
  assumes step_view: "usable s \<Longrightarrow> step r s = Some (Inr (ok, r', s')) \<Longrightarrow> view s' = view s"
    and view_usable: "view s' = view s \<Longrightarrow> usable s \<Longrightarrow> usable s'"
begin

lemma batch_view:
  "usable s \<Longrightarrow> runAll step force rs s = Some (Inr (b, rs', s')) \<Longrightarrow> view s' = view s"
proof (induction rs arbitrary: s b rs')
  case (Cons r rs)
  from Cons.prems(2) obtain ok r1 s1 where 1: "step r s = Some (Inr (ok, r1, s1))"
    by (auto split: option.split_asm sum.split_asm)
  note v = step_view [OF Cons.prems(1) 1]
  show ?case
  proof (cases "\<not> ok \<and> \<not> force")
    case True
    with Cons.prems(2) 1 v show ?thesis by simp
  next
    case False
    with Cons.prems(2) 1 obtain rs2 where "runAll step force rs s1 = Some (Inr (b, rs2, s'))"
      by (auto split: option.split_asm sum.split_asm)
    from Cons.IH [OF view_usable [OF v Cons.prems(1)] this] v show ?thesis by simp
  qed
qed simp

text \<open>A batch touches a prefix of its requests: all of them when it succeeds, and nothing behind the
  request that fails.\<close>

lemma batch_prefix:
  "runAll step force rs s = Some (Inr (b, rs', s')) \<Longrightarrow>
   length rs' = length rs \<and> (b \<or> (\<not> force \<and> (\<exists>n < length rs. drop (Suc n) rs' = drop (Suc n) rs)))"
proof (induction rs arbitrary: s b rs')
  case (Cons r rs)
  from Cons.prems obtain ok r1 s1 where 1: "step r s = Some (Inr (ok, r1, s1))"
    by (auto split: option.split_asm sum.split_asm)
  show ?case
  proof (cases "\<not> ok \<and> \<not> force")
    case True
    with Cons.prems 1 show ?thesis by (auto intro!: exI [of _ 0])
  next
    case False
    with Cons.prems 1 obtain rs2 where 2: "runAll step force rs s1 = Some (Inr (b, rs2, s'))" and rs': "rs' = r1 # rs2"
      by (auto split: option.split_asm sum.split_asm)
    from Cons.IH [OF 2] rs' show ?thesis by (auto intro: exI [of _ "Suc n" for n])
  qed
qed simp

end

section \<open>The requests keep the processor's view\<close>

lemma view_solveWithin: "solveWithin ident y start sz s = Inr (a, s') \<Longrightarrow> cpu_view s' = cpu_view s"
  using view_solveSymbol [of ident y "clearError s"]
  by (auto simp: solveWithin_def Let_def dest: view_solveSymbolRange split: if_split_asm)

lemma view_solveFrom: "solveFrom ident start sz y frm s = Inr (a, s') \<Longrightarrow> cpu_view s' = cpu_view s"
  by (auto simp: solveFrom_def dest: view_solveWithin split: option.split_asm)

lemma view_Solve: "Solve ident start sz r s = Inr (ok, s') \<Longrightarrow> cpu_view s' = cpu_view s"
  by (auto simp: Solve_def res_bind_eq_Inr dest!: view_solveWithin split: option.split_asm if_split_asm)

lemma view_Route:
  assumes "bare_metal s" and "Route ident start sz r s = Inr (ok, r', s')"
  shows "cpu_view s' = cpu_view s"
proof -
  from assms(2) obtain frm s1 where 1: "solveFrom ident start sz (rq_symbol r) (rq_from r) s = Inr (frm, s1)"
    by (auto simp: Route_def res_bind_eq_Inr)
  note v = view_solveFrom [OF 1]
  from assms(2) 1 view_routeMultiple [OF view_bare [OF v assms(1)]] v show ?thesis
    by (auto simp: Route_def res_bind_eq_Inr Let_def routeMultiple_def split: option.split_asm)
qed

lemma view_JumpRoute:
  assumes "bare_metal s" and "JumpRoute ident start sz r s = Inr (ok, r', s')"
  shows "cpu_view s' = cpu_view s"
proof -
  from assms(2) obtain frm s1 where 1: "solveFrom ident start sz (rq_symbol r) (rq_from r) s = Inr (frm, s1)"
    by (auto simp: JumpRoute_def res_bind_eq_Inr)
  note v = view_solveFrom [OF 1]
  from assms(2) 1 view_routeFunction [OF view_bare [OF v assms(1)]] v show ?thesis
    by (auto simp: JumpRoute_def res_bind_eq_Inr Let_def split: option.split_asm if_split_asm)
qed

lemma view_Apply:
  assumes "bare_metal s" and "Apply start sz p s = Some (Inr (ok, s'))"
  shows "cpu_view s' = cpu_view s"
proof -
  have "bare_metal (clearError s)" by (rule view_bare [OF view_clearError assms(1)])
  from assms view_lookup [OF this] show ?thesis
    by (auto simp: Apply_def dest: view_findAndReplace split: option.split_asm if_split_asm)
qed

interpretation solve_batch: request_batch "SolveStep ident start sz" bare_metal cpu_view
  by unfold_locales (auto simp: SolveStep_def res_bind_eq_Inr dest: view_Solve intro: view_bare)

interpretation route_batch: request_batch "RouteStep ident start sz" bare_metal cpu_view
  by unfold_locales (auto simp: RouteStep_def dest: view_Route intro: view_bare)

interpretation jump_batch: request_batch "JumpRouteStep ident start sz" bare_metal cpu_view
  by unfold_locales (auto simp: JumpRouteStep_def dest: view_JumpRoute intro: view_bare)

interpretation apply_batch: request_batch "ApplyStep start sz" bare_metal cpu_view
  by unfold_locales
     (auto simp: ApplyStep_def res_bind_eq_Inr dest: view_Apply intro: view_bare split: option.split_asm)

section \<open>Jump instructions against the processor's rule\<close>

text \<open>The relative branches of the instruction set the function knows, as length and displacement.\<close>

definition relative_branch :: "mem \<Rightarrow> addr \<Rightarrow> (int \<times> int) option" where
  "relative_branch m a =
     (if m a = 0x0F \<and> 0x80 \<le> m (a + 1) \<and> m (a + 1) \<le> 0x8F then Some (6, sint (load32 m (a + 2)))
      else if m a \<in> {0xE8, 0xE9} then Some (5, sint (load32 m (a + 1)))
      else if 0x70 \<le> m a \<and> m a \<le> 0x7F then Some (2, sint (m (a + 1)))
      else None)"

lemma sint_bound32: "- (2 ^ 31) \<le> sint (w :: 32 word) \<and> sint w < 2 ^ 31"
  using sint_greater_eq [of w] sint_less [of w] by simp

lemma sint_bound8: "- (2 ^ 31) \<le> sint (w :: 8 word) \<and> sint w < 2 ^ 31"
  using sint_greater_eq [of w] sint_less [of w] by simp

lemma branch_target:
  fixes a e :: addr and off n :: int
  assumes n: "0 \<le> n" "n \<le> 6" and off: "- (2 ^ 31) \<le> off" "off < 2 ^ 31" and a: "uint a + 2 ^ 32 < 2 ^ 64"
  shows "(if off < 0
          then (let d = of_int (- off) in if d > a then 0 else let r = a - d + of_int n in if r \<ge> e then 0 else r)
          else let r = a + of_int off + of_int n in if r \<ge> e then 0 else r)
       = (if - off \<le> uint a \<and> uint a + n + off < uint e then word_of_int (uint a + n + off) else 0)"
proof -
  have u: "0 \<le> uint a" by simp
  have w: "word_of_int (uint a + n + off) = a + of_int off + of_int n" by (simp add: algebra_simps)
  have r: "uint (a + of_int off + of_int n) = uint a + n + off" if "- off \<le> uint a"
  proof -
    have "uint (word_of_int (uint a + n + off) :: addr) = uint a + n + off"
      using that n off a u by (subst uint_word_of_int) (simp add: take_bit_int_eq_self)
    then show ?thesis by (simp only: w)
  qed
  have d: "(of_int (- off) :: addr) > a \<longleftrightarrow> - off > uint a" if "off < 0"
  proof -
    have "uint (word_of_int (- off) :: addr) = - off" using that off by (subst uint_word_of_int) simp
    then show ?thesis by (simp add: word_less_def)
  qed
  have m: "a - of_int (- off) + of_int n = a + of_int off + of_int n" by simp
  show ?thesis
  proof (cases "off < 0")
    case True
    with r d m w show ?thesis by (simp only: Let_def word_le_def if_True) auto
  next
    case False
    then have "- off \<le> uint a" using u by linarith
    with False r w show ?thesis by (simp only: Let_def word_le_def if_False) auto
  qed
qed

text \<open>The last part of the function, for a decoded branch.\<close>

definition branch_result :: "addr \<Rightarrow> addr \<Rightarrow> int \<Rightarrow> int \<Rightarrow> addr" where
  "branch_result a e n off =
     (if off < 0
      then (let d = of_int (- off) in if d > a then 0 else let r = a - d + of_int n in if r \<ge> e then 0 else r)
      else let r = a + of_int off + of_int n in if r \<ge> e then 0 else r)"

lemma JumpInstDestination_branch:
  "JumpInstDestination m start ending =
     (if start = 0 \<or> ending = 0 then 0
      else if m start = 0x0F then
        (if start + 6 > ending then 0
         else if 0x80 \<le> m (start + 1) \<and> m (start + 1) \<le> 0x8F
         then branch_result start ending 6 (sint (load32 m (start + 2))) else 0)
      else if m start = 0xE8 \<or> m start = 0xE9 then
        (if start + 5 > ending then 0 else branch_result start ending 5 (sint (load32 m (start + 1))))
      else if 0x70 \<le> m start \<and> m start \<le> 0x7F then
        (if start + 2 > ending then 0 else branch_result start ending 2 (sint (m (start + 1))))
      else 0)"
  unfolding JumpInstDestination_def branch_result_def Let_def by simp

text \<open>C31: on an address at least 4 GB below the end of the address space, \<open>JumpInstDestination\<close> returns the
  address the processor would branch to, computed over the integers, whenever the instruction is a relative
  branch that lies within the range, its displacement does not exceed the address and the target is below
  the end; in every other case it returns 0.\<close>

theorem JumpInstDestination_target:
  assumes "start \<noteq> 0" and "ending \<noteq> 0" and "uint start + 2 ^ 32 < 2 ^ 64"
  shows "JumpInstDestination m start ending =
     (case relative_branch m start of
        None \<Rightarrow> 0
      | Some (n, off) \<Rightarrow>
          if uint start + n \<le> uint ending \<and> - off \<le> uint start \<and> uint start + n + off < uint ending
          then word_of_int (uint start + n + off) else 0)"
proof -
  have fits: "start + word_of_int n > ending \<longleftrightarrow> \<not> uint start + n \<le> uint ending" if "0 \<le> n" "n \<le> 6" for n
  proof -
    have "uint (start + word_of_int n) = uint start + n"
      using assms(3) that by (simp add: uint_word_ariths uint_word_of_int)
    then show ?thesis by (simp add: word_less_def not_le)
  qed
  have f: "start + 6 > ending \<longleftrightarrow> \<not> uint start + 6 \<le> uint ending"
      "start + 5 > ending \<longleftrightarrow> \<not> uint start + 5 \<le> uint ending"
      "start + 2 > ending \<longleftrightarrow> \<not> uint start + 2 \<le> uint ending"
    using fits [of 6] fits [of 5] fits [of 2] by simp_all
  have t: "branch_result start ending n off
      = (if - off \<le> uint start \<and> uint start + n + off < uint ending then word_of_int (uint start + n + off) else 0)"
    if "n \<in> {2, 5, 6}" "- (2 ^ 31) \<le> off \<and> off < 2 ^ 31" for n off
    unfolding branch_result_def using that assms(3) by (intro branch_target) auto
  note t6 = t [of 6 "sint w" for w :: "32 word"] and t5 = t [of 5 "sint w" for w :: "32 word"]
    and t2 = t [of 2 "sint w" for w :: "8 word"]
  consider "m start = 0x0F" | "m start = 0xE8 \<or> m start = 0xE9" | "0x70 \<le> m start \<and> m start \<le> 0x7F"
    | "m start \<noteq> 0x0F" "m start \<noteq> 0xE8" "m start \<noteq> 0xE9" "\<not> (0x70 \<le> m start \<and> m start \<le> 0x7F)" by blast
  then show ?thesis
  proof cases
    case 1
    with assms(1,2) f(1) t6 [OF _ sint_bound32] show ?thesis
      by (simp add: JumpInstDestination_branch relative_branch_def)
  next
    case 2
    with assms(1,2) f(2) t5 [OF _ sint_bound32] show ?thesis
      by (auto simp: JumpInstDestination_branch relative_branch_def)
  next
    case 3
    then have "m start \<noteq> 0x0F" "m start \<noteq> 0xE8" "m start \<noteq> 0xE9" by (auto simp: word_le_nat_alt)
    with 3 assms(1,2) f(3) t2 [OF _ sint_bound8] show ?thesis
      by (simp add: JumpInstDestination_branch relative_branch_def)
  next
    case 4
    with assms(1,2) show ?thesis by (auto simp: JumpInstDestination_branch relative_branch_def)
  qed
qed

theorem JumpInstDestination_target_witness:
  "JumpInstDestination (store_bytes (\<lambda>_. 0) 0x1000 [0xE8, 0xFB, 0xFF, 0xFF, 0xFF]) 0x1000 0x2000 = 0x1000
   \<and> JumpInstDestination (store_bytes (\<lambda>_. 0) 0x1000 [0x74, 0x10]) 0x1000 0x2000 = 0x1012"
proof -
  have "relative_branch (store_bytes (\<lambda>_. 0) 0x1000 [0xE8, 0xFB, 0xFF, 0xFF, 0xFF]) 0x1000 = Some (5, - 5)"
    "relative_branch (store_bytes (\<lambda>_. 0) 0x1000 [0x74, 0x10]) 0x1000 = Some (2, 16)" by code_simp+
  then show ?thesis
    using JumpInstDestination_target [of "0x1000" "0x2000" "store_bytes (\<lambda>_. 0) 0x1000 [0xE8, 0xFB, 0xFF, 0xFF, 0xFF]"]
      JumpInstDestination_target [of "0x1000" "0x2000" "store_bytes (\<lambda>_. 0) 0x1000 [0x74, 0x10]"] by simp
qed

section \<open>Solving by pattern\<close>

lemma solveWithin_unsolved:
  assumes "fst (solveSymbol ident y (clearError s)) = 0"
  shows "\<exists>s1. solveWithin ident y start sz s = Inr (0, s1) \<and> kmem s1 = kmem s"
  using assms
  by (auto simp: solveWithin_def solveSymbolRange_def solveSymbol_def Let_def clearError_def split: if_splits)

text \<open>The memory the pattern search sees: the symbol's failed lookup has cleared the slot.\<close>

definition searched_memory :: "patternSolveRequest \<Rightarrow> mem \<Rightarrow> mem" where
  "searched_memory r m = (if ps_symbol r = None then m else store64 m (ps_address r) 0)"

text \<open>C32: a solve request whose symbol is not found stores the address of the leftmost occurrence of its
  pattern in the image and succeeds; if there is none it fails, and the slot of a named request holds 0.\<close>

theorem Solve_pattern:
  assumes "ps_address r \<noteq> 0" and "start \<noteq> 0" and "sz \<noteq> 0"
    and "case ps_symbol r of None \<Rightarrow> True | Some y \<Rightarrow> fst (solveSymbol ident y (clearError s)) = 0"
    and "ps_pattern r = Some ptn" and "0 < ps_patternSize r"
  defines "occ \<equiv> occurs_at ptn (ps_mask r) (ps_patternSize r) (searched_memory r (kmem s)) start"
  shows "\<exists>s'. (Solve ident start sz r s = Inr (False, s') \<and> kmem s' = searched_memory r (kmem s)
        \<and> (\<forall>p. p + ps_patternSize r \<le> unat sz \<longrightarrow> \<not> occ p))
    \<or> (\<exists>p. Solve ident start sz r s = Inr (True, s') \<and> p + ps_patternSize r \<le> unat sz
        \<and> kmem s' = store64 (searched_memory r (kmem s)) (ps_address r) (start + of_nat p)
        \<and> occ p \<and> (\<forall>q < p. \<not> occ q))"
proof -
  let ?m = "searched_memory r (kmem s)"
  let ?find = "findPattern ptn (ps_mask r) (ps_patternSize r) ?m start (unat sz) 0"
  obtain s1 where s1: "kmem s1 = ?m" and S: "Solve ident start sz r s =
      (case ?find of None \<Rightarrow> Inr (False, s1)
        | Some off \<Rightarrow> Inr (True, s1\<lparr>kmem := store64 (kmem s1) (ps_address r) (start + of_nat off)\<rparr>))"
  proof (cases "ps_symbol r")
    case None
    with assms(1-3,5,6) that [of s] show ?thesis
      by (simp add: Solve_def solveByPattern_def searched_memory_def)
  next
    case (Some y)
    with assms(4) obtain t where "solveWithin ident y start sz s = Inr (0, t)" "kmem t = kmem s"
      using solveWithin_unsolved by force
    with Some assms(1-3,5,6) show ?thesis
      by (intro that [of "t\<lparr>kmem := ?m\<rparr>"])
         (simp_all add: Solve_def solveByPattern_def searched_memory_def split: option.split)
  qed
  show ?thesis
  proof (cases ?find)
    case None
    with S s1 fp.search_None [OF None assms(6)] show ?thesis by (auto simp: occ_def)
  next
    case (Some p)
    with S s1 fp.search_Some [OF Some] show ?thesis by (auto simp: occ_def)
  qed
qed

text \<open>A solve request by pattern over an image of zeros with the pattern at \<open>0x3004\<close>.\<close>

definition demo_solve :: patternSolveRequest where
  "demo_solve = \<lparr>ps_symbol = None, ps_address = 0x5000, ps_pattern = Some [0x55, 0x48], ps_mask = None, ps_patternSize = 2\<rparr>"

definition demo_solve_kp :: kpatcher where
  "demo_solve_kp = demo_kp\<lparr>kmem := store_bytes (\<lambda>_. 0) 0x3004 [0x55, 0x48, 0x55, 0x48]\<rparr>"

theorem Solve_pattern_witness:
  "\<exists>s'. Solve 0 0x3000 0x10 demo_solve demo_solve_kp = Inr (True, s') \<and> load64 (kmem s') 0x5000 = 0x3004"
proof -
  let ?m = "searched_memory demo_solve (kmem demo_solve_kp)"
  have o: "occurs_at [0x55, 0x48] None 2 ?m 0x3000 4" "\<not> occurs_at [0x55, 0x48] None 2 ?m 0x3000 0"
    "\<not> occurs_at [0x55, 0x48] None 2 ?m 0x3000 1" "\<not> occurs_at [0x55, 0x48] None 2 ?m 0x3000 2"
    "\<not> occurs_at [0x55, 0x48] None 2 ?m 0x3000 3" by code_simp+
  have p: "p = 4" if "occurs_at [0x55, 0x48] None 2 ?m 0x3000 p" "\<forall>q < p. \<not> occurs_at [0x55, 0x48] None 2 ?m 0x3000 q" for p
  proof -
    have "\<not> 4 < p" using that(2) o(1) by blast
    moreover have "p \<noteq> 0" "p \<noteq> 1" "p \<noteq> 2" "p \<noteq> 3" using that(1) o(2-5) by metis+
    ultimately show ?thesis by linarith
  qed
  have l: "load64 (store64 ?m 0x5000 (0x3000 + of_nat 4)) 0x5000 = 0x3004" by code_simp
  from Solve_pattern [of demo_solve "0x3000" "0x10" 0 demo_solve_kp "[0x55, 0x48]"] o(1) p l
  show ?thesis by (fastforce simp: demo_solve_def)
qed

section \<open>Properties of the batches\<close>

text \<open>On bare metal each of the four batch functions, whenever it returns, with success or with failure
  and whatever its requests did, leaves CR0, the interrupt flag, the write lock and its depth as it found
  them.\<close>

theorem batches_balanced:
  assumes "bare_metal s"
  shows "(SolveAll ident rs1 start sz s = Some (Inr (b, rs1', s')) \<longrightarrow> cpu_view s' = cpu_view s)
    \<and> (RouteAll ident rs2 start sz s = Some (Inr (b, rs2', s')) \<longrightarrow> cpu_view s' = cpu_view s)
    \<and> (JumpRouteAll ident rs3 start sz s = Some (Inr (b, rs3', s')) \<longrightarrow> cpu_view s' = cpu_view s)
    \<and> (ApplyAll ps start sz force s = Some (Inr (b, ps', s')) \<longrightarrow> cpu_view s' = cpu_view s)"
  unfolding SolveAll_def RouteAll_def JumpRouteAll_def ApplyAll_def
  by (intro conjI impI; erule solve_batch.batch_view [OF assms] route_batch.batch_view [OF assms]
        jump_batch.batch_view [OF assms] apply_batch.batch_view [OF assms])

definition demo_jump :: jumpPatternRouteRequest where
  "demo_jump = \<lparr>rq_symbol = None, rq_from = 0x1000, rq_to = 0x2000, rq_org = Some 0x4000,
     jp_pattern = None, jp_mask = None, jp_patternSize = 0, jumpInstOff = 0\<rparr>"

theorem batches_balanced_witness:
  "case JumpRouteAll 0 [demo_jump] 0 0 (demo_kp\<lparr>kmem := (\<lambda>_. 0x06)\<rparr>) of
     Some (Inr (b, rs, s')) \<Rightarrow> b \<and> load64 (kmem s') 0x4000 = 22 \<and> cpu_view s' = cpu_view demo_kp
   | _ \<Rightarrow> False"
proof -
  let ?s = "demo_kp\<lparr>kmem := (\<lambda>_. 0x06)\<rparr>"
  let ?r = "JumpRouteAll 0 [demo_jump] 0 0 ?s"
  have b: "bare_metal ?s" using demo_kp_ready by (simp add: route_ready_def bare_metal_def)
  have r: "case ?r of Some (Inr (b, rs, s')) \<Rightarrow> b \<and> load64 (kmem s') 0x4000 = 22
    | _ \<Rightarrow> False" by code_simp
  then obtain c rs s' where s': "?r = Some (Inr (c, rs, s'))" by (auto split: option.split_asm sum.split_asm)
  have "cpu_view s' = cpu_view ?s" 
    by (rule batches_balanced [OF b, where ?rs3.0 = "[demo_jump]" and ident = 0 and start = 0 and sz = 0,
          THEN conjunct2, THEN conjunct2, THEN conjunct1, THEN mp, OF s'])
  with r s' show ?thesis by (simp add: cpu_view_def)
qed

text \<open>A jump route with an original, of a function whose prologue does not decode, reports success: nothing
  is routed, and the number 22 is stored as the address of the original.\<close>

theorem JumpRoute_undecodable:
  assumes "bare_metal s" and "rq_symbol r = None" and "rq_from r \<noteq> 0" and "rq_org r = Some o1"
    and "instSizeAt (kmem s) (rq_from r) = 0" and "fst (readChain (kmem s) (rq_from r)) = 0"
  shows "\<exists>s'. JumpRoute ident start sz r s = Inr (True, r, s') \<and> code s' = DisasmFailure
    \<and> kmem s' = store64 (kmem s) o1 22"
proof -
  have sl: "slotFor Auto (jumpTooFar (rq_from r) (rq_to r) \<or> Auto = Long) None s = (0, s)" by (simp add: slotFor_def)
  have q: "quickInstructionSize (kmem s) (rq_from r) (route_length (jumpTooFar (rq_from r) (rq_to r) \<or> Auto = Long) 0) = 0"
    using assms(5) by (intro undecodable_any) (simp_all add: route_length_def jump_consts)
  from routeFunction_undecodable_by [where qis = quickInstructionSize and kr = True and rv = True and org = None,
      OF assms(1,6) _ sl q]
  obtain s' where "routeFunctionInternal quickInstructionSize (rq_from r) (rq_to r) True True True Auto None None s
      = Inr (EINVAL, s')" "kmem s' = kmem s" "code s' = DisasmFailure" by auto
  with assms(2-4) show ?thesis by (simp add: JumpRoute_def solveFrom_def Let_def EINVAL_def)
qed

theorem JumpRoute_undecodable_witness:
  "\<exists>s'. JumpRoute 0 0 0 demo_jump (demo_kp\<lparr>kmem := (\<lambda>_. 0x06)\<rparr>) = Inr (True, demo_jump, s')
     \<and> load64 (kmem s') 0x4000 = 22"
proof -
  let ?s = "demo_kp\<lparr>kmem := (\<lambda>_. 0x06)\<rparr>"
  have b: "bare_metal ?s" using demo_kp_ready by (simp add: route_ready_def bare_metal_def)
  have r: "rq_symbol demo_jump = None" "rq_from demo_jump \<noteq> 0" "rq_org demo_jump = Some 0x4000"
    by (simp_all add: demo_jump_def)
  have d: "instSizeAt (kmem ?s) (rq_from demo_jump) = 0" "fst (readChain (kmem ?s) (rq_from demo_jump)) = 0" by code_simp+
  have "load64 (store64 (kmem ?s) 0x4000 22) 0x4000 = 22" by code_simp
  with JumpRoute_undecodable [OF b r d, of 0 0 0] show ?thesis by auto
qed

end
