(* ===== verification/Lilu_Api.thy ===== *)
theory Lilu_Api
  imports Patcher_Plus
begin

text \<open>
  The plugin interface of Lilu (\<^verbatim>\<open>Lilu/Lilu/Sources/kern_api.cpp\<close>): access under a lock, registration of
  callbacks and of kexts to wait for, and the processing of what was registered.  A callback and the
  user pointer stored with it are addresses; what a callback does is a parameter.  The lock records the
  thread that holds it, and an operation that has to wait for it is \<open>None\<close>.  Reading and storing an image
  is a parameter whose result is the image or the error code set.
\<close>

section \<open>State\<close>

datatype api_error = ApiNoError | ApiLockError | MemoryError | UnsupportedFeature | IncompatibleOS | Disabled | TooLate | Offline

record apiconfig =
  installOrRecovery :: bool
  safeMode :: bool
  startSuccess :: bool
  betaForAll :: bool
  debugForAll :: bool

definition RunningNormal :: "32 word" where "RunningNormal = 1"
definition RunningInstallerRecovery :: "32 word" where "RunningInstallerRecovery = 2"
definition RunningSafeMode :: "32 word" where "RunningSafeMode = 4"

record procInfo =
  pi_path :: string
  pi_len :: "32 word"
  pi_section :: "32 word"
  pi_flags :: "32 word"

definition SectionDisabled :: "32 word" where "SectionDisabled = 0"

type_synonym stored_callback = "addr \<times> addr"

record liluapi =
  lock_alloc :: bool
  lock_holder :: "nat option"
  currentRunMode :: "32 word"
  apiRequestsOver :: bool
  patcherLoadedCallbacks :: "stored_callback evector"
  kextLoadedCallbacks :: "stored_callback evector"
  binaryLoadedCallbacks :: "stored_callback evector"
  entitlementRequestedCallbacks :: "stored_callback evector"
  storedKexts :: "kextinfo list evector"
  storedProcs :: "procInfo evector"
  storedBinaryMods :: "addr evector"
  api_allocs :: script

unbundle bit_operations_syntax

definition init_api :: "apiconfig \<Rightarrow> bool \<Rightarrow> liluapi \<Rightarrow> liluapi" where
  "init_api cfg allocated a =
     a\<lparr>lock_alloc := allocated, lock_holder := None,
       currentRunMode := currentRunMode a OR
         (if installOrRecovery cfg then RunningInstallerRecovery
          else if safeMode cfg then RunningSafeMode else RunningNormal)\<rparr>"

definition deinit_api :: "liluapi \<Rightarrow> liluapi" where
  "deinit_api a = (if lock_alloc a then a\<lparr>lock_alloc := False\<rparr> else a)"

section \<open>Access\<close>

definition ioLock :: "nat \<Rightarrow> liluapi \<Rightarrow> liluapi option" where
  "ioLock t a = (if lock_holder a = None then Some (a\<lparr>lock_holder := Some t\<rparr>) else None)"

definition ioUnlock :: "liluapi \<Rightarrow> liluapi" where
  "ioUnlock a = a\<lparr>lock_holder := None\<rparr>"

definition requestAccess :: "apiconfig \<Rightarrow> nat \<Rightarrow> nat \<Rightarrow> nat \<Rightarrow> bool \<Rightarrow> liluapi \<Rightarrow> (api_error \<times> liluapi) option" where
  "requestAccess cfg currversion t version check a =
     (if \<not> startSuccess cfg then Some (Offline, a)
      else if version > currversion then Some (UnsupportedFeature, a)
      else
        case ioLock t a of
          None \<Rightarrow> if check then Some (ApiLockError, a) else None
        | Some a1 \<Rightarrow> if apiRequestsOver a1 then Some (TooLate, ioUnlock a1) else Some (ApiNoError, a1))"

definition releaseAccess :: "liluapi \<Rightarrow> api_error \<times> liluapi" where
  "releaseAccess a = (ApiNoError, ioUnlock a)"

definition finaliseRequests :: "nat \<Rightarrow> liluapi \<Rightarrow> liluapi option" where
  "finaliseRequests t a =
     (case ioLock t a of None \<Rightarrow> None | Some a1 \<Rightarrow> Some (ioUnlock (a1\<lparr>apiRequestsOver := True\<rparr>)))"

text \<open>The result and \<open>printDebug\<close>.\<close>

definition shouldLoad ::
  "apiconfig \<Rightarrow> (string \<Rightarrow> bool) \<Rightarrow> nat \<Rightarrow> 32 word \<Rightarrow> string list \<Rightarrow> string list \<Rightarrow> string list \<Rightarrow> nat \<Rightarrow> nat \<Rightarrow> liluapi
    \<Rightarrow> api_error \<times> bool" where
  "shouldLoad cfg checkKernelArgument kver runmode disableArg debugArg betaArg mn mx a =
     (if runmode AND currentRunMode a = 0 then (Disabled, False)
      else if list_ex checkKernelArgument disableArg then (Disabled, False)
      else if \<not> compatibleKernel kver mn mx \<and> \<not> (betaForAll cfg \<or> list_ex checkKernelArgument betaArg)
      then (IncompatibleOS, False)
      else (ApiNoError, debugForAll cfg \<or> list_ex checkKernelArgument debugArg))"

section \<open>Registration\<close>

text \<open>Storing a new pair: its allocation, then the vector.\<close>

definition storePair :: "nat \<Rightarrow> 'b \<Rightarrow> script \<Rightarrow> 'b evector \<Rightarrow> bool \<times> script \<times> 'b evector" where
  "storePair MUL p sc v =
     (case next_alloc sc of
        (False, sc1) \<Rightarrow> (False, sc1, v)
      | (True, sc1) \<Rightarrow> ev_push_back MUL p sc1 v)"

definition onPatcherLoad :: "stored_callback \<Rightarrow> liluapi \<Rightarrow> api_error \<times> liluapi" where
  "onPatcherLoad p a =
     (let (ok, sc, v) = storePair 2 p (api_allocs a) (patcherLoadedCallbacks a);
          a1 = a\<lparr>api_allocs := sc, patcherLoadedCallbacks := v\<rparr>
      in (if ok then ApiNoError else MemoryError, a1))"

definition onKextLoad :: "kextinfo list option \<Rightarrow> stored_callback option \<Rightarrow> liluapi \<Rightarrow> api_error \<times> liluapi" where
  "onKextLoad infos callback a =
     (let (ok, a1) =
            (case callback of
               None \<Rightarrow> (True, a)
             | Some p \<Rightarrow>
                 let (ok, sc, v) = storePair 4 p (api_allocs a) (kextLoadedCallbacks a)
                 in (ok, a\<lparr>api_allocs := sc, kextLoadedCallbacks := v\<rparr>))
      in if \<not> ok then (MemoryError, a1)
         else
           case infos of
             None \<Rightarrow> (ApiNoError, a1)
           | Some ks \<Rightarrow>
               let (ok, sc, v) = storePair 4 ks (api_allocs a1) (storedKexts a1);
                   a2 = a1\<lparr>api_allocs := sc, storedKexts := v\<rparr>
               in (if ok then ApiNoError else MemoryError, a2))"

text \<open>The two loops of \<open>onProcLoad\<close>: elements that are filtered out are skipped, the first failure ends it.\<close>

fun pushEach :: "('b \<Rightarrow> bool) \<Rightarrow> 'b list \<Rightarrow> script \<Rightarrow> 'b evector \<Rightarrow> bool \<times> script \<times> 'b evector" where
  "pushEach keep [] sc v = (True, sc, v)"
| "pushEach keep (x # xs) sc v =
     (if keep x then
        (case ev_push_back 2 x sc v of
           (True, sc1, v1) \<Rightarrow> pushEach keep xs sc1 v1
         | (False, sc1, v1) \<Rightarrow> (False, sc1, v1))
      else pushEach keep xs sc v)"

definition onProcLoad :: "procInfo list \<Rightarrow> stored_callback option \<Rightarrow> addr list \<Rightarrow> liluapi \<Rightarrow> api_error \<times> liluapi" where
  "onProcLoad infos callback mods a =
     (let (ok, a1) =
            (case callback of
               None \<Rightarrow> (True, a)
             | Some p \<Rightarrow>
                 let (ok, sc, v) = storePair 2 p (api_allocs a) (binaryLoadedCallbacks a)
                 in (ok, a\<lparr>api_allocs := sc, binaryLoadedCallbacks := v\<rparr>))
      in if \<not> ok then (MemoryError, a1)
         else
           let (ok1, sc1, ps) = pushEach (\<lambda>i. pi_section i \<noteq> SectionDisabled) infos (api_allocs a1) (storedProcs a1);
               a2 = a1\<lparr>api_allocs := sc1, storedProcs := ps\<rparr>
           in if \<not> ok1 then (MemoryError, a2)
              else
                let (ok2, sc2, ms) = pushEach (\<lambda>_. True) mods (api_allocs a2) (storedBinaryMods a2)
                in (if ok2 then ApiNoError else MemoryError, a2\<lparr>api_allocs := sc2, storedBinaryMods := ms\<rparr>))"

definition onEntitlementRequest :: "stored_callback \<Rightarrow> liluapi \<Rightarrow> api_error \<times> liluapi" where
  "onEntitlementRequest p a =
     (let (ok, sc, v) = storePair 2 p (api_allocs a) (entitlementRequestedCallbacks a);
          a1 = a\<lparr>api_allocs := sc, entitlementRequestedCallbacks := v\<rparr>
      in (if ok then ApiNoError else MemoryError, a1))"

section \<open>Processing\<close>

fun callEach :: "(stored_callback \<Rightarrow> 's \<Rightarrow> 's res) \<Rightarrow> stored_callback list \<Rightarrow> 's \<Rightarrow> 's res" where
  "callEach call [] s = Inr s"
| "callEach call (p # ps) s = res_bind (call p s) (callEach call ps)"

text \<open>\<open>KernelPatcher::loadKinfo\<close>.  \<open>load\<close> creates, reads and stores the image.\<close>

fun findKinfo :: "string \<Rightarrow> nat \<Rightarrow> machinfo list \<Rightarrow> nat option" where
  "findKinfo i n [] = None"
| "findKinfo i n (k # ks) = (if objectId k = Some i then Some n else findKinfo i (Suc n) ks)"

definition INVALID :: nat where "INVALID = 0"

definition loadKinfo ::
  "(kextinfo \<Rightarrow> 'a kpatcher_scheme \<Rightarrow> kerror + machinfo) \<Rightarrow> kextinfo \<Rightarrow> 'a kpatcher_scheme \<Rightarrow> kextinfo \<times> 'a kpatcher_scheme" where
  "loadKinfo load info s =
     (if loadIndex info \<noteq> Unloaded then (info, s)
      else
        let (idx, s1) =
              (case findKinfo (ki_id info) 0 (kinfos s) of
                 Some i \<Rightarrow> (i, s\<lparr>code := AlreadyDone\<rparr>)
               | None \<Rightarrow>
                   (case load info s of
                      Inl e \<Rightarrow> (INVALID, s\<lparr>code := e\<rparr>)
                    | Inr k \<Rightarrow> (length (kinfos s), s\<lparr>kinfos := kinfos s @ [k]\<rparr>)))
        in (if code s1 = NoError \<or> code s1 = AlreadyDone then info\<lparr>loadIndex := idx\<rparr> else info, s1))"

text \<open>The hook addresses of the listener.\<close>

record khooks =
  onUnload :: addr
  orgUnload :: addr
  onSave :: addr
  orgSave :: addr

text \<open>One kext of the inner loop; the boolean says whether both loops end.\<close>

definition queueKext ::
  "(kextinfo \<Rightarrow> 'a kpatcher_scheme \<Rightarrow> kerror + machinfo) \<Rightarrow> khooks \<Rightarrow> kextinfo \<Rightarrow> klisten \<Rightarrow> 'a kpatcher_scheme
    \<Rightarrow> (bool \<times> kextinfo \<times> klisten \<times> 'a kpatcher_scheme) res" where
  "queueKext load hk info kl s =
     (if ki_disabled info then Inr (False, info, kl, s)
      else if ki_fsonly info \<and> ki_pathNum info = 0 then Inr (False, info, kl, s)
      else
        let (info1, s1) = loadKinfo load info s
        in if code s1 \<noteq> NoError then
             Inr (False, info1,
                  if code s1 = AlreadyDone \<and> (ki_loaded info1 \<or> ki_reloadable info1)
                  then updateKextHandlerFeatures info1 kl else kl,
                  clearError s1)
           else
             res_bind (setupKextListening (onUnload hk) (orgUnload hk) (onSave hk) (orgSave hk) kl s1)
               (\<lambda>(kl1, s2).
                  if code s2 \<noteq> NoError then Inr (True, info1, kl1, clearError s2)
                  else
                    let (created, sc) = next_alloc (allocs s2); s3 = s2\<lparr>allocs := sc\<rparr>
                    in if \<not> created then Inr (True, info1, kl1, s3)
                       else
                         let (kl2, s4) = waitOnKext (create_handler (ki_id info1) (loadIndex info1) (ki_loaded info1)
                                                       (ki_reloadable info1)) kl1 s3
                         in if code s4 \<noteq> NoError then Inr (True, info1, kl2, clearError s4)
                            else Inr (False, info1, kl2, s4)))"

fun queueKexts ::
  "(kextinfo \<Rightarrow> 'a kpatcher_scheme \<Rightarrow> kerror + machinfo) \<Rightarrow> khooks \<Rightarrow> kextinfo list \<Rightarrow> klisten \<Rightarrow> 'a kpatcher_scheme
    \<Rightarrow> (bool \<times> kextinfo list \<times> klisten \<times> 'a kpatcher_scheme) res" where
  "queueKexts load hk [] kl s = Inr (False, [], kl, s)"
| "queueKexts load hk (k # ks) kl s =
     res_bind (queueKext load hk k kl s)
       (\<lambda>(stop, k1, kl1, s1).
          if stop then Inr (True, k1 # ks, kl1, s1)
          else
            res_bind (queueKexts load hk ks kl1 s1)
              (\<lambda>(stop', ks1, kl2, s2). Inr (stop', k1 # ks1, kl2, s2)))"

fun queueStored ::
  "(kextinfo \<Rightarrow> 'a kpatcher_scheme \<Rightarrow> kerror + machinfo) \<Rightarrow> khooks \<Rightarrow> kextinfo list list \<Rightarrow> klisten \<Rightarrow> 'a kpatcher_scheme
    \<Rightarrow> (kextinfo list list \<times> klisten \<times> 'a kpatcher_scheme) res" where
  "queueStored load hk [] kl s = Inr ([], kl, s)"
| "queueStored load hk (ks # kss) kl s =
     res_bind (queueKexts load hk ks kl s)
       (\<lambda>(stop, ks1, kl1, s1).
          if stop then Inr (ks1 # kss, kl1, s1)
          else res_bind (queueStored load hk kss kl1 s1) (\<lambda>(kss1, kl2, s2). Inr (ks1 # kss1, kl2, s2)))"

text \<open>A patcher callback may switch kexts off, so it acts on the stored kexts and on the patcher.\<close>

definition processPatcherLoadCallbacks ::
  "(stored_callback \<Rightarrow> kextinfo list list \<times> 'a kpatcher_scheme \<Rightarrow> (kextinfo list list \<times> 'a kpatcher_scheme) res)
    \<Rightarrow> (kextinfo \<Rightarrow> 'a kpatcher_scheme \<Rightarrow> kerror + machinfo) \<Rightarrow> khooks \<Rightarrow> addr \<Rightarrow> addr \<Rightarrow> liluapi \<Rightarrow> klisten \<Rightarrow> 'a kpatcher_scheme
    \<Rightarrow> (liluapi \<times> klisten \<times> 'a kpatcher_scheme) res" where
  "processPatcherLoadCallbacks call load hk copyEntitlement orgCopyEntitlement a kl s =
     res_bind (callEach call (ev_items (patcherLoadedCallbacks a)) (ev_items (storedKexts a), s))
       (\<lambda>(kss, s1).
          res_bind (if ev_size (entitlementRequestedCallbacks a) > 0 then
                      res_bind (routeMultiple KernelID
                          [\<lparr>rq_symbol = Some ''__ZN12IOUserClient21copyClientEntitlementEP4taskPKc'', rq_from = 0,
                            rq_to = copyEntitlement, rq_org = Some orgCopyEntitlement\<rparr>] 0 0 True False s1)
                        (\<lambda>(ok, rs, s2). Inr s2)
                    else Inr s1)
            (\<lambda>s2. res_bind (queueStored load hk kss kl s2)
                    (\<lambda>(kss1, kl1, s3). Inr (a\<lparr>storedKexts := (storedKexts a)\<lparr>ev_items := kss1\<rparr>\<rparr>, kl1, s3))))"

definition processKextLoadCallbacks ::
  "nat \<Rightarrow> addr \<Rightarrow> (nat \<Rightarrow> addr \<Rightarrow> u64 \<Rightarrow> stored_callback \<Rightarrow> 'a kpatcher_scheme \<Rightarrow> 'a kpatcher_scheme res) \<Rightarrow> liluapi
    \<Rightarrow> nat \<Rightarrow> addr \<Rightarrow> u64 \<Rightarrow> bool \<Rightarrow> kbase \<Rightarrow> 'a kpatcher_scheme \<Rightarrow> (kbase \<times> 'a kpatcher_scheme) res" where
  "processKextLoadCallbacks kver IOLog call a ident slide sz reloadable st s =
     (case updateRunningInfo kver IOLog ident slide sz reloadable st s of
        None \<Rightarrow> Inl (Panic ''stuck'')
      | Some (sz1, st1, s1) \<Rightarrow>
          res_bind (callEach (call ident slide sz1) (ev_items (kextLoadedCallbacks a)) s1) (\<lambda>s2. Inr (st1, s2)))"

text \<open>The callback that every queued handler carries.\<close>

definition kextNotification where
  "kextNotification kver IOLog call a h st s =
     processKextLoadCallbacks kver IOLog call a (h_index h) (h_address h) (h_size h) (h_reloadable h) st s"

text \<open>The loop that drops disabled processes, erasing in place.\<close>

function dropDisabled :: "nat \<Rightarrow> procInfo evector \<Rightarrow> procInfo evector res" where
  "dropDisabled i v =
     (if i < ev_size v then
        if pi_section (ev_items v ! i) = SectionDisabled
        then (case ev_erase i True v of Inl e \<Rightarrow> Inl e | Inr v1 \<Rightarrow> dropDisabled i v1)
        else dropDisabled (Suc i) v
      else Inr v)"
  by pat_completeness auto
termination
  by (relation "measure (\<lambda>(i, v). ev_size v - i)")
     (auto simp: ev_erase_def ev_size_def ev_empty_def split: if_splits)

definition processUserLoadCallbacks ::
  "(procInfo list \<Rightarrow> addr list \<Rightarrow> 'u \<Rightarrow> bool \<times> 'u) \<Rightarrow> liluapi \<Rightarrow> 'u \<Rightarrow> (liluapi \<times> 'u) res" where
  "processUserLoadCallbacks registerPatches a u =
     (if ev_size (storedProcs a) = 0 \<and> ev_size (storedBinaryMods a) = 0 then Inr (a, u)
      else
        res_bind (dropDisabled 0 (storedProcs a))
          (\<lambda>v. Inr (a\<lparr>storedProcs := v\<rparr>, snd (registerPatches (ev_items v) (ev_items (storedBinaryMods a)) u))))"

definition processBinaryLoadCallbacks ::
  "(stored_callback \<Rightarrow> 'u \<Rightarrow> 'u res) \<Rightarrow> liluapi \<Rightarrow> 'u \<Rightarrow> 'u res" where
  "processBinaryLoadCallbacks call a u = callEach call (ev_items (binaryLoadedCallbacks a)) u"

definition copyClientEntitlement ::
  "('t \<Rightarrow> string \<Rightarrow> 'o) option \<Rightarrow> ('t \<Rightarrow> string \<Rightarrow> stored_callback \<Rightarrow> 'o \<Rightarrow> 'o res) \<Rightarrow> liluapi \<Rightarrow> 't \<Rightarrow> string
    \<Rightarrow> 'o option res" where
  "copyClientEntitlement org call a task entitlement =
     (case org of
        None \<Rightarrow> Inr None
      | Some f \<Rightarrow> res_bind (callEach (call task entitlement) (ev_items (entitlementRequestedCallbacks a)) (f task entitlement))
                    (\<lambda>obj. Inr (Some obj)))"

section \<open>Clients of the interface\<close>

text \<open>What a client may do: ask for access, and register and release while it holds the lock.  The start-up
  code finalises.\<close>

definition registrations :: "liluapi \<Rightarrow> liluapi set" where
  "registrations a = {a'. (\<exists>p. a' = snd (onPatcherLoad p a)) \<or> (\<exists>i c. a' = snd (onKextLoad i c a))
     \<or> (\<exists>i c m. a' = snd (onProcLoad i c m a)) \<or> (\<exists>p. a' = snd (onEntitlementRequest p a))}"

inductive api_step :: "apiconfig \<Rightarrow> nat \<Rightarrow> liluapi \<Rightarrow> liluapi \<Rightarrow> bool" for cfg cv where
  request: "requestAccess cfg cv t version check a = Some (e, a') \<Longrightarrow> api_step cfg cv a a'"
| register: "lock_holder a = Some t \<Longrightarrow> a' \<in> registrations a \<Longrightarrow> api_step cfg cv a a'"
| release: "lock_holder a = Some t \<Longrightarrow> api_step cfg cv a (snd (releaseAccess a))"
| finalise: "finaliseRequests t a = Some a' \<Longrightarrow> api_step cfg cv a a'"

text \<open>What was registered.\<close>

definition registered where
  "registered a = (patcherLoadedCallbacks a, kextLoadedCallbacks a, binaryLoadedCallbacks a,
     entitlementRequestedCallbacks a, storedKexts a, storedProcs a, storedBinaryMods a)"

lemma requestAccess_lock:
  assumes "requestAccess cfg cv t version check a = Some (e, a')"
  shows "registered a' = registered a" "apiRequestsOver a' = apiRequestsOver a"
    "lock_holder a' = (if e = ApiNoError then Some t else lock_holder a)"
    "e = ApiNoError \<Longrightarrow> lock_holder a = None \<and> \<not> apiRequestsOver a"
  using assms by (auto simp: requestAccess_def ioLock_def ioUnlock_def registered_def split: if_split_asm)

text \<open>Once the requests are over and nobody holds the lock, no step changes what was registered.\<close>

definition closed :: "liluapi \<Rightarrow> bool" where
  "closed a \<longleftrightarrow> apiRequestsOver a \<and> lock_holder a = None"

lemma closed_step:
  assumes "api_step cfg cv a a'" and "closed a"
  shows "closed a' \<and> registered a' = registered a"
  using assms
proof cases
  case (request t version check e)
  from requestAccess_lock [OF request] assms(2) show ?thesis by (auto simp: closed_def)
next
  case (finalise t)
  with assms(2) show ?thesis by (auto simp: finaliseRequests_def ioLock_def ioUnlock_def closed_def registered_def)
qed (auto simp: closed_def)

lemma finalise_closed: "finaliseRequests t a = Some a' \<Longrightarrow> closed a' \<and> registered a' = registered a"
  by (auto simp: finaliseRequests_def ioLock_def ioUnlock_def closed_def registered_def split: if_split_asm)

text \<open>C33: after \<open>finaliseRequests\<close> has returned, whatever clients do under the protocol and in whatever order
  their calls interleave, the registered callbacks, kexts and processes stay as they were, and no request
  for access is granted.\<close>

theorem api_closed:
  assumes "finaliseRequests t a = Some a1" and "(api_step cfg cv)\<^sup>*\<^sup>* a1 a2"
  shows "registered a2 = registered a
    \<and> (requestAccess cfg cv t' version check a2 = Some (e, a3) \<longrightarrow> e \<noteq> ApiNoError \<and> e \<noteq> ApiLockError \<and> a3 = a2)"
proof -
  have "closed a2 \<and> registered a2 = registered a1"
    using assms(2) finalise_closed [OF assms(1)] by (induction) (auto dest: closed_step)
  moreover have "e \<noteq> ApiNoError \<and> e \<noteq> ApiLockError \<and> a3 = a2"
    if "closed a2" "requestAccess cfg cv t' version check a2 = Some (e, a3)"
    using that by (auto simp: closed_def requestAccess_def ioLock_def ioUnlock_def split: if_split_asm)
  ultimately show ?thesis using finalise_closed [OF assms(1)] by metis
qed

section \<open>The queued handlers\<close>

text \<open>Every handler of the queue names an image the patcher holds and a kext that was asked for.\<close>

definition listener_ok :: "string set \<Rightarrow> klisten \<Rightarrow> 'a kpatcher_scheme \<Rightarrow> bool" where
  "listener_ok ids kl s \<longleftrightarrow> bare_metal s \<and> kinfos s \<noteq> []
     \<and> (\<forall>h\<in>set (ev_items (khandlers kl)). h_index h < length (kinfos s) \<and> h_id h \<in> ids)"

lemma findKinfo_bound: "findKinfo i n ks = Some m \<Longrightarrow> m < n + length ks"
  by (induction ks arbitrary: n) (force split: if_split_asm)+

lemma loadKinfo_ok:
  assumes "loadKinfo load info s = (info1, s1)" and "listener_ok ids kl s" and "loadIndex info < length (kinfos s)"
  shows "listener_ok ids kl s1 \<and> length (kinfos s) \<le> length (kinfos s1) \<and> loadIndex info1 < length (kinfos s1)
    \<and> ki_id info1 = ki_id info"
  using assms findKinfo_bound [of "ki_id info" 0 "kinfos s"]
  by (fastforce simp: loadKinfo_def listener_ok_def bare_metal_def INVALID_def Let_def
      split: if_split_asm option.split_asm sum.split_asm)

lemma setupKextListening_ok:
  assumes "setupKextListening u ou sv os kl s = Inr (kl1, s1)" and "listener_ok ids kl s"
  shows "listener_ok ids kl1 s1 \<and> length (kinfos s1) = length (kinfos s)"
proof -
  obtain k t where t: "solveSymbol KernelID ''_kmod'' s = (k, t)" by (cases "solveSymbol KernelID ''_kmod'' s")
  have v: "cpu_view t = cpu_view s" using view_solveSymbol [of KernelID "''_kmod''" s] t by simp
  have bm: "bare_metal s" using assms(2) by (simp add: listener_ok_def)
  have "cpu_view s1 = cpu_view s \<and> khandlers kl1 = khandlers kl"
    using assms(1) t v view_routeMultiple [OF view_bare [OF v bm]]
    by (auto simp: setupKextListening_def res_bind_eq_Inr Let_def routeMultiple_def split: if_split_asm)
  moreover from this have "bare_metal s1" "length (kinfos s1) = length (kinfos s)"
    using view_bare bm by (auto simp: cpu_view_def)
  ultimately show ?thesis using assms(2) by (auto simp: listener_ok_def)
qed

lemma waitOnKext_ok:
  assumes "waitOnKext h kl s = (kl1, s1)" and "listener_ok ids kl s" and "h_index h < length (kinfos s)" and "h_id h \<in> ids"
  shows "listener_ok ids kl1 s1 \<and> length (kinfos s1) = length (kinfos s)"
  using assms
  by (auto simp: waitOnKext_def listener_ok_def bare_metal_def ev_push_back_cases Let_def split: if_split_asm)

lemma listener_clear: "listener_ok ids kl s \<Longrightarrow> listener_ok ids kl (clearError s)"
  by (simp add: listener_ok_def clearError_def bare_metal_def)

lemma updateFeatures_ids:
  "\<forall>h\<in>set hs. h_index h < n \<and> h_id h \<in> ids \<Longrightarrow> \<forall>h\<in>set (updateFeatures info hs). h_index h < n \<and> h_id h \<in> ids"
  by (induction hs) auto

lemma listener_features: "listener_ok ids kl s \<Longrightarrow> listener_ok ids (updateKextHandlerFeatures info kl) s"
  using updateFeatures_ids [of "ev_items (khandlers kl)" "length (kinfos s)" ids info]
  by (simp add: listener_ok_def updateKextHandlerFeatures_def)

lemma queueKext_ok:
  assumes "queueKext load hk info kl s = Inr (stop, info', kl', s')" and "listener_ok ids kl s"
    and "loadIndex info < length (kinfos s)" and "\<not> ki_disabled info \<longrightarrow> ki_id info \<in> ids"
  shows "listener_ok ids kl' s' \<and> length (kinfos s) \<le> length (kinfos s') \<and> loadIndex info' < length (kinfos s')"
proof (cases "ki_disabled info \<or> (ki_fsonly info \<and> ki_pathNum info = 0)")
  case True
  then have "queueKext load hk info kl s = Inr (False, info, kl, s)" unfolding queueKext_def by auto
  with assms show ?thesis by simp
next
  case False
  obtain info1 s1 where 1: "loadKinfo load info s = (info1, s1)" by (cases "loadKinfo load info s")
  note l = loadKinfo_ok [OF 1 assms(2,3)]
  show ?thesis
  proof (cases "code s1 = NoError")
    case c: False
    then have "info' = info1" "s' = clearError s1" "kl' = kl \<or> kl' = updateKextHandlerFeatures info1 kl"
      using assms(1) False 1 by (auto simp: queueKext_def split: if_split_asm)
    with l show ?thesis using listener_features [of ids kl s1 info1] listener_clear [of ids _ s1]
      by (auto simp: clearError_def)
  next
    case True
    with assms(1) False 1 obtain kl1 s2 where
      2: "setupKextListening (onUnload hk) (orgUnload hk) (onSave hk) (orgSave hk) kl s1 = Inr (kl1, s2)"
      by (auto simp: queueKext_def res_bind_eq_Inr)
    have o: "listener_ok ids kl1 s2 \<and> length (kinfos s2) = length (kinfos s1)"
      by (rule setupKextListening_ok [OF 2]) (simp add: l)
    let ?h = "create_handler (ki_id info1) (loadIndex info1) (ki_loaded info1) (ki_reloadable info1)"
    let ?s3 = "s2\<lparr>allocs := snd (next_alloc (allocs s2))\<rparr>"
    obtain kl2 s4 where 4: "waitOnKext ?h kl1 ?s3 = (kl2, s4)" by (cases "waitOnKext ?h kl1 ?s3")
    have o3: "listener_ok ids kl1 ?s3" using o by (auto simp: listener_ok_def bare_metal_def)
    have w: "listener_ok ids kl2 s4 \<and> length (kinfos s4) = length (kinfos ?s3)"
      using assms(4) False l o by (intro waitOnKext_ok [OF 4 o3]) (auto simp: create_handler_def)
    have "info' = info1 \<and> ((kl', s') = (kl1, clearError s2) \<or> (kl', s') = (kl1, ?s3) \<or> (kl', s') = (kl2, clearError s4)
        \<or> (kl', s') = (kl2, s4))"
      using assms(1) False True 1 2 4 by (auto simp: queueKext_def Let_def split: prod.split_asm if_split_asm)
    with o o3 w l show ?thesis using listener_clear [of ids kl1 s2] listener_clear [of ids kl2 s4]
      by (auto simp: clearError_def)
  qed
qed

lemma queueKexts_ok:
  "queueKexts load hk ks kl s = Inr (stop, ks', kl', s') \<Longrightarrow> listener_ok ids kl s
    \<Longrightarrow> \<forall>k\<in>set ks. loadIndex k < length (kinfos s) \<and> (\<not> ki_disabled k \<longrightarrow> ki_id k \<in> ids)
    \<Longrightarrow> listener_ok ids kl' s' \<and> length (kinfos s) \<le> length (kinfos s')"
proof (induction ks arbitrary: kl s stop ks')
  case (Cons k ks)
  from Cons.prems(1) obtain st k1 kl1 s1 where 1: "queueKext load hk k kl s = Inr (st, k1, kl1, s1)"
    by (auto simp: res_bind_eq_Inr)
  have o: "listener_ok ids kl1 s1 \<and> length (kinfos s) \<le> length (kinfos s1) \<and> loadIndex k1 < length (kinfos s1)"
    using Cons.prems(3) by (intro queueKext_ok [OF 1 Cons.prems(2)]) auto
  show ?case
  proof (cases st)
    case True
    with Cons.prems(1) 1 o show ?thesis by simp
  next
    case False
    with Cons.prems(1) 1 obtain stop1 ks1 where 2: "queueKexts load hk ks kl1 s1 = Inr (stop1, ks1, kl', s')"
      by (auto simp: res_bind_eq_Inr)
    have "listener_ok ids kl' s' \<and> length (kinfos s1) \<le> length (kinfos s')"
      using Cons.prems(3) o by (intro Cons.IH [OF 2]) (auto intro: less_le_trans)
    with o show ?thesis by auto
  qed
qed simp

text \<open>Queueing the stored kexts, however it ends, leaves a queue in which every handler names an image
  the patcher holds and the identifier of an enabled kext, so no kext notification reads behind the images.\<close>

theorem queueStored_ok:
  "queueStored load hk kss kl s = Inr (kss', kl', s') \<Longrightarrow> listener_ok ids kl s
    \<Longrightarrow> \<forall>ks\<in>set kss. \<forall>k\<in>set ks. loadIndex k < length (kinfos s) \<and> (\<not> ki_disabled k \<longrightarrow> ki_id k \<in> ids)
    \<Longrightarrow> listener_ok ids kl' s' \<and> length (kinfos s) \<le> length (kinfos s')"
proof (induction kss arbitrary: kl s kss')
  case (Cons ks kss)
  from Cons.prems(1) obtain stop ks1 kl1 s1 where 1: "queueKexts load hk ks kl s = Inr (stop, ks1, kl1, s1)"
    by (auto simp: res_bind_eq_Inr)
  have o: "listener_ok ids kl1 s1 \<and> length (kinfos s) \<le> length (kinfos s1)"
    using Cons.prems(3) by (intro queueKexts_ok [OF 1 Cons.prems(2)]) auto
  show ?case
  proof (cases stop)
    case True
    with Cons.prems(1) 1 o show ?thesis by simp
  next
    case False
    with Cons.prems(1) 1 obtain kss1 where 2: "queueStored load hk kss kl1 s1 = Inr (kss1, kl', s')"
      by (auto simp: res_bind_eq_Inr)
    have "listener_ok ids kl' s' \<and> length (kinfos s1) \<le> length (kinfos s')"
      using Cons.prems(3) o by (intro Cons.IH [OF 2]) (auto intro: less_le_trans)
    with o show ?thesis by auto
  qed
qed simp

text \<open>A kernel with one enabled and one disabled kext to wait for; reading an image always succeeds.\<close>

definition demo_api :: liluapi where
  "demo_api = \<lparr>lock_alloc = True, lock_holder = None, currentRunMode = 1, apiRequestsOver = False,
     patcherLoadedCallbacks = ev_empty, kextLoadedCallbacks = ev_empty, binaryLoadedCallbacks = ev_empty,
     entitlementRequestedCallbacks = ev_empty, storedKexts = ev_empty, storedProcs = ev_empty,
     storedBinaryMods = ev_empty, api_allocs = []\<rparr>"

definition demo_config :: apiconfig where
  "demo_config = \<lparr>installOrRecovery = False, safeMode = False, startSuccess = True, betaForAll = False, debugForAll = False\<rparr>"

definition demo_listen :: klisten where
  "demo_listen = \<lparr>khandlers = ev_empty, waitingForAlreadyLoadedKexts = False, isKextUnloading = False, activated = False,
     that = True, kextKmods = 0x6000, kl_base = undefined\<rparr>"

definition demo_load :: "kextinfo \<Rightarrow> kpatcher \<Rightarrow> kerror + machinfo" where
  "demo_load info s = Inr (new_machinfo False (Some (ki_id info)))"

theorem api_closed_witness:
  "\<exists>a1 a2. finaliseRequests 0 (snd (onPatcherLoad (0x1000, 0) demo_api)) = Some a1
     \<and> requestAccess demo_config 170 1 120 False a1 = Some (TooLate, a2)
     \<and> ev_items (patcherLoadedCallbacks a2) = [(0x1000, 0)]"
proof -
  let ?a = "snd (onPatcherLoad (0x1000, 0) demo_api)"
  have "lock_holder ?a = None" by code_simp
  then obtain a1 where f: "finaliseRequests 0 ?a = Some a1" by (simp add: finaliseRequests_def ioLock_def)
  obtain e a2 where r: "requestAccess demo_config 170 1 120 False a1 = Some (e, a2)" "e = TooLate"
    using finalise_closed [OF f] by (simp add: requestAccess_def ioLock_def closed_def demo_config_def)
  have s: "(api_step demo_config 170)\<^sup>*\<^sup>* a1 a1" "(api_step demo_config 170)\<^sup>*\<^sup>* a1 a2"
    using api_step.request [OF r(1)] by auto
  have p: "ev_items (patcherLoadedCallbacks ?a) = [(0x1000, 0)]" by code_simp
  from api_closed [OF f s(2)] p f r show ?thesis by (auto simp: registered_def)
qed

theorem queueStored_ok_witness:
  "\<exists>kss kl s. queueStored demo_load \<lparr>onUnload = 0, orgUnload = 0, onSave = 0, orgSave = 0\<rparr>
       [[demo_kext\<lparr>loadIndex := 0\<rparr>, demo_kext\<lparr>ki_id := ''other'', ki_disabled := True, loadIndex := 0\<rparr>]] demo_listen demo_kp
       = Inr (kss, kl, s)
     \<and> map h_index (ev_items (khandlers kl)) = [1] \<and> listener_ok {''com.apple.demo''} kl s"
proof -
  let ?kss = "[[demo_kext\<lparr>loadIndex := 0\<rparr>, demo_kext\<lparr>ki_id := ''other'', ki_disabled := True, loadIndex := 0\<rparr>]]"
  let ?q = "queueStored demo_load \<lparr>onUnload = 0, orgUnload = 0, onSave = 0, orgSave = 0\<rparr> ?kss demo_listen demo_kp"
  have c: "case ?q of Inl _ \<Rightarrow> False | Inr (_, kl, _) \<Rightarrow> map h_index (ev_items (khandlers kl)) = [1]" by code_simp
  then obtain kss kl s where q: "?q = Inr (kss, kl, s)" by (auto split: sum.split_asm)
  have l: "listener_ok {''com.apple.demo''} demo_listen demo_kp"
    using demo_kp_ready by (simp add: listener_ok_def route_ready_def demo_listen_def ev_empty_def demo_kp_def)
  have k: "\<forall>ks\<in>set ?kss. \<forall>k\<in>set ks. loadIndex k < length (kinfos demo_kp) \<and> (\<not> ki_disabled k \<longrightarrow> ki_id k \<in> {''com.apple.demo''})"
    by (simp add: demo_kext_def demo_kp_def)
  from queueStored_ok [OF q l k] c q show ?thesis by auto
qed

section \<open>Processes\<close>

declare dropDisabled.simps [simp del]

lemma dropDisabled_items:
  "i \<le> ev_size v \<Longrightarrow> \<exists>w. dropDisabled i v = Inr w
     \<and> ev_items w = take i (ev_items v) @ filter (\<lambda>p. pi_section p \<noteq> SectionDisabled) (drop i (ev_items v))"
proof (induction i v rule: dropDisabled.induct)
  case (1 i v)
  let ?keep = "\<lambda>p. pi_section p \<noteq> SectionDisabled"
  show ?case
  proof (cases "i < ev_size v")
    case False
    then have "dropDisabled i v = Inr v" by (subst dropDisabled.simps) simp
    with False 1(3) show ?thesis by (simp add: ev_size_def)
  next
    case i: True
    then have d: "drop i (ev_items v) = ev_items v ! i # drop (Suc i) (ev_items v)"
      by (simp add: ev_size_def Cons_nth_drop_Suc)
    show ?thesis
    proof (cases "?keep (ev_items v ! i)")
      case True
      have "Suc i \<le> ev_size v" using i by simp
      from 1(2) [OF i _ this] True obtain w where "dropDisabled (Suc i) v = Inr w"
        "ev_items w = take (Suc i) (ev_items v) @ filter ?keep (drop (Suc i) (ev_items v))" by auto
      moreover have "dropDisabled i v = dropDisabled (Suc i) v" using True i by (subst dropDisabled.simps) simp
      ultimately show ?thesis using True i d by (simp add: take_Suc_conv_app_nth ev_size_def)
    next
      case False
      obtain v1 where e: "ev_erase i True v = Inr v1"
        "ev_items v1 = take i (ev_items v) @ drop (Suc i) (ev_items v)"
        using i by (auto simp: ev_erase_def ev_empty_def Let_def)
      have "i \<le> ev_size v1" using e(2) i by (simp add: ev_size_def)
      from 1(1) [OF i _ e(1) this] False obtain w where "dropDisabled i v1 = Inr w"
        "ev_items w = take i (ev_items v1) @ filter ?keep (drop i (ev_items v1))" by auto
      moreover have "dropDisabled i v = dropDisabled i v1" using False i e by (subst dropDisabled.simps) simp
      ultimately show ?thesis using False i d e by (simp add: ev_size_def)
    qed
  qed
qed

text \<open>The user patcher is given exactly the stored processes that are enabled at that time, in the
  order of registration, and all binary modifications, unless nothing was registered.\<close>

theorem processUserLoadCallbacks_enabled:
  "\<exists>a'. processUserLoadCallbacks reg a u =
     Inr (a', if ev_items (storedProcs a) = [] \<and> ev_items (storedBinaryMods a) = [] then u
              else snd (reg (filter (\<lambda>p. pi_section p \<noteq> SectionDisabled) (ev_items (storedProcs a)))
                            (ev_items (storedBinaryMods a)) u))
     \<and> ev_items (storedProcs a') = filter (\<lambda>p. pi_section p \<noteq> SectionDisabled) (ev_items (storedProcs a))"
proof -
  obtain w where "dropDisabled 0 (storedProcs a) = Inr w"
    "ev_items w = filter (\<lambda>p. pi_section p \<noteq> SectionDisabled) (ev_items (storedProcs a))"
    using dropDisabled_items [of 0 "storedProcs a"] by auto
  then show ?thesis by (auto simp: processUserLoadCallbacks_def ev_size_def)
qed

end
