(* ===== verification/NDeck_Module.thy ===== *)
theory NDeck_Module
  imports Lilu_Api
begin

text \<open>
  The module class of NootedDeck: which kernels and devices it accepts and what it publishes about them
  (\<^verbatim>\<open>NootedDeck/NDeck.cpp\<close>, \<^verbatim>\<open>NootedDeck/SKU.cpp\<close>, \<^verbatim>\<open>NootedDeck/Plugin.cpp\<close>,
  \<^verbatim>\<open>NootedDeck/KextHeaders/NDeckAttributes.hpp\<close>).  A PCI device is its configuration values as \<open>WIOKit\<close> reads
  them, its name and its properties.  The start functions of the other modules register their own kexts
  and are a parameter.
\<close>

section \<open>Attributes\<close>

unbundle bit_operations_syntax

record ndeckAttributes =
  Value :: u16
  Variant :: "string option"

definition IsCatalina :: u16 where "IsCatalina = push_bit 0 1"
definition IsBigSurPlus :: u16 where "IsBigSurPlus = push_bit 1 1"
definition IsMonterey :: u16 where "IsMonterey = push_bit 2 1"
definition IsMontereyPlus :: u16 where "IsMontereyPlus = push_bit 3 1"
definition IsVentura :: u16 where "IsVentura = push_bit 4 1"
definition IsVenturaPlus :: u16 where "IsVenturaPlus = push_bit 5 1"
definition IsVentura1304Based :: u16 where "IsVentura1304Based = push_bit 6 1"
definition IsVentura1304Plus :: u16 where "IsVentura1304Plus = push_bit 7 1"
definition IsSonoma1404Plus :: u16 where "IsSonoma1404Plus = push_bit 8 1"
definition IsAerith :: u16 where "IsAerith = push_bit 9 1"
definition IsSephiroth :: u16 where "IsSephiroth = push_bit 10 1"

definition flagSet :: "u16 \<Rightarrow> ndeckAttributes \<Rightarrow> bool" where
  "flagSet f a \<longleftrightarrow> Value a AND f \<noteq> 0"

definition setFlag :: "u16 \<Rightarrow> ndeckAttributes \<Rightarrow> ndeckAttributes" where
  "setFlag f a = a\<lparr>Value := Value a OR f\<rparr>"

definition GetChipRevision :: "ndeckAttributes \<Rightarrow> string res" where
  "GetChipRevision a =
     (if flagSet IsAerith a then Inr ''Aerith''
      else if flagSet IsSephiroth a then Inr ''Sephiroth''
      else Inl (Panic ''NDeck''))"

section \<open>Devices\<close>

record pcidev =
  pci_vendor :: u32
  pci_device :: u32
  pci_revision :: u32
  pci_subsystem :: u32
  pci_subvendor :: u32
  pci_name :: string
  pci_props :: "(string \<times> byte list) list"

text \<open>A property is found under its latest value.\<close>

definition setProperty :: "string \<Rightarrow> byte list \<Rightarrow> pcidev \<Rightarrow> pcidev" where
  "setProperty key v d = d\<lparr>pci_props := (key, v) # pci_props d\<rparr>"

definition getProperty :: "string \<Rightarrow> pcidev \<Rightarrow> byte list option" where
  "getProperty key d = map_of (pci_props d) key"

datatype matchType = RevOnly | RevSubsys

record SKU =
  MT :: matchType
  Revision :: u16
  SubsystemID :: u16
  SubsystemVendor :: u16
  Number :: string

record devicePair =
  dp_DeviceID :: u16
  dp_SKUs :: "SKU list"
  dp_count :: nat
  dp_Fallback :: string

definition Dev163F :: "SKU list" where
  "Dev163F =
     [\<lparr>MT = RevOnly, Revision = 0xAE, SubsystemID = 0x0000, SubsystemVendor = 0x0000, Number = ''AMD Custom GPU 0405''\<rparr>,
      \<lparr>MT = RevSubsys, Revision = 0xAE, SubsystemID = 0x0123, SubsystemVendor = 0x1002, Number = ''AMD Custom GPU 0405''\<rparr>]"

definition Dev1435 :: "SKU list" where
  "Dev1435 =
     [\<lparr>MT = RevOnly, Revision = 0xAE, SubsystemID = 0x0000, SubsystemVendor = 0x0000, Number = ''AMD Custom GPU 0932''\<rparr>,
      \<lparr>MT = RevSubsys, Revision = 0xAE, SubsystemID = 0x0123, SubsystemVendor = 0x1002, Number = ''AMD Custom GPU 0932''\<rparr>]"

text \<open>The counts are the quotient of an array's size by itself.\<close>

definition Devices :: "devicePair list" where
  "Devices =
     [\<lparr>dp_DeviceID = 0x163F, dp_SKUs = Dev163F, dp_count = 1, dp_Fallback = ''AMD Custom GPU''\<rparr>,
      \<lparr>dp_DeviceID = 0x1435, dp_SKUs = Dev1435, dp_count = 1, dp_Fallback = ''AMD Custom GPU''\<rparr>]"

fun matchSKU :: "u32 \<Rightarrow> u32 \<Rightarrow> u32 \<Rightarrow> SKU list \<Rightarrow> string \<Rightarrow> string" where
  "matchSKU rid subsys subven [] fallback = fallback"
| "matchSKU rid subsys subven (k # ks) fallback =
     (if ucast (Revision k) \<noteq> rid
         \<or> (MT k = RevSubsys \<and> (ucast (SubsystemID k) \<noteq> subsys \<or> ucast (SubsystemVendor k) \<noteq> subven))
      then matchSKU rid subsys subven ks fallback else Number k)"

fun findDevice :: "u32 \<Rightarrow> u32 \<Rightarrow> u32 \<Rightarrow> u32 \<Rightarrow> devicePair list \<Rightarrow> string option" where
  "findDevice dev rid subsys subven [] = None"
| "findDevice dev rid subsys subven (p # ps) =
     (if ucast (dp_DeviceID p) = dev
      then Some (matchSKU rid subsys subven (take (dp_count p) (dp_SKUs p)) (dp_Fallback p))
      else findDevice dev rid subsys subven ps)"

definition GetSKUForDevice :: "pcidev \<Rightarrow> string option" where
  "GetSKUForDevice d = findDevice (pci_device d) (pci_revision d) (pci_subsystem d) (pci_subvendor d) Devices"

definition cstr :: "string \<Rightarrow> byte list" where
  "cstr s = map (\<lambda>c. of_nat (of_char c)) s @ [0]"

text \<open>\<open>WIOKit::renameDevice\<close>: the name, and its entry in the list of compatible names, which are separated by
  null bytes.  The flag says whether the new list could be allocated.\<close>

function inCompatible :: "byte list \<Rightarrow> byte list \<Rightarrow> bool" where
  "inCompatible [] nm = False"
| "inCompatible (b # bs) nm =
     (takeWhile (\<lambda>x. x \<noteq> 0) (b # bs) = nm \<or> inCompatible (drop (Suc (length (takeWhile (\<lambda>x. x \<noteq> 0) (b # bs)))) (b # bs)) nm)"
  by pat_completeness auto
termination by (relation "measure (\<lambda>(bs, nm). length bs)") auto

definition renameDevice :: "bool \<Rightarrow> string \<Rightarrow> pcidev \<Rightarrow> bool \<times> pcidev" where
  "renameDevice allocated nm d =
     (let d1 = d\<lparr>pci_name := nm\<rparr>
      in case getProperty ''compatible'' d1 of
           None \<Rightarrow> (True, d1)
         | Some c \<Rightarrow>
             if inCompatible c (butlast (cstr nm)) then (True, d1)
             else if allocated then (True, setProperty ''compatible'' (c @ cstr nm) d1) else (False, d1))"

definition UpdateProperties :: "pcidev \<Rightarrow> pcidev" where
  "UpdateProperties d =
     (let d1 = setProperty ''built-in'' [0] d
      in case GetSKUForDevice d1 of
           None \<Rightarrow> d1
         | Some sku \<Rightarrow>
             let SKULength = length sku + 1;
                 d2 = setProperty ''model'' (take SKULength (cstr sku)) d1;
                 d3 = setProperty ''ATY,FamilyName'' (take 9 (cstr ''Van Gogh'')) d2;
                 d4 = setProperty ''ATY,DeviceName'' (take (SKULength - 13) (drop 13 (cstr sku))) d3
             in setProperty ''AAPL,slot-name'' (take 9 (cstr ''built-in'')) d4)"

section \<open>Firmware and object fields\<close>

record FWMetadata =
  fw_Data :: "byte list"
  fw_Length :: u32

fun GetFirmwareNamed :: "('n \<times> FWMetadata) list \<Rightarrow> 'n \<Rightarrow> FWMetadata res" where
  "GetFirmwareNamed [] name = Inl (Panic ''FW'')"
| "GetFirmwareNamed ((n, md) # fws) name = (if n \<noteq> name then GetFirmwareNamed fws name else Inr md)"

definition InvalidOffset :: u32 where "InvalidOffset = 0xFFFFFFFF"

definition of_assign :: "u32 \<Rightarrow> u32 \<Rightarrow> u32 res" where
  "of_assign other off = (if off \<noteq> InvalidOffset then Inl (Panic ''ObjField'') else Inr other)"

definition of_plus :: "u32 \<Rightarrow> u32 \<Rightarrow> u32 res" where
  "of_plus v off = (if off = InvalidOffset then Inl (Panic ''ObjField'') else Inr (off + v))"

text \<open>A field of 32 bits; the address is that of the object plus the offset.\<close>

definition of_get :: "mem \<Rightarrow> addr \<Rightarrow> u32 \<Rightarrow> u32 res" where
  "of_get m obj off =
     (if obj = 0 then Inl (Panic ''ObjField'')
      else if off = InvalidOffset then Inl (Panic ''ObjField'')
      else Inr (load32 m (obj + ucast off)))"

definition of_set :: "addr \<Rightarrow> u32 \<Rightarrow> u32 \<Rightarrow> mem \<Rightarrow> mem res" where
  "of_set obj v off m =
     (if obj = 0 then Inl (Panic ''ObjField'')
      else if off = InvalidOffset then Inl (Panic ''ObjField'')
      else Inr (store32 m (obj + ucast off) v))"

section \<open>Starting\<close>

record ndeck =
  ModuleLoaded :: bool
  Attributes :: ndeckAttributes
  GPU :: "pcidev option"
  DeviceID :: u32
  PCIRev :: u32

definition ndeck_instance :: ndeck where
  "ndeck_instance =
     \<lparr>ModuleLoaded = False, Attributes = \<lparr>Value = 0, Variant = None\<rparr>, GPU = None, DeviceID = 0, PCIRev = 0\<rparr>"

definition setFlags :: "u16 list \<Rightarrow> ndeckAttributes \<Rightarrow> ndeckAttributes" where
  "setFlags fs a = fold setFlag fs a"

definition versionFlags :: "nat \<Rightarrow> int \<Rightarrow> u16 list res" where
  "versionFlags kver minor =
     (if kver = BigSur then Inr [IsBigSurPlus]
      else if kver = Monterey then Inr [IsBigSurPlus, IsMonterey, IsMontereyPlus]
      else if kver = Ventura then
        Inr ([IsBigSurPlus, IsMontereyPlus, IsVentura, IsVenturaPlus]
             @ (if minor \<ge> 5 then [IsVentura1304Based, IsVentura1304Plus] else []))
      else if kver = Sonoma then
        Inr ([IsBigSurPlus, IsMontereyPlus, IsVenturaPlus, IsVentura1304Plus] @ (if minor \<ge> 4 then [IsSonoma1404Plus] else []))
      else if kver = Sequoia \<or> kver = Tahoe then
        Inr [IsBigSurPlus, IsMontereyPlus, IsVenturaPlus, IsVentura1304Plus, IsSonoma1404Plus]
      else Inl (Panic ''NDeck''))"

definition onPatcherLoadForce :: "stored_callback \<Rightarrow> liluapi \<Rightarrow> liluapi res" where
  "onPatcherLoadForce p a =
     (case onPatcherLoad p a of (e, a1) \<Rightarrow> if e \<noteq> ApiNoError then Inl (Panic ''api'') else Inr a1)"

definition StartModule ::
  "(liluapi \<Rightarrow> liluapi res) \<Rightarrow> stored_callback \<Rightarrow> nat \<Rightarrow> int \<Rightarrow> ndeck \<Rightarrow> liluapi \<Rightarrow> (ndeck \<times> liluapi) res" where
  "StartModule startOthers cb kver minor n a =
     (if ModuleLoaded n then Inl (Panic ''NDeck'')
      else
        res_bind (versionFlags kver minor)
          (\<lambda>fs. res_bind (startOthers a)
             (\<lambda>a1. res_bind (onPatcherLoadForce cb a1)
                (\<lambda>a2. Inr (n\<lparr>ModuleLoaded := True, Attributes := setFlags fs (Attributes n)\<rparr>, a2)))))"

text \<open>The plugin's entry of \<^verbatim>\<open>Plugin.cpp\<close> as Lilu asks it: all run modes, no arguments that disable it or allow
  unsupported kernels, Big Sur to Tahoe.\<close>

definition pluginShouldLoad :: "apiconfig \<Rightarrow> (string \<Rightarrow> bool) \<Rightarrow> nat \<Rightarrow> liluapi \<Rightarrow> api_error \<times> bool" where
  "pluginShouldLoad cfg bootArg kver a =
     shouldLoad cfg bootArg kver (RunningNormal OR RunningInstallerRecovery OR RunningSafeMode) [] [''-NDeckDebug''] []
       BigSur Tahoe a"

section \<open>Processing the patcher\<close>

record devinfo =
  videoBuiltin :: "pcidev option"
  videoExternal :: "pcidev option list"

fun dec :: "nat \<Rightarrow> string" where
  "dec n = (if n < 10 then [char_of (48 + n)] else dec (n div 10) @ [char_of (48 + n mod 10)])"

text \<open>The loop over the other video devices.\<close>

fun nameExternals :: "bool \<Rightarrow> nat \<Rightarrow> pcidev option list \<Rightarrow> pcidev option list" where
  "nameExternals alloc j [] = []"
| "nameExternals alloc j (None # ds) = None # nameExternals alloc j ds"
| "nameExternals alloc j (Some d # ds) =
     Some (UpdateProperties (snd (renameDevice alloc (''GFX'' @ dec j) d))) # nameExternals alloc (Suc j) ds"

definition ATIAMD :: u32 where "ATIAMD = 0x1002"

record ndeckHooks =
  wrapSafeMetaCast :: addr
  orgSafeMetaCast :: addr
  wrapAddDrivers :: addr
  orgAddDrivers :: addr

text \<open>The first part: the built-in GPU.\<close>

definition identifyGPU :: "(devinfo \<Rightarrow> devinfo) \<Rightarrow> bool \<Rightarrow> devinfo option \<Rightarrow> ndeck \<Rightarrow> (devinfo \<times> ndeck) res" where
  "identifyGPU switchOff alloc info0 n =
     (case info0 of
        None \<Rightarrow> Inl (Panic ''NDeck'')
      | Some info1 \<Rightarrow>
          let info = switchOff info1
          in case videoBuiltin info of
               None \<Rightarrow> Inl (Panic ''NDeck'')
             | Some gpu \<Rightarrow>
                 if pci_vendor gpu \<noteq> ATIAMD then Inl (Panic ''NDeck'')
                 else
                   let gpu1 = UpdateProperties (snd (renameDevice alloc ''IGPU'' gpu));
                       variant = (if pci_device gpu1 = 0x163F then Some ''Aerith''
                                  else if pci_device gpu1 = 0x1640 then Some ''Sephiroth'' else None)
                   in if variant = None then Inl (Panic ''NDeck'')
                      else Inr (info, n\<lparr>GPU := Some gpu1, DeviceID := pci_device gpu1,
                             Attributes := (Attributes n)\<lparr>Variant := variant\<rparr>, PCIRev := pci_revision gpu1\<rparr>))"

definition ProcessPatcher ::
  "(devinfo \<Rightarrow> devinfo) \<Rightarrow> bool \<Rightarrow> ndeckHooks \<Rightarrow> devinfo option \<Rightarrow> ndeck \<Rightarrow> 'a kpatcher_scheme
    \<Rightarrow> (ndeck \<times> pcidev option list \<times> 'a kpatcher_scheme) res" where
  "ProcessPatcher switchOff alloc hk info0 n s =
     res_bind (identifyGPU switchOff alloc info0 n)
       (\<lambda>(info, n1).
          let ext = nameExternals alloc 0 (videoExternal info)
          in res_bind (routeMultipleLong KernelID
                [\<lparr>rq_symbol = Some ''__ZN15OSMetaClassBase12safeMetaCastEPKS_PK11OSMetaClass'', rq_from = 0,
                  rq_to = wrapSafeMetaCast hk, rq_org = Some (orgSafeMetaCast hk)\<rparr>,
                 \<lparr>rq_symbol = Some ''__ZN11IOCatalogue10addDriversEP7OSArrayb'', rq_from = 0,
                  rq_to = wrapAddDrivers hk, rq_org = Some (orgAddDrivers hk)\<rparr>] 0 0 True False s)
               (\<lambda>(ok, rs, s1). if \<not> ok then Inl (Panic ''NDeck'') else Inr (n1, ext, s1)))"

section \<open>Properties\<close>

lemmas flag_defs = IsCatalina_def IsBigSurPlus_def IsMonterey_def IsMontereyPlus_def IsVentura_def IsVenturaPlus_def
  IsVentura1304Based_def IsVentura1304Plus_def IsSonoma1404Plus_def IsAerith_def IsSephiroth_def

lemma flagSet_setFlags: "flagSet f (setFlags fs a) \<longleftrightarrow> flagSet f a \<or> (\<exists>g\<in>set fs. g AND f \<noteq> 0)"
proof (induction fs arbitrary: a)
  case Nil
  then show ?case by (simp add: setFlags_def)
next
  case (Cons g fs)
  have "flagSet f (setFlag g a) \<longleftrightarrow> flagSet f a \<or> g AND f \<noteq> 0"
    by (auto simp: flagSet_def setFlag_def bit.conj_disj_distrib2 or_eq_0_iff)
  with Cons [of "setFlag g a"] show ?case by (auto simp: setFlags_def)
qed

lemma flagSet_initial: "\<not> flagSet f \<lparr>Value = 0, Variant = v\<rparr>"
  by (simp add: flagSet_def)

lemma StartModule_eq:
  assumes "StartModule startOthers cb kver minor n a = Inr (n', a')"
  shows "\<exists>fs. versionFlags kver minor = Inr fs \<and> n' = n\<lparr>ModuleLoaded := True, Attributes := setFlags fs (Attributes n)\<rparr>"
  using assms by (auto simp: StartModule_def res_bind_eq_Inr split: if_split_asm)

text \<open>When Lilu loads the plugin without the override for unsupported kernels, \<open>StartModule\<close> knows the
  kernel's version: it does not panic, a second start does, and its flags order the versions (Big Sur or
  later, Monterey or later, Ventura or later, 13.4 or later, 14.4 or later).\<close>

theorem StartModule_versions:
  assumes "pluginShouldLoad cfg bootArg kver api = (ApiNoError, dbg)" and "\<not> betaForAll cfg"
    and "startOthers a = Inr a1" and "onPatcherLoadForce cb a1 = Inr a2"
  shows "\<exists>n. StartModule startOthers cb kver minor ndeck_instance a = Inr (n, a2)
    \<and> StartModule startOthers cb kver minor n a = Inl (Panic ''NDeck'')
    \<and> flagSet IsBigSurPlus (Attributes n)
    \<and> flagSet IsMontereyPlus (Attributes n) = (kver \<ge> Monterey)
    \<and> flagSet IsVenturaPlus (Attributes n) = (kver \<ge> Ventura)
    \<and> flagSet IsVentura1304Plus (Attributes n) = (kver > Ventura \<or> kver = Ventura \<and> minor \<ge> 5)
    \<and> flagSet IsSonoma1404Plus (Attributes n) = (kver > Sonoma \<or> kver = Sonoma \<and> minor \<ge> 4)"
proof -
  have "compatibleKernel kver BigSur Tahoe"
    using assms(1,2) by (auto simp: pluginShouldLoad_def shouldLoad_def split: if_split_asm)
  then have "20 \<le> kver" "kver \<le> 25" by (auto simp: compatibleKernel_def kernel_versions)
  then have k: "kver \<in> {20, 21, 22, 23, 24, 25}" by auto
  obtain fs where fs: "versionFlags kver minor = Inr fs" using k
    by (auto simp: versionFlags_def kernel_versions)
  let ?n = "ndeck_instance\<lparr>ModuleLoaded := True, Attributes := setFlags fs (Attributes ndeck_instance)\<rparr>"
  have "StartModule startOthers cb kver minor ndeck_instance a = Inr (?n, a2)"
    using fs assms(3,4) by (simp add: StartModule_def ndeck_instance_def)
  moreover have "StartModule startOthers cb kver minor ?n a = Inl (Panic ''NDeck'')" by (simp add: StartModule_def)
  moreover have "flagSet IsBigSurPlus (Attributes ?n)
    \<and> flagSet IsMontereyPlus (Attributes ?n) = (kver \<ge> Monterey)
    \<and> flagSet IsVenturaPlus (Attributes ?n) = (kver \<ge> Ventura)
    \<and> flagSet IsVentura1304Plus (Attributes ?n) = (kver > Ventura \<or> kver = Ventura \<and> minor \<ge> 5)
    \<and> flagSet IsSonoma1404Plus (Attributes ?n) = (kver > Sonoma \<or> kver = Sonoma \<and> minor \<ge> 4)"
    using k fs
    by (auto simp: versionFlags_def kernel_versions ndeck_instance_def flagSet_setFlags flagSet_initial flag_defs
        split: if_split_asm)
  ultimately show ?thesis by blast
qed

theorem StartModule_versions_witness:
  "\<exists>n a. StartModule Inr (0x1000, 0) Ventura 5 ndeck_instance demo_api = Inr (n, a)
     \<and> flagSet IsVentura1304Plus (Attributes n) \<and> \<not> flagSet IsSonoma1404Plus (Attributes n)"
proof -
  have l: "pluginShouldLoad demo_config (\<lambda>_. False) Ventura demo_api = (ApiNoError, False)" by code_simp
  have b: "\<not> betaForAll demo_config" by (simp add: demo_config_def)
  have "case onPatcherLoadForce (0x1000, 0) demo_api of Inl _ \<Rightarrow> False | Inr _ \<Rightarrow> True" by code_simp
  then obtain a2 where a2: "onPatcherLoadForce (0x1000, 0) demo_api = Inr a2" by (auto split: sum.split_asm)
  from StartModule_versions [OF l b, where startOthers = Inr and minor = 5, OF refl a2] show ?thesis
    by (auto simp: kernel_versions)
qed

lemma UpdateProperties_config [simp]:
  "pci_device (UpdateProperties d) = pci_device d" "pci_revision (UpdateProperties d) = pci_revision d"
  "pci_subsystem (UpdateProperties d) = pci_subsystem d" "pci_subvendor (UpdateProperties d) = pci_subvendor d"
  by (simp_all add: UpdateProperties_def setProperty_def Let_def split: option.split)

lemma identified:
  assumes "StartModule startOthers cb kver minor ndeck_instance a = Inr (n, a')"
    and "identifyGPU switchOff alloc info n = Inr (info', n')"
  obtains gpu where "\<not> flagSet IsAerith (Attributes n')" "\<not> flagSet IsSephiroth (Attributes n')" "GPU n' = Some gpu"
    "pci_device gpu \<in> {0x163F, 0x1640}" "Variant (Attributes n') = Some ''Sephiroth'' \<longrightarrow> pci_device gpu = 0x1640"
proof -
  obtain fs where fs: "versionFlags kver minor = Inr fs" "Attributes n = setFlags fs \<lparr>Value = 0, Variant = None\<rparr>"
    using StartModule_eq [OF assms(1)] by (auto simp: ndeck_instance_def)
  have f: "\<not> flagSet IsAerith (Attributes n)" "\<not> flagSet IsSephiroth (Attributes n)"
    using fs by (auto simp: flagSet_setFlags versionFlags_def flagSet_initial flag_defs split: if_split_asm)
  obtain gpu v where g: "GPU n' = Some gpu" "pci_device gpu \<in> {0x163F, 0x1640}"
    "Attributes n' = (Attributes n)\<lparr>Variant := v\<rparr>" "v = Some ''Sephiroth'' \<longrightarrow> pci_device gpu = 0x1640"
    using assms(2)
    by (auto simp: identifyGPU_def Let_def split: option.split_asm if_split_asm)
  with f show ?thesis by (intro that [of gpu]) (simp_all add: flagSet_def)
qed

text \<open>Once the module has started and taken the GPU from the device information, the GPU is an AMD device with one of two
  device identifiers, but the flags that \<open>GetChipRevision\<close> reads are never set, so it panics, and a GPU
  accepted as Sephiroth has no entry among the SKUs.\<close>

theorem variant_unknown_to_attributes:
  assumes "StartModule startOthers cb kver minor ndeck_instance a = Inr (n, a')"
    and "identifyGPU switchOff alloc info n = Inr (info', n')"
  shows "GetChipRevision (Attributes n') = Inl (Panic ''NDeck'')
    \<and> (\<exists>gpu. GPU n' = Some gpu \<and> pci_device gpu \<in> {0x163F, 0x1640}
        \<and> (Variant (Attributes n') = Some ''Sephiroth'' \<longrightarrow> GetSKUForDevice gpu = None))"
proof -
  from identified [OF assms] obtain gpu where g: "\<not> flagSet IsAerith (Attributes n')" "\<not> flagSet IsSephiroth (Attributes n')"
    "GPU n' = Some gpu" "pci_device gpu \<in> {0x163F, 0x1640}"
    "Variant (Attributes n') = Some ''Sephiroth'' \<longrightarrow> pci_device gpu = 0x1640" .
  have "GetSKUForDevice gpu = None" if "pci_device gpu = 0x1640"
    using that by (simp add: GetSKUForDevice_def Devices_def)
  with g show ?thesis by (auto simp: GetChipRevision_def)
qed

definition demo_gpu :: "u32 \<Rightarrow> pcidev" where
  "demo_gpu dev = \<lparr>pci_vendor = 0x1002, pci_device = dev, pci_revision = 0xAE, pci_subsystem = 0x0123, pci_subvendor = 0x1002,
     pci_name = ''GFX0'', pci_props = [(''compatible'', cstr ''pci1002,163f'')]\<rparr>"

theorem variant_unknown_to_attributes_witness:
  "\<exists>n a info n'. StartModule Inr (0x1000, 0) Ventura 5 ndeck_instance demo_api = Inr (n, a)
     \<and> identifyGPU id True (Some \<lparr>videoBuiltin = Some (demo_gpu 0x1640), videoExternal = []\<rparr>) n = Inr (info, n')
     \<and> GetChipRevision (Attributes n') = Inl (Panic ''NDeck'')"
proof -
  have "case StartModule Inr (0x1000, 0) Ventura 5 ndeck_instance demo_api of Inl _ \<Rightarrow> False | Inr _ \<Rightarrow> True" by code_simp
  then obtain n a where n: "StartModule Inr (0x1000, 0) Ventura 5 ndeck_instance demo_api = Inr (n, a)"
    by (auto split: sum.split_asm)
  have "pci_device (UpdateProperties (snd (renameDevice True ''IGPU'' (demo_gpu 0x1640)))) = 0x1640" by code_simp
  then obtain n' info where i: "identifyGPU id True (Some \<lparr>videoBuiltin = Some (demo_gpu 0x1640), videoExternal = []\<rparr>) n
      = Inr (info, n')" by (auto simp: identifyGPU_def demo_gpu_def ATIAMD_def)
  from variant_unknown_to_attributes [OF n i] n i show ?thesis by blast
qed

end
