(* ===== verification/NDeck_Hardware.thy ===== *)
theory NDeck_Hardware
  imports NDeck_Module
begin

text \<open>
  Device memory of the GPU (\<^verbatim>\<open>NootedDeck/NDeck.cpp\<close>): the register window, the mailbox of the system
  management unit, and the search for the video BIOS.  The window is a device with its own reaction to each
  read and write.  The register numbers, the layout of the VFCT table and \<open>OSData::getBytesNoCopy\<close> come from
  headers that are not part of the repository and are parameters.
\<close>

section \<open>Registers\<close>

record 'd window =
  w_length :: nat
  w_read :: "u32 \<Rightarrow> 'd \<Rightarrow> u32 \<times> 'd"
  w_write :: "u32 \<Rightarrow> u32 \<Rightarrow> 'd \<Rightarrow> 'd"

record regs =
  PCIE_INDEX2 :: u32
  PCIE_DATA2 :: u32
  MC_VM_FB_OFFSET :: u32
  RCC_DEV0_EPF0_STRAP0 :: u32
  ATI_REV_ID_MASK :: u32
  ATI_REV_ID_SHIFT :: nat
  MP1_SMN_C2PMSG_66 :: u32
  MP1_SMN_C2PMSG_82 :: u32
  MP1_SMN_C2PMSG_90 :: u32
  AMD_MAX_USEC_TIMEOUT :: nat
  NoResponse :: u32

definition NBIO_BASE_2 :: u32 where "NBIO_BASE_2 = 0xD20"
definition GC_BASE_0 :: u32 where "GC_BASE_0 = 0x2000"
definition MP0_BASE_0 :: u32 where "MP0_BASE_0 = 0x16000"

definition ReadRegion32Bit :: "'d window \<Rightarrow> regs \<Rightarrow> u32 \<Rightarrow> 'd \<Rightarrow> u32 \<times> 'd" where
  "ReadRegion32Bit w rg region d =
     (if unat region * 4 < w_length w then w_read w region d
      else w_read w (PCIE_DATA2 rg) (w_write w (PCIE_INDEX2 rg) region d))"

definition WriteRegion32Bit :: "'d window \<Rightarrow> regs \<Rightarrow> u32 \<Rightarrow> u32 \<Rightarrow> 'd \<Rightarrow> 'd" where
  "WriteRegion32Bit w rg region v d =
     (if unat region * 4 < w_length w then w_write w region v d
      else w_write w (PCIE_DATA2 rg) v (w_write w (PCIE_INDEX2 rg) region d))"

fun smuPoll :: "'d window \<Rightarrow> regs \<Rightarrow> nat \<Rightarrow> u32 \<Rightarrow> 'd \<Rightarrow> u32 \<times> 'd" where
  "smuPoll w rg 0 ret d = (ret, d)"
| "smuPoll w rg (Suc i) ret d =
     (let (v, d1) = ReadRegion32Bit w rg (MP0_BASE_0 + MP1_SMN_C2PMSG_90 rg) d
      in if v \<noteq> NoResponse rg then (v, d1) else smuPoll w rg i v d1)"

definition SMUWaitForResponse :: "'d window \<Rightarrow> regs \<Rightarrow> 'd \<Rightarrow> u32 \<times> 'd" where
  "SMUWaitForResponse w rg d = smuPoll w rg (AMD_MAX_USEC_TIMEOUT rg) (NoResponse rg) d"

text \<open>The result, the out parameter if one is asked for, and the device.\<close>

definition SendMessageToSMC ::
  "(u32 \<Rightarrow> 'c) \<Rightarrow> 'd window \<Rightarrow> regs \<Rightarrow> u32 \<Rightarrow> u32 \<Rightarrow> bool \<Rightarrow> 'd \<Rightarrow> 'c \<times> u32 option \<times> 'd" where
  "SendMessageToSMC processResponse w rg message parameter wantOut d =
     (let (_, d1) = SMUWaitForResponse w rg d;
          d2 = WriteRegion32Bit w rg (MP0_BASE_0 + MP1_SMN_C2PMSG_82 rg) parameter d1;
          d3 = WriteRegion32Bit w rg (MP0_BASE_0 + MP1_SMN_C2PMSG_90 rg) 0 d2;
          d4 = WriteRegion32Bit w rg (MP0_BASE_0 + MP1_SMN_C2PMSG_66 rg) message d3;
          (response, d5) = SMUWaitForResponse w rg d4
      in if wantOut then
           (let (out, d6) = ReadRegion32Bit w rg (MP0_BASE_0 + MP1_SMN_C2PMSG_82 rg) d5
            in (processResponse response, Some out, d6))
         else (processResponse response, None, d5))"

record hwstate =
  mapped :: bool
  FBOffset :: u32
  DeviceRev :: u32

text \<open>The frame buffer offset is computed in 64 bits and stored in a member of 32.\<close>

definition InitHWLate :: "'d window \<Rightarrow> regs \<Rightarrow> hwstate \<Rightarrow> 'd \<Rightarrow> hwstate \<times> 'd" where
  "InitHWLate w rg h d =
     (if mapped h then (h, d)
      else
        let (fb, d1) = ReadRegion32Bit w rg (GC_BASE_0 + MC_VM_FB_OFFSET rg) d;
            (strap, d2) = ReadRegion32Bit w rg (NBIO_BASE_2 + RCC_DEV0_EPF0_STRAP0 rg) d1
        in (h\<lparr>mapped := True, FBOffset := ucast (push_bit 24 (ucast fb :: u64)),
              DeviceRev := drop_bit (ATI_REV_ID_SHIFT rg) (strap AND ATI_REV_ID_MASK rg)\<rparr>, d2))"

section \<open>Properties of the register window\<close>

text \<open>The device after \<open>k\<close> polls, and what poll \<open>k\<close> reads.\<close>

definition pollOnce :: "'d window \<Rightarrow> regs \<Rightarrow> 'd \<Rightarrow> u32 \<times> 'd" where
  "pollOnce w rg d = ReadRegion32Bit w rg (MP0_BASE_0 + MP1_SMN_C2PMSG_90 rg) d"

definition polled :: "'d window \<Rightarrow> regs \<Rightarrow> nat \<Rightarrow> 'd \<Rightarrow> 'd" where
  "polled w rg k d = ((\<lambda>d. snd (pollOnce w rg d)) ^^ k) d"

definition response :: "'d window \<Rightarrow> regs \<Rightarrow> nat \<Rightarrow> 'd \<Rightarrow> u32" where
  "response w rg k d = fst (pollOnce w rg (polled w rg k d))"

lemma polled_Suc: "polled w rg (Suc k) d = polled w rg k (snd (pollOnce w rg d))"
  by (simp add: polled_def funpow_Suc_right del: funpow.simps)

lemma response_Suc: "response w rg (Suc k) d = response w rg k (snd (pollOnce w rg d))"
  by (simp add: response_def polled_Suc)

lemma smuPoll_step:
  "smuPoll w rg (Suc i) ret d =
     (if response w rg 0 d \<noteq> NoResponse rg then (response w rg 0 d, polled w rg 1 d)
      else smuPoll w rg i (NoResponse rg) (snd (pollOnce w rg d)))"
  by (auto simp: response_def polled_def pollOnce_def Let_def split: prod.splits)

lemma smuPoll_first:
  "k < n \<Longrightarrow> response w rg k d \<noteq> NoResponse rg \<Longrightarrow> \<forall>j < k. response w rg j d = NoResponse rg
    \<Longrightarrow> smuPoll w rg n ret d = (response w rg k d, polled w rg (Suc k) d)"
proof (induction k arbitrary: n ret d)
  case 0
  then show ?case by (cases n) (simp_all add: smuPoll_step del: smuPoll.simps)
next
  case (Suc k)
  obtain m where n: "n = Suc m" using Suc.prems(1) by (cases n) auto
  have "\<forall>j < k. response w rg j (snd (pollOnce w rg d)) = NoResponse rg"
    using Suc.prems(3) by (auto simp flip: response_Suc)
  with Suc.IH [of m "snd (pollOnce w rg d)" "NoResponse rg"] Suc.prems n show ?case
    by (simp add: smuPoll_step response_Suc polled_Suc del: smuPoll.simps)
qed

lemma smuPoll_none:
  "\<forall>j < n. response w rg j d = NoResponse rg \<Longrightarrow> smuPoll w rg n (NoResponse rg) d = (NoResponse rg, polled w rg n d)"
proof (induction n arbitrary: d)
  case 0
  then show ?case by (simp add: polled_def)
next
  case (Suc n)
  have "\<forall>j < n. response w rg j (snd (pollOnce w rg d)) = NoResponse rg"
    using Suc.prems by (auto simp flip: response_Suc)
  with Suc show ?case by (simp add: smuPoll_step polled_Suc del: smuPoll.simps)
qed

text \<open>C39: waiting for the management unit ends for every device: it returns the first response the unit gives
  within the time limit, having read the mailbox exactly up to that response, and otherwise reports no
  response after as many reads as the limit allows.\<close>

theorem SMUWaitForResponse_first:
  "\<exists>k. (k < AMD_MAX_USEC_TIMEOUT rg \<and> response w rg k d \<noteq> NoResponse rg \<and> (\<forall>j < k. response w rg j d = NoResponse rg)
        \<and> SMUWaitForResponse w rg d = (response w rg k d, polled w rg (Suc k) d))
    \<or> (k = AMD_MAX_USEC_TIMEOUT rg \<and> (\<forall>j < k. response w rg j d = NoResponse rg)
        \<and> SMUWaitForResponse w rg d = (NoResponse rg, polled w rg k d))"
proof (cases "\<exists>k < AMD_MAX_USEC_TIMEOUT rg. response w rg k d \<noteq> NoResponse rg")
  case True
  then obtain k where k: "k < AMD_MAX_USEC_TIMEOUT rg" "response w rg k d \<noteq> NoResponse rg"
    and l: "\<And>j. j < k \<Longrightarrow> \<not> (j < AMD_MAX_USEC_TIMEOUT rg \<and> response w rg j d \<noteq> NoResponse rg)"
    using exists_least_iff [of "\<lambda>k. k < AMD_MAX_USEC_TIMEOUT rg \<and> response w rg k d \<noteq> NoResponse rg"] by blast
  have b: "\<forall>j < k. response w rg j d = NoResponse rg" using k(1) l less_trans by blast
  show ?thesis
    unfolding SMUWaitForResponse_def using k b by (intro exI [of _ k] disjI1 conjI smuPoll_first)
next
  case False
  then have "\<forall>j < AMD_MAX_USEC_TIMEOUT rg. response w rg j d = NoResponse rg" by blast
  from smuPoll_none [OF this] this show ?thesis unfolding SMUWaitForResponse_def by blast
qed

lemma fb_truncated: "unat (ucast (push_bit 24 (ucast fb :: u64)) :: u32) = (unat (fb :: u32) mod 256) * 2 ^ 24"
proof -
  have f: "unat fb < 2 ^ 32" using unsigned_less [of fb, where ?'a = nat] by simp
  have "unat (ucast fb :: u64) = unat fb" using f by (simp add: unsigned_ucast_eq take_bit_nat_eq_self)
  then have "unat (push_bit 24 (ucast fb :: u64)) = unat fb * 2 ^ 24"
    using f by (simp add: push_bit_eq_mult unat_word_ariths)
  then have "unat (ucast (push_bit 24 (ucast fb :: u64)) :: u32) = unat fb * 2 ^ 24 mod 2 ^ 32"
    by (simp add: unsigned_ucast_eq take_bit_nat_def)
  also have "\<dots> = (unat fb mod 256) * 2 ^ 24" using mult_mod_left [of "unat fb" 256 "2 ^ 24"] by simp
  finally show ?thesis .
qed

text \<open>The frame buffer offset that \<open>InitHWLate\<close> keeps is the register's value modulo 256, in units of 16 MB:
  it is the address the register gives exactly if that value is below 256.\<close>

theorem InitHWLate_truncates:
  assumes "\<not> mapped h" and "fst (ReadRegion32Bit w rg (GC_BASE_0 + MC_VM_FB_OFFSET rg) d) = fb"
  shows "unat (FBOffset (fst (InitHWLate w rg h d))) = (unat fb mod 256) * 2 ^ 24
    \<and> (unat (FBOffset (fst (InitHWLate w rg h d))) = unat fb * 2 ^ 24 \<longleftrightarrow> unat fb < 256)"
proof -
  have e: "FBOffset (fst (InitHWLate w rg h d)) = ucast (push_bit 24 (ucast fb :: u64))"
    using assms by (auto simp: InitHWLate_def Let_def split: prod.splits)
  have "unat (ucast (push_bit 24 (ucast fb :: u64)) :: u32) = (unat fb mod 256) * 2 ^ 24"
    using fb_truncated [of fb] .
  moreover have "(unat fb mod 256) * 2 ^ 24 = unat fb * 2 ^ 24 \<longleftrightarrow> unat fb < 256"
    by (simp add: mod_eq_self_iff_div_eq_0 div_eq_0_iff)
  ultimately show ?thesis using e by simp
qed

text \<open>A window whose registers read as one value.\<close>

definition demo_window :: "u32 \<Rightarrow> unit window" where
  "demo_window v = \<lparr>w_length = 2 ^ 20, w_read = (\<lambda>_ d. (v, d)), w_write = (\<lambda>_ _ d. d)\<rparr>"

definition demo_regs :: regs where
  "demo_regs = \<lparr>PCIE_INDEX2 = 0xE, PCIE_DATA2 = 0xF, MC_VM_FB_OFFSET = 0x96B, RCC_DEV0_EPF0_STRAP0 = 0xF,
     ATI_REV_ID_MASK = 0xF0000000, ATI_REV_ID_SHIFT = 28, MP1_SMN_C2PMSG_66 = 0x282, MP1_SMN_C2PMSG_82 = 0x292,
     MP1_SMN_C2PMSG_90 = 0x29A, AMD_MAX_USEC_TIMEOUT = 10, NoResponse = 0\<rparr>"

theorem InitHWLate_truncates_witness:
  "FBOffset (fst (InitHWLate (demo_window 0x400) demo_regs \<lparr>mapped = False, FBOffset = 0, DeviceRev = 0\<rparr> ())) = 0"
proof -
  let ?h = "\<lparr>mapped = False, FBOffset = 0, DeviceRev = 0\<rparr>"
  have "fst (ReadRegion32Bit (demo_window 0x400) demo_regs (GC_BASE_0 + MC_VM_FB_OFFSET demo_regs) ()) = 0x400"
    by (simp add: ReadRegion32Bit_def demo_window_def)
  from InitHWLate_truncates [OF _ this, of ?h]
  have "unat (FBOffset (fst (InitHWLate (demo_window 0x400) demo_regs ?h ()))) = 0" by simp
  then show ?thesis by (simp only: unat_eq_0)
qed

text \<open>A management unit that answers 1 at the third read.\<close>

definition demo_unit :: "nat window" where
  "demo_unit = \<lparr>w_length = 2 ^ 20, w_read = (\<lambda>_ n. (if n < 2 then 0 else 1, Suc n)), w_write = (\<lambda>_ _ n. n)\<rparr>"

lemma demo_unit_polled: "pollOnce demo_unit demo_regs n = (if n < 2 then 0 else 1, Suc n)"
  "polled demo_unit demo_regs k n = n + k"
proof -
  show p: "pollOnce demo_unit demo_regs n = (if n < 2 then 0 else 1, Suc n)" for n
    by (simp add: pollOnce_def ReadRegion32Bit_def demo_unit_def)
  show "polled demo_unit demo_regs k n = n + k" by (induction k arbitrary: n) (simp_all add: polled_def p)
qed

theorem SMUWaitForResponse_first_witness: "SMUWaitForResponse demo_unit demo_regs 0 = (1, 3)"
proof -
  have r: "response demo_unit demo_regs k 0 = (if k < 2 then 0 else 1)" for k
    by (simp add: response_def demo_unit_polled)
  have c: "AMD_MAX_USEC_TIMEOUT demo_regs = 10" "NoResponse demo_regs = 0" by (simp_all add: demo_regs_def)
  have r2: "response demo_unit demo_regs 2 0 \<noteq> NoResponse demo_regs" by (simp add: r c)
  consider k where "k < 10" "response demo_unit demo_regs k 0 \<noteq> NoResponse demo_regs"
      "\<forall>j < k. response demo_unit demo_regs j 0 = NoResponse demo_regs"
      "SMUWaitForResponse demo_unit demo_regs 0 = (response demo_unit demo_regs k 0, polled demo_unit demo_regs (Suc k) 0)"
    | "\<forall>j < 10. response demo_unit demo_regs j 0 = NoResponse demo_regs"
    using SMUWaitForResponse_first [of demo_regs demo_unit 0] unfolding c(1) by blast
  then show ?thesis
  proof cases
    case (1 k)
    have "\<not> k < 2" using 1(2) by (auto simp: r c)
    moreover have "\<not> 2 < k" using 1(3) r2 by blast
    ultimately have "k = 2" by linarith
    with 1(4) show ?thesis by (simp add: r demo_unit_polled)
  next
    case 2
    have "(2 :: nat) < 10" by simp
    with 2 r2 show ?thesis by blast
  qed
qed

section \<open>The video BIOS\<close>

text \<open>A pointer into memory is the bytes from there on.\<close>

definition CheckATOMBIOS :: "(nat \<Rightarrow> byte) \<Rightarrow> nat \<Rightarrow> bool" where
  "CheckATOMBIOS BIOS sz =
     (if sz < 0x49 then False
      else if BIOS 0 \<noteq> 0x55 \<or> BIOS 1 \<noteq> 0xAA then False
      else
        let BIOSHeaderStart = (ucast (BIOS 0x48) OR push_bit 8 (ucast (BIOS 0x49)) :: u16)
        in if BIOSHeaderStart = 0 then False
           else
             let Temp = BIOSHeaderStart + 4
             in if sz < unat Temp then False
                else map (\<lambda>i. BIOS (unat Temp + i)) [0..<4] = [0x41, 0x54, 0x4F, 0x4D]
                     \<or> map (\<lambda>i. BIOS (unat Temp + i)) [0..<4] = [0x4D, 0x4F, 0x54, 0x41])"

text \<open>The layout of the table: the offset of the first image, the size of an image header and its members.\<close>

record vfctLayout =
  sizeofVFCT :: nat
  vbiosImageOffset :: "byte list \<Rightarrow> u32"
  sizeofHeader :: u32
  imageLength :: "byte list \<Rightarrow> u32"
  pciBus :: "byte list \<Rightarrow> u32"
  pciDevice :: "byte list \<Rightarrow> u32"
  pciFunction :: "byte list \<Rightarrow> u32"
  vendorID :: "byte list \<Rightarrow> u32"
  deviceID :: "byte list \<Rightarrow> u32"

record gpuLocation =
  g_vendor :: u32
  g_deviceID :: u32
  g_bus :: u32
  g_device :: u32
  g_function :: u32

type_synonym getBytes = "byte list \<Rightarrow> u32 \<Rightarrow> u32 \<Rightarrow> byte list option"

text \<open>The bytes from an offset of the table on, and what lies behind the table.\<close>

definition from_offset :: "(nat \<Rightarrow> byte) \<Rightarrow> byte list \<Rightarrow> nat \<Rightarrow> nat \<Rightarrow> byte" where
  "from_offset behind d off i = (if off + i < length d then d ! (off + i) else behind (off + i))"

definition matchesGPU :: "vfctLayout \<Rightarrow> gpuLocation \<Rightarrow> bool \<Rightarrow> byte list \<Rightarrow> bool" where
  "matchesGPU l g strict h \<longleftrightarrow> imageLength l h \<noteq> 0
     \<and> (\<not> strict \<or> (pciBus l h = g_bus g \<and> pciDevice l h = g_device g \<and> pciFunction l h = g_function g))
     \<and> vendorID l h = g_vendor g \<and> deviceID l h = g_deviceID g"

text \<open>\<open>copied\<close> says whether \<open>OSData::withBytes\<close> succeeds.\<close>

partial_function (option) vfctLoop ::
  "getBytes \<Rightarrow> vfctLayout \<Rightarrow> gpuLocation \<Rightarrow> bool \<Rightarrow> bool \<Rightarrow> (nat \<Rightarrow> byte) \<Rightarrow> byte list \<Rightarrow> u32 \<Rightarrow> byte list option res option" where
  "vfctLoop getBytes l g strict copied behind d off =
     (if unat off \<ge> length d then Some (Inr None)
      else case getBytes d off (sizeofHeader l) of
        None \<Rightarrow> Some (Inr None)
      | Some h \<Rightarrow>
          (case getBytes d (off + sizeofHeader l) (imageLength l h) of
             None \<Rightarrow> Some (Inr None)
           | Some content \<Rightarrow>
               if matchesGPU l g strict h then
                 (if CheckATOMBIOS (from_offset behind d (unat (off + sizeofHeader l))) (unat (imageLength l h))
                  then (if copied then Some (Inr (Some content)) else Some (Inl (Panic ''NDeck'')))
                  else Some (Inr None))
               else vfctLoop getBytes l g strict copied behind d (off + (sizeofHeader l + imageLength l h))))"

text \<open>What the platform expert gives for the table.\<close>

datatype acpiTable = NoExpert | NoTable | NoBytes | Table "byte list"

definition GetVBIOSFromVFCT ::
  "getBytes \<Rightarrow> vfctLayout \<Rightarrow> gpuLocation \<Rightarrow> bool \<Rightarrow> bool \<Rightarrow> (nat \<Rightarrow> byte) \<Rightarrow> acpiTable \<Rightarrow> byte list option res option" where
  "GetVBIOSFromVFCT getBytes l g strict copied behind table =
     (case table of
        NoExpert \<Rightarrow> Some (Inl (Panic ''NDeck''))
      | NoTable \<Rightarrow> Some (Inr None)
      | NoBytes \<Rightarrow> Some (Inl (Panic ''NDeck''))
      | Table d \<Rightarrow>
          if sizeofVFCT l > length d then Some (Inr None)
          else vfctLoop getBytes l g strict copied behind d (vbiosImageOffset l d))"

definition vbiosROMSize :: nat where "vbiosROMSize = 256 * 1024"

text \<open>The frame buffer window: its length and its bytes.\<close>

definition GetVBIOSFromVRAM :: "bool \<Rightarrow> (nat \<times> (nat \<Rightarrow> byte)) option \<Rightarrow> byte list option res" where
  "GetVBIOSFromVRAM copied bar0 =
     (case bar0 of
        None \<Rightarrow> Inr None
      | Some (len, fb) \<Rightarrow>
          if len = 0 then Inr None
          else if \<not> CheckATOMBIOS fb vbiosROMSize then Inr None
          else if copied then Inr (Some (map fb [0..<vbiosROMSize])) else Inl (Panic ''NDeck''))"

text \<open>The expansion ROM: the base register, and the mapping, whose bytes depend on the register.\<close>

record rom =
  romBase :: u32
  romMap :: "(nat \<times> (u32 \<Rightarrow> nat \<Rightarrow> byte)) option"

definition GetVBIOSFromExpansionROM :: "nat \<Rightarrow> (nat \<Rightarrow> byte) \<Rightarrow> bool \<Rightarrow> rom \<Rightarrow> (byte list option \<times> rom) res" where
  "GetVBIOSFromExpansionROM ATOMBIOS_IMAGE_SIZE behind copied r =
     (let base = romBase r
      in if base = 0 then Inr (None, r)
         else case romMap r of
           None \<Rightarrow> Inr (None, r)
         | Some (len, bytes) \<Rightarrow>
             let n = min len ATOMBIOS_IMAGE_SIZE
             in if n = 0 then Inr (None, r)
                else
                  let r1 = r\<lparr>romBase := base OR 1\<rparr>;
                      image = map (bytes (romBase r1)) [0..<n]
                  in if \<not> copied then Inl (Panic ''NDeck'')
                     else
                       let r2 = r1\<lparr>romBase := base\<rparr>
                       in if CheckATOMBIOS (from_offset behind image 0) n then Inr (Some image, r2) else Inr (None, r2))"

text \<open>Everything the search looks at.\<close>

record vbiosEnv =
  v_getBytes :: getBytes
  v_layout :: vfctLayout
  v_gpu :: gpuLocation
  v_override :: "byte list option"
  v_table :: acpiTable
  v_bar0 :: "(nat \<times> (nat \<Rightarrow> byte)) option"
  v_imageSize :: nat
  v_copied :: bool
  v_behind :: "nat \<Rightarrow> byte"

definition vfctOf :: "vbiosEnv \<Rightarrow> bool \<Rightarrow> byte list option res option" where
  "vfctOf e strict = GetVBIOSFromVFCT (v_getBytes e) (v_layout e) (v_gpu e) strict (v_copied e) (v_behind e) (v_table e)"

text \<open>The found BIOS is \<open>VBIOSData\<close>; \<open>None\<close> is the result false.\<close>

definition GetVBIOS :: "vbiosEnv \<Rightarrow> rom \<Rightarrow> (byte list option \<times> rom) res option" where
  "GetVBIOS e r =
     (if (case v_override e of None \<Rightarrow> False | Some b \<Rightarrow> CheckATOMBIOS (from_offset (v_behind e) b 0) (length b))
      then Some (Inr (v_override e, r))
      else case vfctOf e True of
        None \<Rightarrow> None
      | Some (Inl p) \<Rightarrow> Some (Inl p)
      | Some (Inr (Some b)) \<Rightarrow> Some (Inr (Some b, r))
      | Some (Inr None) \<Rightarrow>
          (case GetVBIOSFromVRAM (v_copied e) (v_bar0 e) of
             Inl p \<Rightarrow> Some (Inl p)
           | Inr (Some b) \<Rightarrow> Some (Inr (Some b, r))
           | Inr None \<Rightarrow>
               (case GetVBIOSFromExpansionROM (v_imageSize e) (v_behind e) (v_copied e) r of
                  Inl p \<Rightarrow> Some (Inl p)
                | Inr (Some b, r1) \<Rightarrow> Some (Inr (Some b, r1))
                | Inr (None, r1) \<Rightarrow>
                    (case vfctOf e False of
                       None \<Rightarrow> None
                     | Some (Inl p) \<Rightarrow> Some (Inl p)
                     | Some (Inr b) \<Rightarrow> Some (Inr (b, r1))))))"

text \<open>\<open>GetVBIOSDataTable\<close>: the offset of a data table, or none.  The positions of the ROM table pointers are
  parameters.\<close>

definition word16 :: "(nat \<Rightarrow> byte) \<Rightarrow> nat \<Rightarrow> u16" where
  "word16 b i = ucast (b i) OR push_bit 8 (ucast (b (i + 1)))"

definition GetVBIOSDataTable :: "nat \<Rightarrow> nat \<Rightarrow> (nat \<Rightarrow> byte) \<Rightarrow> nat \<Rightarrow> nat option" where
  "GetVBIOSDataTable ATOM_ROM_TABLE_PTR ATOM_ROM_DATA_PTR VBIOS index =
     (let Base = word16 VBIOS ATOM_ROM_TABLE_PTR;
          DataTable = word16 VBIOS (unat Base + ATOM_ROM_DATA_PTR);
          Offset = word16 VBIOS (unat DataTable + 4 + 2 * index)
      in if Offset \<noteq> 0 then Some (unat Offset) else None)"

section \<open>What the checks read\<close>

lemma CheckATOMBIOS_cong:
  assumes "\<And>i. i < sz + 4 \<Longrightarrow> b i = b' i"
  shows "CheckATOMBIOS b sz = CheckATOMBIOS b' sz"
proof (cases "sz < 0x49")
  case True
  then show ?thesis by (simp add: CheckATOMBIOS_def)
next
  case False
  then have e: "b 0 = b' 0" "b 1 = b' 1" "b 0x48 = b' 0x48" "b 0x49 = b' 0x49" using assms by auto
  have m: "map (\<lambda>i. b (t + i)) [0..<4] = map (\<lambda>i. b' (t + i)) [0..<4]" if "\<not> sz < t" for t
    using that assms by auto
  show ?thesis
    unfolding CheckATOMBIOS_def Let_def e using m by (auto simp del: map_eq_conv)
qed

lemma header_word: "h < 2 ^ 16 \<Longrightarrow>
  (ucast (of_nat (take_bit 8 h) :: byte) OR push_bit 8 (ucast (of_nat (drop_bit 8 h) :: byte)) :: u16) = of_nat h"
  by (rule bit_word_eqI) (auto simp: bit_simps)

text \<open>A ROM image whose header points just behind it.\<close>

definition edge_image :: "nat \<Rightarrow> byte list \<Rightarrow> nat \<Rightarrow> byte" where
  "edge_image sz sig i =
     (if i = 0 then 0x55 else if i = 1 then 0xAA
      else if i = 0x48 then of_nat (take_bit 8 (sz - 4)) else if i = 0x49 then of_nat (drop_bit 8 (sz - 4))
      else if sz \<le> i \<and> i < sz + length sig then sig ! (i - sz) else 0)"

lemma edge_image_check:
  assumes "0x4A \<le> sz" and "sz < 2 ^ 16" and "length sig = 4"
  shows "CheckATOMBIOS (edge_image sz sig) sz \<longleftrightarrow> sig = [0x41, 0x54, 0x4F, 0x4D] \<or> sig = [0x4D, 0x4F, 0x54, 0x41]"
proof -
  let ?b = "edge_image sz sig"
  have w: "(ucast (?b 0x48) OR push_bit 8 (ucast (?b 0x49)) :: u16) = of_nat (sz - 4)"
    using header_word [of "sz - 4"] assms(2) by (simp add: edge_image_def)
  have u: "unat (of_nat (sz - 4) :: u16) = sz - 4" using assms(2) by (simp add: unat_of_nat take_bit_nat_eq_self)
  have nz: "(of_nat (sz - 4) :: u16) \<noteq> 0"
  proof
    assume "(of_nat (sz - 4) :: u16) = 0"
    with u assms(1) show False by simp
  qed
  have t: "unat (of_nat (sz - 4) + 4 :: u16) = sz"
    using assms(1,2) by (simp add: unat_of_nat take_bit_nat_eq_self)
  have "map (\<lambda>i. ?b (sz + i)) [0..<4] = map ((!) sig) [0..<4]"
    using assms(1,3) by (auto simp: edge_image_def)
  also have "\<dots> = sig" using map_nth [of sig] assms(3) by simp
  finally have s: "map (\<lambda>i. ?b (sz + i)) [0..<4] = sig" .
  have o: "?b 0 = 0x55" "?b 1 = 0xAA" by (simp_all add: edge_image_def)
  show ?thesis unfolding CheckATOMBIOS_def Let_def w t s o using assms(1) nz by simp
qed

text \<open>The test for an ATOM BIOS depends on no byte beyond four behind the image; it is not confined to
  the image, though: for every size from 74 to 65535 there are two memories with the same image of that size
  of which one passes and the other does not.\<close>

theorem CheckATOMBIOS_overread:
  "(\<forall>b b'. (\<forall>i < sz + 4. b i = b' i) \<longrightarrow> CheckATOMBIOS b sz = CheckATOMBIOS b' sz)
   \<and> (0x4A \<le> sz \<and> sz < 2 ^ 16 \<longrightarrow> (\<exists>b b'. (\<forall>i < sz. b i = b' i) \<and> CheckATOMBIOS b sz \<and> \<not> CheckATOMBIOS b' sz))"
proof (intro conjI allI impI)
  fix b b' :: "nat \<Rightarrow> byte"
  assume "\<forall>i < sz + 4. b i = b' i"
  then show "CheckATOMBIOS b sz = CheckATOMBIOS b' sz" by (intro CheckATOMBIOS_cong) blast
next
  assume s: "0x4A \<le> sz \<and> sz < 2 ^ 16"
  let ?b = "edge_image sz [0x41, 0x54, 0x4F, 0x4D]" and ?b' = "edge_image sz [0, 0, 0, 0]"
  have "CheckATOMBIOS ?b sz" "\<not> CheckATOMBIOS ?b' sz" using s by (simp_all add: edge_image_check)
  moreover have "\<forall>i < sz. ?b i = ?b' i" by (simp add: edge_image_def)
  ultimately show "\<exists>b b'. (\<forall>i < sz. b i = b' i) \<and> CheckATOMBIOS b sz \<and> \<not> CheckATOMBIOS b' sz" by blast
qed

theorem CheckATOMBIOS_overread_witness:
  "(0x4A :: nat) \<le> 0x50 \<and> (\<exists>b b'. (\<forall>i < 0x50. b i = b' i) \<and> CheckATOMBIOS b 0x50 \<and> \<not> CheckATOMBIOS b' 0x50)"
  using CheckATOMBIOS_overread [of "0x50"] by simp

section \<open>The search in the table\<close>

text \<open>What \<open>OSData::getBytesNoCopy\<close> documents: a range it returns lies within the data.\<close>

definition reads_within :: "getBytes \<Rightarrow> bool" where
  "reads_within gb \<longleftrightarrow> (\<forall>d s n bs. gb d s n = Some bs \<longrightarrow>
     unat s + unat n \<le> length d \<and> bs = take (unat n) (drop (unat s) d))"

definition found_image :: "getBytes \<Rightarrow> vfctLayout \<Rightarrow> gpuLocation \<Rightarrow> bool \<Rightarrow> (nat \<Rightarrow> byte) \<Rightarrow> byte list \<Rightarrow> byte list \<Rightarrow> bool" where
  "found_image gb l g strict behind d img \<longleftrightarrow> (\<exists>off h. gb d off (sizeofHeader l) = Some h \<and> matchesGPU l g strict h
     \<and> img = take (unat (imageLength l h)) (drop (unat (off + sizeofHeader l)) d)
     \<and> length img = unat (imageLength l h)
     \<and> CheckATOMBIOS (from_offset behind d (unat (off + sizeofHeader l))) (length img))"

lemma vfct_advance:
  fixes off hs n :: u32
  assumes "unat off + unat hs \<le> len" and "unat (off + hs) + unat n \<le> len" and "len < 2 ^ 32"
  shows "unat (off + (hs + n)) = unat off + unat hs + unat n"
proof -
  have 1: "unat (off + hs) = unat off + unat hs" using assms(1,3) by (simp add: unat_word_ariths)
  have "unat ((off + hs) + n) = unat (off + hs) + unat n" using assms(2,3) by (simp add: unat_word_ariths)
  then show ?thesis by (simp add: 1 add.assoc)
qed

lemma vfctLoop_total:
  assumes gb: "reads_within gb" and d: "length d < 2 ^ 32" and hs: "sizeofHeader l \<noteq> 0"
  shows "\<exists>r. vfctLoop gb l g strict copied behind d off = Some r
    \<and> (\<forall>img. r = Inr (Some img) \<longrightarrow> found_image gb l g strict behind d img)"
proof (induction "length d - unat off" arbitrary: off rule: less_induct)
  case less
  let ?hs = "sizeofHeader l"
  consider "unat off \<ge> length d \<or> gb d off ?hs = None"
    | h where "unat off < length d" "gb d off ?hs = Some h" "gb d (off + ?hs) (imageLength l h) = None"
    | h c where "unat off < length d" "gb d off ?hs = Some h" "gb d (off + ?hs) (imageLength l h) = Some c"
    by (meson not_le_imp_less option.exhaust)
  then show ?case
  proof cases
    case 1
    then show ?thesis by (subst vfctLoop.simps) (auto split: option.split)
  next
    case (2 h)
    then show ?thesis by (subst vfctLoop.simps) simp
  next
    case (3 h c)
    have b: "unat off + unat ?hs \<le> length d" "unat (off + ?hs) + unat (imageLength l h) \<le> length d"
      "c = take (unat (imageLength l h)) (drop (unat (off + ?hs)) d)"
      using gb 3 unfolding reads_within_def by blast+
    have lc: "length c = unat (imageLength l h)" using b(2,3) by simp
    show ?thesis
    proof (cases "matchesGPU l g strict h")
      case True
      with 3 b lc show ?thesis by (subst vfctLoop.simps) (auto simp: found_image_def)
    next
      case False
      let ?off = "off + (?hs + imageLength l h)"
      have "unat ?off = unat off + unat ?hs + unat (imageLength l h)" by (rule vfct_advance [OF b(1,2) d])
      moreover have "0 < unat ?hs" using hs by (simp add: unat_gt_0)
      ultimately have "length d - unat ?off < length d - unat off" using 3(1) by simp
      from less [OF this] 3 False show ?thesis by (subst vfctLoop.simps) simp
    qed
  qed
qed

section \<open>The whole search\<close>

text \<open>An image that passes the test, with some bytes behind it.\<close>

definition atom_image :: "byte list \<Rightarrow> bool" where
  "atom_image img \<longleftrightarrow> (\<exists>mem. (\<forall>i < length img. mem i = img ! i) \<and> CheckATOMBIOS mem (length img))"

lemma from_offset_image: "CheckATOMBIOS (from_offset behind img 0) (length img) \<Longrightarrow> atom_image img"
  unfolding atom_image_def by (rule exI [of _ "from_offset behind img 0"]) (simp add: from_offset_def)

lemma found_image_atom:
  assumes "found_image gb l g strict behind d img"
  shows "atom_image img"
proof -
  from assms obtain off n where i: "img = take n (drop off d)" "length img = n"
    and c: "CheckATOMBIOS (from_offset behind d off) (length img)" unfolding found_image_def by blast
  have "\<forall>i < length img. from_offset behind d off i = img ! i" using i by (auto simp: from_offset_def)
  with c show ?thesis unfolding atom_image_def by blast
qed

lemma vfctOf_total:
  assumes "reads_within (v_getBytes e)" and "sizeofHeader (v_layout e) \<noteq> 0" and "\<forall>d. v_table e = Table d \<longrightarrow> length d < 2 ^ 32"
  shows "\<exists>r. vfctOf e strict = Some r \<and> (\<forall>img. r = Inr (Some img) \<longrightarrow> atom_image img)"
proof (cases "v_table e")
  case (Table d)
  have "\<exists>r. vfctLoop (v_getBytes e) (v_layout e) (v_gpu e) strict (v_copied e) (v_behind e) d (vbiosImageOffset (v_layout e) d)
      = Some r \<and> (\<forall>img. r = Inr (Some img) \<longrightarrow> atom_image img)"
    using vfctLoop_total [OF assms(1) _ assms(2)] assms(3) Table found_image_atom by meson
  then show ?thesis by (auto simp: vfctOf_def GetVBIOSFromVFCT_def Table)
qed (auto simp: vfctOf_def GetVBIOSFromVFCT_def)

lemma map_image: "CheckATOMBIOS b n \<Longrightarrow> atom_image (map b [0..<n])"
  unfolding atom_image_def by (rule exI [of _ b]) simp

lemma vram_atom: "GetVBIOSFromVRAM copied bar0 = Inr (Some img) \<Longrightarrow> atom_image img"
  by (auto simp: GetVBIOSFromVRAM_def intro: map_image split: option.split_asm if_split_asm)

lemma expansionROM_atom:
  "GetVBIOSFromExpansionROM n behind copied r = Inr (b, r') \<Longrightarrow> r' = r \<and> (\<forall>img. b = Some img \<longrightarrow> atom_image img)"
  by (auto simp: GetVBIOSFromExpansionROM_def Let_def intro!: from_offset_image [of behind]
      split: option.split_asm if_split_asm)

text \<open>C38: the search for the video BIOS ends, whatever the tables and windows hold; if it finds an image, the
  image passes the ATOM BIOS test; and on every path on which it returns, the base register of the expansion
  ROM is as it was, so reading of the ROM is disabled again.\<close>

theorem GetVBIOS_sound:
  assumes "reads_within (v_getBytes e)" and "sizeofHeader (v_layout e) \<noteq> 0" and "\<forall>d. v_table e = Table d \<longrightarrow> length d < 2 ^ 32"
  shows "\<exists>res. GetVBIOS e r = Some res
    \<and> (\<forall>b r'. res = Inr (b, r') \<longrightarrow> r' = r \<and> (\<forall>img. b = Some img \<longrightarrow> atom_image img))"
proof -
  obtain r1 where 1: "vfctOf e True = Some r1" "\<And>img. r1 = Inr (Some img) \<Longrightarrow> atom_image img"
    using vfctOf_total [OF assms, of True] by blast
  obtain r2 where 2: "vfctOf e False = Some r2" "\<And>img. r2 = Inr (Some img) \<Longrightarrow> atom_image img"
    using vfctOf_total [OF assms, of False] by blast
  show ?thesis
  proof (cases "case v_override e of None \<Rightarrow> False | Some b \<Rightarrow> CheckATOMBIOS (from_offset (v_behind e) b 0) (length b)")
    case True
    then obtain b where b: "v_override e = Some b" "atom_image b" by (auto intro: from_offset_image split: option.split_asm)
    with True show ?thesis by (simp add: GetVBIOS_def)
  next
    case False
    with 1 2 show ?thesis unfolding GetVBIOS_def
      by (auto dest: vram_atom expansionROM_atom split: sum.split option.split)
  qed
qed

text \<open>Data whose ranges are checked, and a table with one image of 80 bytes behind a header of two bytes.\<close>

definition demo_getBytes :: getBytes where
  "demo_getBytes d s n = (if unat s + unat n \<le> length d then Some (take (unat n) (drop (unat s) d)) else None)"

definition demo_vfct :: vfctLayout where
  "demo_vfct = \<lparr>sizeofVFCT = 1, vbiosImageOffset = (\<lambda>_. 0), sizeofHeader = 2, imageLength = (\<lambda>h. ucast (hd h)),
     pciBus = (\<lambda>_. 0), pciDevice = (\<lambda>_. 0), pciFunction = (\<lambda>_. 0), vendorID = (\<lambda>_. 0x1002), deviceID = (\<lambda>_. 0x163F)\<rparr>"

definition demo_atom :: "byte list" where
  "demo_atom = [0x55, 0xAA] @ replicate 70 0 @ [0x4A, 0, 0, 0, 0, 0, 0x41, 0x54, 0x4F, 0x4D]"

definition demo_vbios :: vbiosEnv where
  "demo_vbios = \<lparr>v_getBytes = demo_getBytes, v_layout = demo_vfct,
     v_gpu = \<lparr>g_vendor = 0x1002, g_deviceID = 0x163F, g_bus = 0, g_device = 0, g_function = 0\<rparr>,
     v_override = None, v_table = Table ([82, 0] @ demo_atom), v_bar0 = None, v_imageSize = 0x10000, v_copied = True,
     v_behind = (\<lambda>_. 0)\<rparr>"

lemma demo_table:
  "demo_getBytes ([82, 0] @ demo_atom) 0 2 = Some [82, 0]"
  "demo_getBytes ([82, 0] @ demo_atom) 2 82 = Some demo_atom"
  "CheckATOMBIOS (from_offset (\<lambda>_. 0) ([82, 0] @ demo_atom) 2) 82"
  "matchesGPU demo_vfct (v_gpu demo_vbios) True [82, 0]"
  "length demo_atom = 82"
  by (simp_all add: demo_getBytes_def demo_atom_def CheckATOMBIOS_def from_offset_def nth_append upt_rec matchesGPU_def
      demo_vfct_def demo_vbios_def)

lemma demo_search:
  "vfctLoop demo_getBytes demo_vfct (v_gpu demo_vbios) True True (\<lambda>_. 0) ([82, 0] @ demo_atom) 0 = Some (Inr (Some demo_atom))"
proof -
  have "sizeofHeader demo_vfct = 2" "imageLength demo_vfct [82, 0] = 82" by (simp_all add: demo_vfct_def)
  then show ?thesis by (subst vfctLoop.simps) (simp add: demo_table del: append.simps)
qed

theorem GetVBIOS_sound_witness:
  "GetVBIOS demo_vbios \<lparr>romBase = 0, romMap = None\<rparr> = Some (Inr (Some demo_atom, \<lparr>romBase = 0, romMap = None\<rparr>))
     \<and> atom_image demo_atom"
proof -
  let ?r = "\<lparr>romBase = 0, romMap = None\<rparr>"
  have h: "reads_within (v_getBytes demo_vbios)" "sizeofHeader (v_layout demo_vbios) \<noteq> 0"
    "\<forall>d. v_table demo_vbios = Table d \<longrightarrow> length d < 2 ^ 32"
    by (auto simp: reads_within_def demo_getBytes_def demo_vbios_def demo_vfct_def demo_atom_def)
  have f: "v_getBytes demo_vbios = demo_getBytes" "v_layout demo_vbios = demo_vfct" "v_override demo_vbios = None"
    "v_table demo_vbios = Table ([82, 0] @ demo_atom)" "v_copied demo_vbios" "v_behind demo_vbios = (\<lambda>_. 0)"
    by (simp_all add: demo_vbios_def)
  have l: "sizeofVFCT demo_vfct = 1" "vbiosImageOffset demo_vfct d = 0" for d by (simp_all add: demo_vfct_def)
  have c: "GetVBIOS demo_vbios ?r = Some (Inr (Some demo_atom, ?r))"
    by (simp add: GetVBIOS_def vfctOf_def GetVBIOSFromVFCT_def f l demo_search del: append.simps)
  from GetVBIOS_sound [OF h, of ?r] c show ?thesis by auto
qed

end
