(* ===== verification/NDeck_Drivers.thy ===== *)
theory NDeck_Drivers
  imports NDeck_Hardware
begin

text \<open>
  The two kernel functions the module hooks (\<^verbatim>\<open>NootedDeck/NDeck.cpp\<close>): \<open>IOCatalogue::addDrivers\<close>, where the
  personalities of three kexts are injected in front of the matching driver, and \<open>safeMetaCast\<close>.  Driver
  objects are abstract with the bundle identifier the code reads from them; \<open>OSArray::setObject\<close> and
  \<open>OSUnserializeXML\<close> are parameters.
\<close>

section \<open>Names of the injected files\<close>

text \<open>\<open>strlcat\<close> on a buffer: the length is searched within the buffer, at most the rest is appended with a
  null byte, and a buffer without a null byte is left alone.\<close>

definition strlcat :: "byte list \<Rightarrow> byte list \<Rightarrow> byte list" where
  "strlcat dst src =
     (let n = length (takeWhile (\<lambda>b. b \<noteq> 0) dst)
      in if n = length dst then dst
         else let put = take (length dst - n - 1) src @ [0]
              in take n dst @ put @ drop (n + length put) dst)"

text \<open>The string a buffer holds; none if it is not terminated.\<close>

definition cstring :: "byte list \<Rightarrow> byte list option" where
  "cstring b = (if 0 \<in> set b then Some (takeWhile (\<lambda>x. x \<noteq> 0) b) else None)"

definition bytes_of :: "string \<Rightarrow> byte list" where
  "bytes_of s = map (\<lambda>c. of_nat (of_char c)) s"

text \<open>\<open>fresh\<close> is what the last five bytes of the new buffer hold.\<close>

definition driverFilename :: "byte list \<Rightarrow> byte list \<Rightarrow> byte list option" where
  "driverFilename fresh BundleIdentifier = cstring (strlcat (BundleIdentifier @ fresh) (bytes_of ''.xml''))"

definition GetDriverXMLForBundle ::
  "(byte list \<times> FWMetadata) list \<Rightarrow> byte list \<Rightarrow> byte list \<Rightarrow> (byte list \<times> u32) res" where
  "GetDriverXMLForBundle firmware fresh BundleIdentifier =
     (case driverFilename fresh BundleIdentifier of
        None \<Rightarrow> Inl (Panic ''unterminated'')
      | Some name \<Rightarrow> res_bind (GetFirmwareNamed firmware name) (\<lambda>md. Inr (fw_Data md, fw_Length md)))"

lemma takeWhile_id_append: "0 \<notin> set b \<Longrightarrow> takeWhile (\<lambda>x. x \<noteq> (0 :: byte)) (b @ c) = b @ takeWhile (\<lambda>x. x \<noteq> 0) c"
  by (induction b) auto

text \<open>The file name built for a bundle is its identifier with \<open>.xml\<close> exactly if the first byte of the
  freshly allocated, uninitialised rest of the buffer happens to be null, or the rest happens to hold
  the extension already.\<close>

theorem driverFilename_uninitialised:
  assumes "0 \<notin> set bundle" and "length fresh = 5"
  shows "driverFilename fresh bundle = Some (bundle @ bytes_of ''.xml'')
    \<longleftrightarrow> hd fresh = 0 \<or> fresh = bytes_of ''.xml'' @ [0]"
proof -
  have x: "bytes_of ''.xml'' = [46, 120, 109, 108]" by (simp add: bytes_of_def)
  obtain f0 f1 f2 f3 f4 where f: "fresh = [f0, f1, f2, f3, f4]"
    using assms(2) by (auto simp: length_Suc_conv eval_nat_numeral)
  note defs = driverFilename_def strlcat_def cstring_def takeWhile_id_append [OF assms(1)] f x Let_def
  consider "f0 = 0" | "f0 \<noteq> 0" "f1 = 0" | "f0 \<noteq> 0" "f1 \<noteq> 0" "f2 = 0" | "f0 \<noteq> 0" "f1 \<noteq> 0" "f2 \<noteq> 0" "f3 = 0"
    | "f0 \<noteq> 0" "f1 \<noteq> 0" "f2 \<noteq> 0" "f3 \<noteq> 0" "f4 = 0" | "f0 \<noteq> 0" "f1 \<noteq> 0" "f2 \<noteq> 0" "f3 \<noteq> 0" "f4 \<noteq> 0" by blast
  then show ?thesis using assms(1) by cases (auto simp: defs)
qed

theorem driverFilename_uninitialised_witness:
  "driverFilename [7, 0, 0, 0, 0] (bytes_of ''com.apple'') \<noteq> Some (bytes_of ''com.apple.xml'')
   \<and> driverFilename [0, 1, 2, 3, 4] (bytes_of ''com.apple'') = Some (bytes_of ''com.apple.xml'')"
  using driverFilename_uninitialised [of "bytes_of ''com.apple''" "[7, 0, 0, 0, 0]"]
    driverFilename_uninitialised [of "bytes_of ''com.apple''" "[0, 1, 2, 3, 4]"]
  by (simp add: bytes_of_def)

section \<open>Injecting drivers\<close>

definition DriverBundleIdentifiers :: "string list" where
  "DriverBundleIdentifiers =
     [''com.apple.kext.AMDRadeonX6000'', ''com.apple.kext.AMDRadeonX6000Framebuffer'', ''com.apple.driver.AppleGFXHDA'']"

text \<open>The inner loop: the first identifier not matched before that is the bundle's.\<close>

fun identifierIndex :: "byte \<Rightarrow> string \<Rightarrow> nat \<Rightarrow> string list \<Rightarrow> nat option" where
  "identifierIndex matched b i [] = None"
| "identifierIndex matched b i (x # xs) =
     (if matched AND push_bit i 1 \<noteq> 0 then identifierIndex matched b (Suc i) xs
      else if b = x then Some i else identifierIndex matched b (Suc i) xs)"

fun insertDrivers :: "(nat \<Rightarrow> 'o \<Rightarrow> 'o list \<Rightarrow> 'o list) \<Rightarrow> 'o list \<Rightarrow> nat \<Rightarrow> 'o list \<Rightarrow> 'o list" where
  "insertDrivers setObject [] i arr = arr"
| "insertDrivers setObject (x # xs) i arr = insertDrivers setObject xs (Suc i) (setObject i x arr)"

text \<open>\<open>bundle\<close> is the non-empty identifier of a dictionary; \<open>drivers\<close> reads and unserializes the file of a
  bundle.\<close>

function addLoop ::
  "(nat \<Rightarrow> 'o \<Rightarrow> 'o list \<Rightarrow> 'o list) \<Rightarrow> ('o \<Rightarrow> string option) \<Rightarrow> (string \<Rightarrow> 'o list res) \<Rightarrow> byte \<Rightarrow> nat \<Rightarrow> nat \<Rightarrow> 'o list
    \<Rightarrow> (byte \<times> 'o list) res" where
  "addLoop setObject bundle drivers matched index count arr =
     (if \<not> index < count then Inr (matched, arr)
      else if \<not> index < length arr then Inl (Panic ''NDeck'')
      else case bundle (arr ! index) of
        None \<Rightarrow> addLoop setObject bundle drivers matched (Suc index) count arr
      | Some b \<Rightarrow>
          (case identifierIndex matched b 0 DriverBundleIdentifiers of
             None \<Rightarrow> addLoop setObject bundle drivers matched (Suc index) count arr
           | Some i \<Rightarrow>
               (case drivers b of
                  Inl e \<Rightarrow> Inl e
                | Inr ds \<Rightarrow>
                    addLoop setObject bundle drivers (matched OR push_bit i 1) (Suc (index + length ds)) (count + length ds)
                      (insertDrivers setObject ds index arr))))"
  by pat_completeness auto
termination
  by (relation "measure (\<lambda>(_, _, _, _, index, count, _). count - index)") auto

declare addLoop.simps [simp del]

definition WrapAddDrivers where
  "WrapAddDrivers setObject bundle drivers org matched arr =
     res_bind (addLoop setObject bundle drivers matched 0 (length arr) arr)
       (\<lambda>(matched', arr'). Inr (matched', org arr'))"

text \<open>The specification: each driver in turn, preceded by what is injected for it.\<close>

fun inject :: "('o \<Rightarrow> string option) \<Rightarrow> (string \<Rightarrow> 'o list res) \<Rightarrow> byte \<Rightarrow> 'o list \<Rightarrow> (byte \<times> 'o list) res" where
  "inject bundle drivers matched [] = Inr (matched, [])"
| "inject bundle drivers matched (x # xs) =
     (case (case bundle x of None \<Rightarrow> None | Some b \<Rightarrow>
              map_option (Pair b) (identifierIndex matched b 0 DriverBundleIdentifiers)) of
        None \<Rightarrow> res_bind (inject bundle drivers matched xs) (\<lambda>(m, ys). Inr (m, x # ys))
      | Some (b, i) \<Rightarrow>
          res_bind (drivers b) (\<lambda>ds.
            res_bind (inject bundle drivers (matched OR push_bit i 1) xs) (\<lambda>(m, ys). Inr (m, ds @ x # ys))))"

text \<open>What \<open>OSArray::setObject\<close> documents: the object is inserted, the rest moves up.\<close>

definition inserts :: "(nat \<Rightarrow> 'o \<Rightarrow> 'o list \<Rightarrow> 'o list) \<Rightarrow> bool" where
  "inserts setObject \<longleftrightarrow> (\<forall>i x xs. i \<le> length xs \<longrightarrow> setObject i x xs = take i xs @ x # drop i xs)"

lemma insertDrivers_at:
  "inserts setObject \<Longrightarrow> insertDrivers setObject ds (length pre) (pre @ xs) = pre @ ds @ xs"
proof (induction ds arbitrary: pre)
  case (Cons d ds)
  have "setObject (length pre) d (pre @ xs) = (pre @ [d]) @ xs"
    using Cons.prems by (simp add: inserts_def)
  with Cons.IH [OF Cons.prems, of "pre @ [d]"] show ?case by simp
qed simp

lemma addLoop_inject:
  assumes "inserts setObject"
  shows "addLoop setObject bundle drivers matched (length pre) (length pre + length xs) (pre @ xs)
    = res_bind (inject bundle drivers matched xs) (\<lambda>(m, ys). Inr (m, pre @ ys))"
proof (induction xs arbitrary: pre matched)
  case Nil
  then show ?case by (simp add: addLoop.simps)
next
  case (Cons x xs)
  have n: "(pre @ x # xs) ! length pre = x" by simp
  have skip: "addLoop setObject bundle drivers matched (Suc (length pre)) (length pre + length (x # xs)) (pre @ x # xs)
      = res_bind (inject bundle drivers matched xs) (\<lambda>(m, ys). Inr (m, pre @ x # ys))"
    using Cons [of matched "pre @ [x]"] by simp
  have inj: "addLoop setObject bundle drivers m (Suc (length pre + length ds)) (length pre + length (x # xs) + length ds)
        (insertDrivers setObject ds (length pre) (pre @ x # xs))
      = res_bind (inject bundle drivers m xs) (\<lambda>(m, ys). Inr (m, pre @ ds @ x # ys))" for m ds
    using Cons [of m "pre @ ds @ [x]"] insertDrivers_at [OF assms, of ds pre "x # xs"] by (simp add: add.commute add.left_commute)
  note loop = addLoop.simps [of setObject "bundle" drivers matched "length pre" "length pre + length (x # xs)" "pre @ x # xs"]
  show ?case
  proof (cases "case bundle x of None \<Rightarrow> None | Some b \<Rightarrow> map_option (Pair b) (identifierIndex matched b 0 DriverBundleIdentifiers)")
    case None
    then show ?thesis
      by (subst loop) (auto simp: n skip [simplified] res_bind_def split: option.split_asm sum.splits)
  next
    case (Some p)
    then obtain b i where bi: "p = (b, i)" "bundle x = Some b" "identifierIndex matched b 0 DriverBundleIdentifiers = Some i"
      by (auto split: option.split_asm)
    then show ?thesis
      by (subst loop) (auto simp: n inj [simplified] res_bind_def simp del: insertDrivers.simps split: sum.splits)
  qed
qed

text \<open>Only matched identifiers are added to the set of matched ones, so a bundle is injected once.\<close>

lemma identifierIndex_Some:
  "identifierIndex matched b i xs = Some k \<Longrightarrow> i \<le> k \<and> k < i + length xs \<and> xs ! (k - i) = b \<and> matched AND push_bit k 1 = 0"
  by (induction xs arbitrary: i) (force simp: nth_Cons' Suc_diff_le split: if_split_asm)+


definition demo_insert :: "nat \<Rightarrow> 'o \<Rightarrow> 'o list \<Rightarrow> 'o list" where
  "demo_insert i x xs = take i xs @ x # drop i xs"


section \<open>Casts\<close>

text \<open>\<open>org\<close> is the original cast; the map pairs classes that stand for each other.\<close>

fun castByMap :: "('c \<Rightarrow> 'o option) \<Rightarrow> ('c \<times> 'c) list \<Rightarrow> 'c \<Rightarrow> 'o option" where
  "castByMap org [] toMeta = None"
| "castByMap org ((e0, e1) # es) toMeta =
     (if e0 = toMeta then org e1 else if e1 = toMeta then org e0 else castByMap org es toMeta)"

definition WrapSafeMetaCast :: "('c \<Rightarrow> 'o option) \<Rightarrow> ('c \<times> 'c) list \<Rightarrow> 'c \<Rightarrow> 'o option" where
  "WrapSafeMetaCast org metaClassMap toMeta =
     (case org toMeta of Some r \<Rightarrow> Some r | None \<Rightarrow> castByMap org metaClassMap toMeta)"

lemma WrapSafeMetaCast_partner:
  "WrapSafeMetaCast org es c = Some r \<Longrightarrow> org c = Some r \<or> (\<exists>e. ((c, e) \<in> set es \<or> (e, c) \<in> set es) \<and> org e = Some r)"
proof (cases "org c")
  case None
  have "castByMap org es c = Some r \<Longrightarrow> \<exists>e. ((c, e) \<in> set es \<or> (e, c) \<in> set es) \<and> org e = Some r"
    by (induction org es c rule: castByMap.induct) (auto split: if_split_asm)
  then show "WrapSafeMetaCast org es c = Some r \<Longrightarrow> ?thesis" using None by (simp add: WrapSafeMetaCast_def)
qed (simp add: WrapSafeMetaCast_def)

end
