(* ===== verification/NDeck_Backlight.thy ===== *)
theory NDeck_Backlight
  imports NDeck_Drivers
begin

text \<open>
  The backlight module of NootedDeck (\<^verbatim>\<open>NootedDeck/Backlight.cpp\<close>): which kexts it waits for, what it
  resolves and routes in them, and the functions it puts in the place of the driver's.  The driver's own
  functions act on an abstract panel and are parameters, as are the signal types and the capability bit, which
  come from headers outside the repository.  The constants the source spells with another case than their
  declaration (\<open>FbAttributeBacklight\<close>, \<open>maxOLED\<close>, \<open>kLinkCreatePattern\<close>) are read as the declared ones.
\<close>

section \<open>State and tables\<close>

unbundle bit_operations_syntax

record backlight =
  bl_ModuleLoaded :: bool
  DcLinkCapabillsField :: u32
  CurrentPwmBacklightLevel :: u32
  MaxPwmBacklightLevel :: u32
  MaxOLED :: u32
  DisplayNotif :: bool
  EmbeddedPanelLink :: addr
  SupportsAUX :: bool
  PanelControlPtr :: addr
  panelsOnce :: bool

definition backlight_instance :: backlight where
  "backlight_instance =
     \<lparr>bl_ModuleLoaded = False, DcLinkCapabillsField = InvalidOffset, CurrentPwmBacklightLevel = 0,
      MaxPwmBacklightLevel = 0xFFFF, MaxOLED = 1000 * 512, DisplayNotif = False, EmbeddedPanelLink = 0,
      SupportsAUX = False, PanelControlPtr = 0, panelsOnce = False\<rparr>"

definition unloadedKext :: "string \<Rightarrow> kextinfo" where
  "unloadedKext i = \<lparr>ki_id = i, ki_pathNum = 1, ki_loaded = True, ki_reloadable = False, ki_disabled = False,
     ki_fsonly = False, ki_fsfallback = False, loadIndex = Unloaded\<rparr>"

definition RadeonX6000FramebufferKext :: kextinfo where
  "RadeonX6000FramebufferKext = unloadedKext ''com.apple.kext.AMDRadeonX6000Framebuffer''"
definition BacklightKext :: kextinfo where "BacklightKext = unloadedKext ''com.apple.driver.AppleBacklight''"
definition MCCSControlKext :: kextinfo where "MCCSControlKext = unloadedKext ''com.apple.driver.AppleMCCSControl''"

definition KLinkCreatePattern :: "byte list" where
  "KLinkCreatePattern = [0x55, 0x48, 0x89, 0xE5, 0x41, 0x57, 0x41, 0x56, 0x41, 0x55, 0x41, 0x54, 0x53,
    0x48, 0x81, 0xEC, 0x00, 0x03, 0x00, 0x00, 0x49, 0x89, 0xFD, 0x48, 0x8B, 0x05, 0x00, 0x00, 0x00, 0x00, 0x48, 0x8B,
    0x00, 0x48, 0x00, 0x00, 0x00, 0xBF, 0x00, 0x00, 0x00, 0x00, 0xE8, 0x00, 0x00, 0x00, 0x00]"
definition KLinkCreatePatternMask :: "byte list" where
  "KLinkCreatePatternMask = [0xFF, 0xFF, 0xFF, 0xFF, 0xFF, 0xFF, 0xFF, 0xFF, 0xFF, 0xFF, 0xFF, 0xFF,
    0xFF, 0xFF, 0xFF, 0xFF, 0x00, 0xFF, 0x00, 0x00, 0xFF, 0xFF, 0xFF, 0xFF, 0xFF, 0xFF, 0x00, 0x00, 0x00, 0x00, 0xFF,
    0xFF, 0x00, 0xFF, 0x00, 0x00, 0x00, 0xFF, 0x00, 0x00, 0x00, 0x00, 0xFF, 0x00, 0x00, 0x00, 0x00]"
definition KDcLinkSetBacklightLevelPattern :: "byte list" where
  "KDcLinkSetBacklightLevelPattern = [0x55, 0x48, 0x89, 0xE5, 0x41, 0x57, 0x41, 0x56, 0x41, 0x55,
    0x41, 0x54, 0x53, 0x50, 0x41, 0x89, 0xD6, 0x41, 0x89, 0xF4]"
definition KDcLinkSetBacklightLevelPattern1404 :: "byte list" where
  "KDcLinkSetBacklightLevelPattern1404 = [0x55, 0x48, 0x89, 0xE5, 0x41, 0x57, 0x41, 0x56, 0x41, 0x55,
    0x41, 0x54, 0x53, 0x50, 0x89, 0xD3, 0x41, 0x89, 0xF6, 0x49, 0x89, 0xFC]"
definition KDcLinkSetBacklightLevelNitsPattern :: "byte list" where
  "KDcLinkSetBacklightLevelNitsPattern = [0x55, 0x48, 0x89, 0xE5, 0x53, 0x50, 0x40, 0x88, 0x75, 0x00,
    0x48, 0x85, 0xFF, 0x74, 0x00]"
definition KDcLinkSetBacklightLevelNitsPatternMask :: "byte list" where
  "KDcLinkSetBacklightLevelNitsPatternMask = [0xFF, 0xFF, 0xFF, 0xFF, 0xFF, 0xFF, 0xFF, 0xFF, 0xFF,
    0x00, 0xFF, 0xFF, 0xFF, 0xFF, 0x00]"

section \<open>Starting\<close>

definition onKextLoadForce :: "kextinfo list option \<Rightarrow> stored_callback option \<Rightarrow> liluapi \<Rightarrow> liluapi res" where
  "onKextLoadForce infos callback a =
     (case onKextLoad infos callback a of (e, a1) \<Rightarrow> if e \<noteq> ApiNoError then Inl (Panic ''api'') else Inr a1)"

definition capabilityOffset :: "nat \<Rightarrow> u32 res" where
  "capabilityOffset kver =
     (if kver = 19 then Inr 0x1EA
      else if kver = BigSur then Inr 0x26C
      else if kver = Monterey then Inr 0x284
      else if kver = Ventura \<or> kver = Sonoma \<or> kver = Sequoia \<or> kver = Tahoe then Inr 0x28C
      else Inl (Panic ''Backlight''))"

text \<open>\<open>bootArg\<close> is the value of \<open>AMDBacklight\<close> if it is given.\<close>

definition Backlight_StartModule ::
  "bool \<Rightarrow> bool option \<Rightarrow> nat \<Rightarrow> stored_callback \<Rightarrow> stored_callback \<Rightarrow> backlight \<Rightarrow> liluapi \<Rightarrow> (backlight \<times> liluapi) res" where
  "Backlight_StartModule laptop bootArg kver notify process b a =
     (if bl_ModuleLoaded b then Inl (Panic ''Backlight'')
      else
        let b1 = b\<lparr>bl_ModuleLoaded := True\<rparr>
        in if \<not> laptop \<and> (bootArg = None \<or> bootArg = Some False) then Inr (b1, a)
           else
             res_bind (capabilityOffset kver) (\<lambda>off.
             res_bind (of_assign off (DcLinkCapabillsField b1)) (\<lambda>field.
             res_bind (onKextLoadForce (Some [RadeonX6000FramebufferKext]) None a) (\<lambda>a1.
             res_bind (onKextLoadForce (Some [BacklightKext]) None a1) (\<lambda>a2.
             res_bind (onKextLoadForce (Some [MCCSControlKext]) None a2) (\<lambda>a3.
             res_bind (onPatcherLoadForce notify a3) (\<lambda>a4.
             res_bind (onKextLoadForce None (Some process) a4) (\<lambda>a5.
               Inr (b1\<lparr>DcLinkCapabillsField := field\<rparr>, a5)))))))))"

section \<open>Processing kexts\<close>

text \<open>The addresses of the hooks and of the places of the originals, and the indices of the kexts.\<close>

record blHooks =
  fbIndex :: nat
  backlightIndex :: nat
  mccsIndex :: nat
  at_SetLevel :: addr
  at_SetLevelNits :: addr
  wrapLinkCreate :: addr
  at_LinkCreate :: addr
  wrapSetAttribute :: addr
  at_SetAttribute :: addr
  wrapGetAttribute :: addr
  at_GetAttribute :: addr
  wrapSetDisplay :: addr
  at_SetDisplay :: addr
  at_Return0 :: addr

definition setLevelRequest :: "bool \<Rightarrow> blHooks \<Rightarrow> patternSolveRequest" where
  "setLevelRequest is1404 hk =
     (let p = (if is1404 then KDcLinkSetBacklightLevelPattern1404 else KDcLinkSetBacklightLevelPattern)
      in \<lparr>ps_symbol = Some ''_dc_link_set_backlight_level'', ps_address = at_SetLevel hk, ps_pattern = Some p,
          ps_mask = None, ps_patternSize = length p\<rparr>)"

definition setLevelNitsRequest :: "blHooks \<Rightarrow> patternSolveRequest" where
  "setLevelNitsRequest hk =
     \<lparr>ps_symbol = Some ''_dc_link_set_backlight_level_nits'', ps_address = at_SetLevelNits hk,
      ps_pattern = Some KDcLinkSetBacklightLevelNitsPattern, ps_mask = Some KDcLinkSetBacklightLevelNitsPatternMask,
      ps_patternSize = length KDcLinkSetBacklightLevelNitsPattern\<rparr>"

definition framebufferRoutes :: "blHooks \<Rightarrow> patternRouteRequest list" where
  "framebufferRoutes hk =
     [\<lparr>rq_symbol = Some ''_link_create'', rq_from = 0, rq_to = wrapLinkCreate hk, rq_org = Some (at_LinkCreate hk),
       pr_pattern = Some KLinkCreatePattern, pr_mask = Some KLinkCreatePatternMask, pr_patternSize = length KLinkCreatePattern\<rparr>,
      \<lparr>rq_symbol = Some ''__ZN35AMDRadeonX6000_AmdRadeonFramebuffer25setAttributeForConnectionEijm'', rq_from = 0,
       rq_to = wrapSetAttribute hk, rq_org = Some (at_SetAttribute hk), pr_pattern = None, pr_mask = None, pr_patternSize = 0\<rparr>,
      \<lparr>rq_symbol = Some ''__ZN35AMDRadeonX6000_AmdRadeonFramebuffer25getAttributeForConnectionEijPm'', rq_from = 0,
       rq_to = wrapGetAttribute hk, rq_org = Some (at_GetAttribute hk), pr_pattern = None, pr_mask = None, pr_patternSize = 0\<rparr>]"

definition panelPatch :: "blHooks \<Rightarrow> maskedLookupPatch" where
  "panelPatch hk =
     \<lparr>lp_kext = Some (BacklightKext\<lparr>loadIndex := backlightIndex hk\<rparr>), lp_find = cstr ''F%uT%04x'', lp_replace = cstr ''F%uTxxxx'',
      lp_size = 9, lp_count = 1, ml_findMask = None, ml_replaceMask = None, ml_skip = 0\<rparr>"

definition orPanic :: "string \<Rightarrow> (bool \<times> 's) res \<Rightarrow> 's res" where
  "orPanic who r = res_bind r (\<lambda>(ok, s). if \<not> ok then Inl (Panic who) else Inr s)"

definition processFramebuffer ::
  "ndeckAttributes \<Rightarrow> blHooks \<Rightarrow> nat \<Rightarrow> addr \<Rightarrow> u64 \<Rightarrow> 'a kpatcher_scheme \<Rightarrow> 'a kpatcher_scheme res option" where
  "processFramebuffer attrs hk ident slide sz s =
     (case res_bind (orPanic ''Backlight'' (Solve ident slide sz (setLevelRequest (flagSet IsSonoma1404Plus attrs) hk) s))
             (\<lambda>s1. orPanic ''Backlight'' (Solve ident slide sz (setLevelNitsRequest hk) s1)) of
        Inl e \<Rightarrow> Some (Inl e)
      | Inr s2 \<Rightarrow>
          (case RouteAll ident (framebufferRoutes hk) slide sz s2 of
             None \<Rightarrow> None
           | Some r \<Rightarrow> Some (orPanic ''Backlight'' (res_bind r (\<lambda>(ok, rs, s3). Inr (ok, s3))))))"

definition Backlight_ProcessKext ::
  "ndeckAttributes \<Rightarrow> blHooks \<Rightarrow> nat \<Rightarrow> addr \<Rightarrow> u64 \<Rightarrow> 'a kpatcher_scheme \<Rightarrow> 'a kpatcher_scheme res option" where
  "Backlight_ProcessKext attrs hk ident slide sz s =
     (if fbIndex hk = ident then processFramebuffer attrs hk ident slide sz s
      else if backlightIndex hk = ident then
        (case routeMultiple ident
                [\<lparr>rq_symbol = Some ''__ZN15AppleIntelPanel10setDisplayEP9IODisplay'', rq_from = 0, rq_to = wrapSetDisplay hk,
                  rq_org = Some (at_SetDisplay hk)\<rparr>] slide sz True False s of
           Inl e \<Rightarrow> Some (Inl e)
         | Inr (ok, rs, s1) \<Rightarrow>
             if ok then
               (case Apply slide sz (panelPatch hk) s1 of
                  None \<Rightarrow> None
                | Some (Inl e) \<Rightarrow> Some (Inl e)
                | Some (Inr (applied, s2)) \<Rightarrow> Some (Inr (clearError s2)))
             else Some (Inr (clearError s1)))
      else if mccsIndex hk = ident then
        Some (res_bind (routeMultiple ident
                [\<lparr>rq_symbol = Some ''__ZN25AppleMCCSControlGibraltar5probeEP9IOServicePi'', rq_from = 0,
                  rq_to = at_Return0 hk, rq_org = None\<rparr>,
                 \<lparr>rq_symbol = Some ''__ZN21AppleMCCSControlCello5probeEP9IOServicePi'', rq_from = 0,
                  rq_to = at_Return0 hk, rq_org = None\<rparr>] slide sz True False s)
              (\<lambda>(ok, rs, s1). Inr (clearError s1)))
      else Some (Inr s))"

section \<open>Brightness\<close>

definition kIOReturnSuccess :: u32 where "kIOReturnSuccess = 0"
definition iokit_common_err :: "u32 \<Rightarrow> u32" where
  "iokit_common_err r = push_bit 26 (0x38 AND 0x3F) OR push_bit 14 (0 AND 0xFFF) OR r"
definition kIOReturnInternalError :: u32 where "kIOReturnInternalError = iokit_common_err 0x2c9"
definition kIOReturnDeviceError :: u32 where "kIOReturnDeviceError = iokit_common_err 0x2e9"

definition FBAttributeBacklight :: u32 where "FBAttributeBacklight = 0x626B6C74"

text \<open>The display's parameters: each level of lookup may fail.\<close>

definition OnAppleBacklightDisplayLoad :: "u32 option option option \<Rightarrow> backlight \<Rightarrow> bool \<times> backlight" where
  "OnAppleBacklightDisplayLoad params b =
     (case params of
        None \<Rightarrow> (False, b)
      | Some linearBrightness \<Rightarrow>
          (case linearBrightness of
             None \<Rightarrow> (False, b)
           | Some mx \<Rightarrow>
               (case mx of
                  None \<Rightarrow> (False, b)
                | Some v \<Rightarrow> if v = 0 then (False, b) else (True, b\<lparr>MaxPwmBacklightLevel := v\<rparr>))))"

text \<open>The flags say whether the matching dictionary and the notification could be made.\<close>

definition RegisterDispMaxBrightnessNotif :: "bool \<Rightarrow> bool \<Rightarrow> backlight \<Rightarrow> backlight" where
  "RegisterDispMaxBrightnessNotif matching registered1 b =
     (if DisplayNotif b then b else if \<not> matching then b else b\<lparr>DisplayNotif := registered1\<rparr>)"

text \<open>The driver's functions: the attribute setter and getter, and the two ways to set the level.\<close>

record 'd panelOps =
  orgSetAttribute :: "u32 \<Rightarrow> u64 \<Rightarrow> 'd \<Rightarrow> u32 \<times> 'd"
  orgGetAttribute :: "u32 \<Rightarrow> 'd \<Rightarrow> u32 \<times> u64 \<times> 'd"
  setLevel :: "addr \<Rightarrow> u32 \<Rightarrow> u32 \<Rightarrow> 'd \<Rightarrow> bool \<times> 'd"
  setLevelNits :: "addr \<Rightarrow> bool \<Rightarrow> u32 \<Rightarrow> u32 \<Rightarrow> 'd \<Rightarrow> bool \<times> 'd"

definition percentageOf :: "backlight \<Rightarrow> u32" where
  "percentageOf b = CurrentPwmBacklightLevel b * 100 div MaxPwmBacklightLevel b"

definition wrapSetAttributeForConnection ::
  "'d panelOps \<Rightarrow> u32 \<Rightarrow> u64 \<Rightarrow> backlight \<Rightarrow> 'd \<Rightarrow> u32 \<times> backlight \<times> 'd" where
  "wrapSetAttributeForConnection ops attribute v b d =
     (let (ret, d1) = orgSetAttribute ops attribute v d
      in if attribute \<noteq> FBAttributeBacklight then (ret, b, d1)
         else
           let b1 = b\<lparr>CurrentPwmBacklightLevel := ucast v\<rparr>
           in if MaxPwmBacklightLevel b1 = 0 then (kIOReturnInternalError, b1, d1)
              else
                let percentage = percentageOf b1
                in if SupportsAUX b1 then
                     (let AuxValue = MaxOLED b1 * percentage div 100;
                          (_, d2) = setLevelNits ops (EmbeddedPanelLink b1) True AuxValue 15000 d1
                      in (kIOReturnDeviceError, b1, d2))
                   else
                     let PwmValue = percentage * 0xFFFF div 100;
                         (ok, d2) = setLevel ops (EmbeddedPanelLink b1) PwmValue 0 d1
                     in (if ok then kIOReturnSuccess else kIOReturnDeviceError, b1, d2))"

definition wrapGetAttributeForConnection ::
  "'d panelOps \<Rightarrow> u32 \<Rightarrow> backlight \<Rightarrow> 'd \<Rightarrow> u32 \<times> u64 \<times> 'd" where
  "wrapGetAttributeForConnection ops attribute b d =
     (let (ret, v, d1) = orgGetAttribute ops attribute d
      in if attribute \<noteq> FBAttributeBacklight then (ret, v, d1)
         else (kIOReturnSuccess, ucast (CurrentPwmBacklightLevel b), d1))"

definition wrapDcePanelCntlHwInit :: "(addr \<Rightarrow> 'd \<Rightarrow> u32 \<times> 'd) \<Rightarrow> addr \<Rightarrow> backlight \<Rightarrow> 'd \<Rightarrow> u32 \<times> backlight \<times> 'd" where
  "wrapDcePanelCntlHwInit org panel b d =
     (let b1 = b\<lparr>PanelControlPtr := panel\<rparr>; (r, d1) = org panel d in (r, b1, d1))"

text \<open>The case for LVDS falls through into that for eDP.\<close>

definition WrapLinkCreate ::
  "u32 \<Rightarrow> u32 \<Rightarrow> byte \<Rightarrow> mem \<Rightarrow> addr \<Rightarrow> backlight \<Rightarrow> (addr \<times> backlight) res" where
  "WrapLinkCreate SIGNAL_TYPE_LVDS SIGNAL_TYPE_EDP DC_DPCD_EXT_CAPS_OLED m link b =
     (if link = 0 then Inr (0, b)
      else
        let SignalType = load32 m (link + 0x38);
            b1 = (if SignalType = SIGNAL_TYPE_LVDS then b\<lparr>EmbeddedPanelLink := link\<rparr> else b)
        in if SignalType = SIGNAL_TYPE_LVDS \<or> SignalType = SIGNAL_TYPE_EDP then
             (let b2 = b1\<lparr>EmbeddedPanelLink := link\<rparr>
              in if DcLinkCapabillsField b2 = InvalidOffset then Inl (Panic ''ObjField'')
                 else Inr (link, b2\<lparr>SupportsAUX :=
                        (m (link + ucast (DcLinkCapabillsField b2)) AND DC_DPCD_EXT_CAPS_OLED \<noteq> 0)\<rparr>))
           else Inr (link, b1))"

section \<open>Panels\<close>

definition AppleBacklightData :: "(string \<times> byte list) list" where
  "AppleBacklightData =
    [(''F14Txxxx'', [0x00, 0x11, 0x00, 0x00, 0x00, 0x34, 0x00, 0x52, 0x00, 0x73, 0x00, 0x94, 0x00, 0xBE, 0x00, 0xFA, 0x01,
                     0x36, 0x01, 0x72, 0x01, 0xC5, 0x02, 0x2F, 0x02, 0xB9, 0x03, 0x60, 0x04, 0x1A, 0x05, 0x0A, 0x06,
                     0x0E, 0x07, 0x10]),
     (''F15Txxxx'', [0x00, 0x11, 0x00, 0x00, 0x00, 0x36, 0x00, 0x54, 0x00, 0x7D, 0x00, 0xB2, 0x00, 0xF5, 0x01, 0x49, 0x01,
                     0xB1, 0x02, 0x2B, 0x02, 0xB8, 0x03, 0x59, 0x04, 0x13, 0x04, 0xEC, 0x05, 0xF3, 0x07, 0x34, 0x08,
                     0xAF, 0x0A, 0xD9]),
     (''F16Txxxx'', [0x00, 0x11, 0x00, 0x00, 0x00, 0x18, 0x00, 0x27, 0x00, 0x3A, 0x00, 0x52, 0x00, 0x71, 0x00, 0x96, 0x00,
                     0xC4, 0x00, 0xFC, 0x01, 0x40, 0x01, 0x93, 0x01, 0xF6, 0x02, 0x6E, 0x02, 0xFE, 0x03, 0xAA, 0x04,
                     0x78, 0x05, 0x6C]),
     (''F17Txxxx'', [0x00, 0x11, 0x00, 0x00, 0x00, 0x1F, 0x00, 0x34, 0x00, 0x4F, 0x00, 0x71, 0x00, 0x9B, 0x00, 0xCF, 0x01,
                     0x0E, 0x01, 0x5D, 0x01, 0xBB, 0x02, 0x2F, 0x02, 0xB9, 0x03, 0x60, 0x04, 0x29, 0x05, 0x1E, 0x06,
                     0x44, 0x07, 0xA1]),
     (''F18Txxxx'', [0x00, 0x11, 0x00, 0x00, 0x00, 0x53, 0x00, 0x8C, 0x00, 0xD5, 0x01, 0x31, 0x01, 0xA2, 0x02, 0x2E, 0x02,
                     0xD8, 0x03, 0xAE, 0x04, 0xAC, 0x05, 0xE5, 0x07, 0x59, 0x09, 0x1C, 0x0B, 0x3B, 0x0D, 0xD0, 0x10,
                     0xEA, 0x14, 0x99]),
     (''F19Txxxx'', [0x00, 0x11, 0x00, 0x00, 0x02, 0x8F, 0x03, 0x53, 0x04, 0x5A, 0x05, 0xA1, 0x07, 0xAE, 0x0A, 0x3D, 0x0E,
                     0x14, 0x13, 0x74, 0x1A, 0x5E, 0x24, 0x18, 0x31, 0xA9, 0x44, 0x59, 0x5E, 0x76, 0x83, 0x11, 0xB6,
                     0xC7, 0xFF, 0x7B]),
     (''F24Txxxx'', [0x00, 0x11, 0x00, 0x01, 0x00, 0x34, 0x00, 0x52, 0x00, 0x73, 0x00, 0x94, 0x00, 0xBE, 0x00, 0xFA, 0x01,
                     0x36, 0x01, 0x72, 0x01, 0xC5, 0x02, 0x2F, 0x02, 0xB9, 0x03, 0x60, 0x04, 0x1A, 0x05, 0x0A, 0x06,
                     0x0E, 0x07, 0x10])]"

fun addPanels :: "(string \<times> byte list) list \<Rightarrow> bool list \<Rightarrow> (string \<rightharpoonup> byte list) \<Rightarrow> (string \<rightharpoonup> byte list)" where
  "addPanels [] allocated panels = panels"
| "addPanels ((n, d) # es) allocated panels =
     (case next_alloc allocated of
        (True, allocated') \<Rightarrow> addPanels es allocated' (panels(n \<mapsto> d))
      | (False, allocated') \<Rightarrow> addPanels es allocated' panels)"

text \<open>The panel's property, copied, extended and put back; \<open>copied\<close> says whether the copy succeeds.\<close>

definition WrapApplePanelSetDisplay ::
  "(('p \<Rightarrow> bool \<times> 'p)) \<Rightarrow> bool \<Rightarrow> bool list \<Rightarrow> (string \<rightharpoonup> byte list) option \<Rightarrow> backlight \<Rightarrow> 'p
    \<Rightarrow> bool \<times> (string \<rightharpoonup> byte list) option \<times> backlight \<times> 'p" where
  "WrapApplePanelSetDisplay org copied allocated panels b p =
     (let (panels1, b1) =
            (if panelsOnce b then (panels, b)
             else (case panels of
                     None \<Rightarrow> None
                   | Some m \<Rightarrow> if copied then Some (addPanels AppleBacklightData allocated m) else Some m,
                   b\<lparr>panelsOnce := True\<rparr>));
          (r, p1) = org p
      in (r, panels1, b1, p1))"

section \<open>Properties\<close>

lemma pwm_arith:
  fixes level mx :: u32
  assumes "mx \<noteq> 0" and "unat level \<le> unat mx" and "unat level * 100 < 2 ^ 32"
  shows "unat ((level * 100 div mx) * 0xFFFF div 100) = (unat level * 100 div unat mx) * 65535 div 100"
    and "unat ((level * 100 div mx) * 0xFFFF div 100) \<le> 0xFFFF"
proof -
  let ?p = "unat level * 100 div unat mx"
  have m: "0 < unat mx" using assms(1) by (simp add: unat_gt_0)
  have p: "unat (level * 100 div mx) = ?p" using assms(3) by (simp add: unat_div unat_word_ariths)
  have p100: "?p \<le> 100"
    using div_le_mono [of "unat level * 100" "unat mx * 100" "unat mx"] assms(2) m by simp
  have q: "unat ((level * 100 div mx) * 0xFFFF) = ?p * 65535"
    using p p100 by (simp add: unat_word_ariths)
  then show 1: "unat ((level * 100 div mx) * 0xFFFF div 100) = ?p * 65535 div 100" by (simp add: unat_div)
  have "?p * 65535 \<le> 100 * 65535" using p100 by simp
  then have "?p * 65535 div 100 \<le> 100 * 65535 div 100" by (rule div_le_mono)
  with 1 show "unat ((level * 100 div mx) * 0xFFFF div 100) \<le> 0xFFFF" by simp
qed

text \<open>Setting the brightness on a panel without AUX control asks the driver for a level between 0 and
  \<open>0xFFFF\<close>, namely the whole per cent of the maximum, as long as the level does not exceed the maximum and
  its hundredfold fits 32 bits; the call succeeds exactly if the driver does, and reading the brightness
  back gives the level that was set.\<close>

theorem brightness_set:
  assumes "\<not> SupportsAUX b" and "MaxPwmBacklightLevel b \<noteq> 0" and "unat v \<le> unat (MaxPwmBacklightLevel b)" and "unat v * 100 < 2 ^ 32"
    and "wrapSetAttributeForConnection ops FBAttributeBacklight v b d = (ret, b', d')"
  shows "\<exists>pwm ok. setLevel ops (EmbeddedPanelLink b) pwm 0 (snd (orgSetAttribute ops FBAttributeBacklight v d)) = (ok, d')
    \<and> unat pwm = (unat v * 100 div unat (MaxPwmBacklightLevel b)) * 65535 div 100 \<and> unat pwm \<le> 0xFFFF
    \<and> ret = (if ok then kIOReturnSuccess else kIOReturnDeviceError)
    \<and> (\<exists>d''. wrapGetAttributeForConnection ops FBAttributeBacklight b' d' = (kIOReturnSuccess, v, d''))"
proof -
  let ?l = "ucast v :: u32" and ?m = "MaxPwmBacklightLevel b"
  let ?pwm = "(?l * 100 div ?m) * 0xFFFF div 100"
  have "unat v < 2 ^ 32" using assms(4) by linarith
  then have v: "take_bit 32 (unat v) = unat v" by (simp add: take_bit_nat_eq_self)
  then have u: "unat ?l = unat v" by (simp add: unsigned_ucast_eq take_bit_nat_eq_self)
  have "unat (ucast ?l :: u64) = unat v" using v by (simp add: unsigned_ucast_eq unsigned_take_bit_eq)
  then have l: "unat ?l = unat v" "ucast ?l = v" using u by (simp_all only: word_unat_eq_iff)
  have a: "unat ?l \<le> unat ?m" "unat ?l * 100 < 2 ^ 32" using assms(3,4) l(1) by simp_all
  note pwm = pwm_arith [OF assms(2) a]
  obtain r1 d1 where o: "orgSetAttribute ops FBAttributeBacklight v d = (r1, d1)"
    by (cases "orgSetAttribute ops FBAttributeBacklight v d")
  obtain ok d2 where s: "setLevel ops (EmbeddedPanelLink b) ?pwm 0 d1 = (ok, d2)"
    by (cases "setLevel ops (EmbeddedPanelLink b) ?pwm 0 d1")
  have e: "ret = (if ok then kIOReturnSuccess else kIOReturnDeviceError)" "d' = d2" "b' = b\<lparr>CurrentPwmBacklightLevel := ?l\<rparr>"
    using assms(1,2,5) o s by (auto simp: wrapSetAttributeForConnection_def percentageOf_def Let_def)
  have "\<exists>d''. wrapGetAttributeForConnection ops FBAttributeBacklight b' d' = (kIOReturnSuccess, v, d'')"
    unfolding e(3) using l(2) by (auto simp: wrapGetAttributeForConnection_def split: prod.split)
  with e o s pwm l(1) show ?thesis by (intro exI [of _ ?pwm] exI [of _ ok]) auto
qed

text \<open>On a panel with AUX control every attempt to set the brightness returns a device error, also when
  the driver has set it.\<close>

theorem brightness_aux_fails:
  assumes "SupportsAUX b" and "MaxPwmBacklightLevel b \<noteq> 0"
  shows "\<exists>nits. wrapSetAttributeForConnection ops FBAttributeBacklight v b d
    = (kIOReturnDeviceError, b\<lparr>CurrentPwmBacklightLevel := ucast v\<rparr>,
       snd (setLevelNits ops (EmbeddedPanelLink b) True nits 15000 (snd (orgSetAttribute ops FBAttributeBacklight v d))))"
  using assms
  by (intro exI [of _ "MaxOLED b * percentageOf (b\<lparr>CurrentPwmBacklightLevel := ucast v\<rparr>) div 100"])
     (auto simp: wrapSetAttributeForConnection_def Let_def split: prod.split)

text \<open>A panel that keeps the last level it was asked for.\<close>

definition demo_panel :: "u32 panelOps" where
  "demo_panel = \<lparr>orgSetAttribute = (\<lambda>_ _ d. (0, d)), orgGetAttribute = (\<lambda>_ d. (0, 0, d)),
     setLevel = (\<lambda>_ pwm _ _. (True, pwm)), setLevelNits = (\<lambda>_ _ n _ _. (True, n))\<rparr>"

theorem brightness_set_witness:
  "\<exists>b'. wrapSetAttributeForConnection demo_panel FBAttributeBacklight 0x7FFF backlight_instance 0
     = (kIOReturnSuccess, b', 0x7D70)"
proof -
  obtain ret b' d' where w: "wrapSetAttributeForConnection demo_panel FBAttributeBacklight 0x7FFF backlight_instance 0
      = (ret, b', d')" by (metis prod_cases3)
  have h: "\<not> SupportsAUX backlight_instance" "MaxPwmBacklightLevel backlight_instance \<noteq> 0"
    "unat (0x7FFF :: u64) \<le> unat (MaxPwmBacklightLevel backlight_instance)" "unat (0x7FFF :: u64) * 100 < 2 ^ 32"
    by (simp_all add: backlight_instance_def)
  from brightness_set [OF h w] obtain pwm ok where
    p: "setLevel demo_panel (EmbeddedPanelLink backlight_instance) pwm 0 (snd (orgSetAttribute demo_panel FBAttributeBacklight 0x7FFF 0)) = (ok, d')"
    "unat pwm = (unat (0x7FFF :: u64) * 100 div unat (MaxPwmBacklightLevel backlight_instance)) * 65535 div 100"
    "ret = (if ok then kIOReturnSuccess else kIOReturnDeviceError)" by blast
  have "unat pwm = unat (0x7D70 :: u32)" using p(2) by (simp add: backlight_instance_def)
  then have "pwm = 0x7D70" by (simp only: word_unat_eq_iff)
  with p(1,3) w show ?thesis by (simp add: demo_panel_def)
qed

theorem brightness_aux_fails_witness:
  "fst (wrapSetAttributeForConnection demo_panel FBAttributeBacklight 0x7FFF (backlight_instance\<lparr>SupportsAUX := True\<rparr>) 0)
    = kIOReturnDeviceError"
proof -
  have h: "SupportsAUX (backlight_instance\<lparr>SupportsAUX := True\<rparr>)"
    "MaxPwmBacklightLevel (backlight_instance\<lparr>SupportsAUX := True\<rparr>) \<noteq> 0" by (simp_all add: backlight_instance_def)
  from brightness_aux_fails [OF h, of demo_panel "0x7FFF" 0] show ?thesis by auto
qed

end
