(* ===== verification/NDeck_Actions.thy ===== *)
theory NDeck_Actions
  imports NDeck_Backlight
begin

text \<open>
  The steps of which the modules' \<open>ProcessKext\<close> functions are made, and the contract they keep with the
  kernel: a kext that is not theirs is left alone, and a call that returns gives back the processor as it
  was.  A step returns \<open>None\<close> when a loop in it does not end and a panic when the source panics
  (\<open>PANIC_COND\<close>, \<open>SYSLOG_COND\<close> of \<^verbatim>\<open>Lilu/Lilu/Headers/kern_util.hpp\<close>).
\<close>

section \<open>Steps\<close>

type_synonym 's action = "'s \<Rightarrow> 's res option"

definition act_then :: "'s action \<Rightarrow> 's action \<Rightarrow> 's action" where
  "act_then f g s = (case f s of None \<Rightarrow> None | Some (Inl e) \<Rightarrow> Some (Inl e) | Some (Inr t) \<Rightarrow> g t)"

definition act_seq :: "'s action list \<Rightarrow> 's action" where
  "act_seq fs = foldr act_then fs (\<lambda>s. Some (Inr s))"

definition act_when :: "bool \<Rightarrow> 's action \<Rightarrow> 's action" where
  "act_when b f s = (if b then f s else Some (Inr s))"

definition required :: "string \<Rightarrow> ('s \<Rightarrow> (bool \<times> 's) res option) \<Rightarrow> 's action" where
  "required who f s = (case f s of None \<Rightarrow> None | Some r \<Rightarrow> Some (orPanic who r))"

definition logged :: "('s \<Rightarrow> (bool \<times> 's) res option) \<Rightarrow> 's action" where
  "logged f s = (case f s of None \<Rightarrow> None | Some r \<Rightarrow> Some (res_bind r (\<lambda>(ok, t). Inr t)))"

text \<open>The requests as steps that report success.\<close>

definition try_Solve where "try_Solve ident slide sz r s = Some (Solve ident slide sz r s)"
definition try_SolveMultiple where
  "try_SolveMultiple ident rs slide sz s = Some (solveMultiple ident rs slide sz False False s)"
definition try_Route where
  "try_Route ident slide sz r s = Some (res_bind (Route ident slide sz r s) (\<lambda>(ok, r', t). Inr (ok, t)))"
definition try_RouteAll where
  "try_RouteAll ident rs slide sz s =
     (case RouteAll ident rs slide sz s of None \<Rightarrow> None | Some r \<Rightarrow> Some (res_bind r (\<lambda>(ok, rs', t). Inr (ok, t))))"
definition try_RouteMultiple where
  "try_RouteMultiple ident rs slide sz s =
     Some (res_bind (routeMultiple ident rs slide sz True False s) (\<lambda>(ok, rs', t). Inr (ok, t)))"
definition try_ApplyAll where
  "try_ApplyAll ps slide sz s =
     (case ApplyAll ps slide sz False s of None \<Rightarrow> None | Some r \<Rightarrow> Some (res_bind r (\<lambda>(ok, ps', t). Inr (ok, t))))"

text \<open>An edit of kernel memory inside the write window, which panics if the window does not open.\<close>

definition in_window :: "string \<Rightarrow> (mem \<Rightarrow> mem) \<Rightarrow> 'a kpatcher_scheme action" where
  "in_window who edit s =
     (case setKernelWriting True (kernelWriteLock s) s of
        (ok, t) \<Rightarrow>
          if \<not> ok then Some (Inl (Panic who))
          else Some (Inr (snd (setKernelWriting False (kernelWriteLock t) (t\<lparr>kmem := edit (kmem t)\<rparr>)))))"

section \<open>The contract\<close>

named_theorems keeps_rules

definition keeps :: "('s \<Rightarrow> bool) \<Rightarrow> ('s \<Rightarrow> 'v) \<Rightarrow> 's action \<Rightarrow> bool" where
  "keeps usable view f \<longleftrightarrow> (\<forall>s t. usable s \<longrightarrow> f s = Some (Inr t) \<longrightarrow> view t = view s)"

definition keeps_try :: "('s \<Rightarrow> bool) \<Rightarrow> ('s \<Rightarrow> 'v) \<Rightarrow> ('s \<Rightarrow> (bool \<times> 's) res option) \<Rightarrow> bool" where
  "keeps_try usable view f \<longleftrightarrow> (\<forall>s b t. usable s \<longrightarrow> f s = Some (Inr (b, t)) \<longrightarrow> view t = view s)"

lemma keepsD: "keeps u v f \<Longrightarrow> u s \<Longrightarrow> f s = Some (Inr t) \<Longrightarrow> v t = v s"
  unfolding keeps_def by blast

lemma keeps_when [keeps_rules]: "(b \<Longrightarrow> keeps u v f) \<Longrightarrow> keeps u v (act_when b f)"
  by (auto simp: keeps_def act_when_def)

lemma required_eq: "required who f s = Some (Inr t) \<longleftrightarrow> f s = Some (Inr (True, t))"
  by (auto simp: required_def orPanic_def res_bind_eq_Inr split: option.splits if_split_asm)

lemma logged_eq: "logged f s = Some (Inr t) \<longleftrightarrow> (\<exists>b. f s = Some (Inr (b, t)))"
  by (auto simp: logged_def res_bind_eq_Inr split: option.splits)

lemma keeps_required [keeps_rules]: "keeps_try u v f \<Longrightarrow> keeps u v (required who f)"
  unfolding keeps_def keeps_try_def required_eq by blast

lemma keeps_logged [keeps_rules]: "keeps_try u v f \<Longrightarrow> keeps u v (logged f)"
  unfolding keeps_def keeps_try_def logged_eq by blast

lemma keeps_if [keeps_rules]: "keeps u v f \<Longrightarrow> keeps u v g \<Longrightarrow> keeps u v (if b then f else g)"
  by simp

locale view_contract =
  fixes usable :: "'s \<Rightarrow> bool" and view :: "'s \<Rightarrow> 'v"
  assumes view_usable: "view t = view s \<Longrightarrow> usable s \<Longrightarrow> usable t"
begin

lemma keeps_then: "keeps usable view f \<Longrightarrow> keeps usable view g \<Longrightarrow> keeps usable view (act_then f g)"
  unfolding keeps_def act_then_def
proof (intro allI impI)
  fix s t
  assume f: "\<forall>s t. usable s \<longrightarrow> f s = Some (Inr t) \<longrightarrow> view t = view s"
    and g: "\<forall>s t. usable s \<longrightarrow> g s = Some (Inr t) \<longrightarrow> view t = view s"
    and s: "usable s" and r: "(case f s of None \<Rightarrow> None | Some (Inl e) \<Rightarrow> Some (Inl e) | Some (Inr t) \<Rightarrow> g t) = Some (Inr t)"
  from r obtain u where u: "f s = Some (Inr u)" "g u = Some (Inr t)" by (auto split: option.split_asm sum.split_asm)
  have "view u = view s" using f s u(1) by blast
  with g u(2) view_usable [OF this s] show "view t = view s" by metis
qed

lemma keeps_seq: "list_all (keeps usable view) fs \<Longrightarrow> keeps usable view (act_seq fs)"
proof (induction fs)
  case (Cons f fs)
  have "keeps usable view (act_then f (act_seq fs))"
    by (rule keeps_then) (use Cons in simp_all)
  then show ?case by (simp only: act_seq_def foldr.simps comp_apply)
qed (simp add: act_seq_def keeps_def)

end

text \<open>The kexts a module processes, one after the other.\<close>

fun processAll :: "(nat \<Rightarrow> addr \<Rightarrow> u64 \<Rightarrow> 's action) \<Rightarrow> (nat \<times> addr \<times> u64) list \<Rightarrow> 's action" where
  "processAll process [] s = Some (Inr s)"
| "processAll process ((ident, slide, sz) # ks) s = act_then (process ident slide sz) (processAll process ks) s"

locale kext_module = view_contract +
  fixes process :: "nat \<Rightarrow> addr \<Rightarrow> u64 \<Rightarrow> 'a action" and indices :: "nat list"
  assumes ignores: "ident \<notin> set indices \<Longrightarrow> process ident slide sz s = Some (Inr s)"
    and balanced: "keeps usable view (process ident slide sz)"
begin

lemma processAll_balanced: "keeps usable view (processAll process ks)"
proof (induction ks)
  case (Cons k ks)
  obtain i sl n where k: "k = (i, sl, n)" by (cases k)
  from keeps_then [OF balanced Cons, of i sl n] show ?case by (simp add: k keeps_def)
qed (simp add: keeps_def)

text \<open>Only the module's own kexts count.\<close>

lemma processAll_own:
  "processAll process ks s = processAll process (filter (\<lambda>(ident, _). ident \<in> set indices) ks) s"
proof (induction ks arbitrary: s)
  case (Cons k ks)
  obtain i sl n where k: "k = (i, sl, n)" by (cases k)
  show ?case
  proof (cases "i \<in> set indices")
    case True
    have "processAll process ks = processAll process (filter (\<lambda>(ident, _). ident \<in> set indices) ks)" by (rule ext) (rule Cons)
    with True k show ?thesis by simp
  next
    case False
    with k Cons [of s] ignores [OF False] show ?thesis by (simp add: act_then_def)
  qed
qed simp

end

section \<open>The steps keep it\<close>

interpretation kv: view_contract bare_metal cpu_view
  by unfold_locales (rule view_bare)

interpretation kv2: view_contract "\<lambda>p :: 'b \<times> 'a kpatcher_scheme. bare_metal (snd p)" "\<lambda>p. cpu_view (snd p)"
  by unfold_locales (rule view_bare)

lemma keeps_Solve [keeps_rules]: "keeps_try bare_metal cpu_view (try_Solve ident slide sz r)"
  by (auto simp: keeps_try_def try_Solve_def dest: view_Solve)

lemma view_solveMultiple: "solveMultiple ident rs start sz crash force s = Inr (ok, t) \<Longrightarrow> cpu_view t = cpu_view s"
proof (induction rs arbitrary: s)
  case (Cons r rs)
  from Cons.prems obtain a s1 where 1: "solveSymbolRange ident (sr_symbol r) start sz crash s = Inr (a, s1)"
    by (auto simp: res_bind_eq_Inr)
  from Cons.prems 1 Cons.IH [of "s1\<lparr>kmem := store64 (kmem s1) (sr_address r) a\<rparr>"] Cons.IH [of "clearError s1"]
    view_solveSymbolRange [OF 1] show ?case by (auto split: if_split_asm)
qed simp

lemma keeps_SolveMultiple [keeps_rules]: "keeps_try bare_metal cpu_view (try_SolveMultiple ident rs slide sz)"
  by (auto simp: keeps_try_def try_SolveMultiple_def dest: view_solveMultiple)

lemma keeps_Route [keeps_rules]: "keeps_try bare_metal cpu_view (try_Route ident slide sz r)"
  by (auto simp: keeps_try_def try_Route_def res_bind_eq_Inr dest: view_Route)

lemma keeps_RouteAll [keeps_rules]: "keeps_try bare_metal cpu_view (try_RouteAll ident rs slide sz)"
  by (auto simp: keeps_try_def try_RouteAll_def RouteAll_def res_bind_eq_Inr dest: route_batch.batch_view split: option.split_asm)

lemma keeps_RouteMultiple [keeps_rules]: "keeps_try bare_metal cpu_view (try_RouteMultiple ident rs slide sz)"
  by (auto simp: keeps_try_def try_RouteMultiple_def routeMultiple_def res_bind_eq_Inr dest: view_routeMultiple)

lemma keeps_Apply [keeps_rules]: "keeps_try bare_metal cpu_view (Apply slide sz p)"
  by (auto simp: keeps_try_def dest: view_Apply)

lemma keeps_ApplyAll [keeps_rules]: "keeps_try bare_metal cpu_view (try_ApplyAll ps slide sz)"
  by (auto simp: keeps_try_def try_ApplyAll_def ApplyAll_def res_bind_eq_Inr dest: apply_batch.batch_view split: option.split_asm)

lemma in_window_eq:
  assumes "bare_metal s"
  shows "\<exists>t. in_window who edit s = Some (Inr t) \<and> kmem t = edit (kmem s) \<and> cpu_view t = cpu_view s"
proof -
  obtain w t where t: "setKernelWriting True (kernelWriteLock s) s = (w, t)" by (cases "setKernelWriting True (kernelWriteLock s) s")
  have l: "kernelWriteLock t = kernelWriteLock s" using skw_kpatcher(1) [of True "kernelWriteLock s" s] t by simp
  have m: "kmem t = kmem s" using t kw.enter_memory [of "kernelWriteLock s" s] by simp
  have "kmem (snd (setKernelWriting False (kernelWriteLock s) (t\<lparr>kmem := edit (kmem s)\<rparr>))) = edit (kmem s)"
    by (rule kw.leave_memory)
  with view_window [OF assms t] t l m show ?thesis by (auto simp: in_window_def)
qed

lemma keeps_in_window [keeps_rules]: "keeps bare_metal cpu_view (in_window who edit)"
  unfolding keeps_def using in_window_eq [where who = who and edit = edit] by fastforce

section \<open>The backlight module\<close>

lemma processFramebuffer_steps:
  "processFramebuffer attrs hk ident slide sz =
     act_seq [required ''Backlight'' (try_Solve ident slide sz (setLevelRequest (flagSet IsSonoma1404Plus attrs) hk)),
              required ''Backlight'' (try_Solve ident slide sz (setLevelNitsRequest hk)),
              required ''Backlight'' (try_RouteAll ident (framebufferRoutes hk) slide sz)]"
  by (rule ext)
     (auto simp: processFramebuffer_def act_seq_def act_then_def required_def try_Solve_def try_RouteAll_def orPanic_def res_bind_def
       split: option.splits sum.splits)

lemma keeps_framebuffer: "keeps bare_metal cpu_view (processFramebuffer attrs hk ident slide sz)"
  unfolding processFramebuffer_steps
  by (rule kv.keeps_seq) (simp add: keeps_rules)

lemma keeps_Backlight: "keeps bare_metal cpu_view (Backlight_ProcessKext attrs hk ident slide sz)"
  unfolding keeps_def
proof (intro allI impI)
  fix s t :: "'a kpatcher_scheme"
  assume b: "bare_metal s" and r: "Backlight_ProcessKext attrs hk ident slide sz s = Some (Inr t)"
  note route = view_routeMultiple [OF b]
  consider (fb) "fbIndex hk = ident" | (panel) "fbIndex hk \<noteq> ident" "backlightIndex hk = ident"
    | (mccs) "fbIndex hk \<noteq> ident" "backlightIndex hk \<noteq> ident" by blast
  then show "cpu_view t = cpu_view s"
  proof cases
    case fb
    with r keepsD [OF keeps_framebuffer b] show ?thesis by (simp add: Backlight_ProcessKext_def)
  next
    case panel
    from r obtain ok rs s1 where 1: "routeMultiple ident
        [\<lparr>rq_symbol = Some ''__ZN15AppleIntelPanel10setDisplayEP9IODisplay'', rq_from = 0, rq_to = wrapSetDisplay hk,
          rq_org = Some (at_SetDisplay hk)\<rparr>] slide sz True False s = Inr (ok, rs, s1)"
      and 2: "if ok then (case Apply slide sz (panelPatch hk) s1 of None \<Rightarrow> None | Some (Inl e) \<Rightarrow> Some (Inl e)
                | Some (Inr (applied, s2)) \<Rightarrow> Some (Inr (clearError s2))) = Some (Inr t)
              else t = clearError s1"
      using panel by (auto simp: Backlight_ProcessKext_def split: sum.split_asm if_split_asm)
    have v: "cpu_view s1 = cpu_view s" using 1 route by (auto simp: routeMultiple_def)
    show ?thesis
      using 2 v view_Apply [OF view_bare [OF v b]] by (auto split: if_split_asm option.split_asm sum.split_asm)
  next
    case mccs
    with r route show ?thesis by (auto simp: Backlight_ProcessKext_def routeMultiple_def res_bind_eq_Inr split: if_split_asm)
  qed
qed

interpretation bl_module: kext_module bare_metal cpu_view "Backlight_ProcessKext attrs hk"
    "[fbIndex hk, backlightIndex hk, mccsIndex hk]"
  by unfold_locales (auto simp: Backlight_ProcessKext_def keeps_Backlight)

end
