(* ===== verification/NDeck_Display.thy ===== *)
theory NDeck_Display
  imports NDeck_Actions
begin

text \<open>
  The Van Gogh module for the frame buffer kext (\<^verbatim>\<open>NootedDeck/VanGogh/X6000FB.cpp\<close>) and the one for the HDMI
  audio kext (\<^verbatim>\<open>NootedDeck/VanGogh/AppleGFXHDA.cpp\<close>): what they patch, and the functions they put in the place
  of the driver's.  The layouts of the video BIOS tables and of the driver's objects that are declared
  outside the repository, and the driver's own functions, are parameters.  The members that the source
  spells with another case than their declaration are read as the declared ones.
\<close>

section \<open>Patterns of the frame buffer kext\<close>

unbundle bit_operations_syntax

definition KCailAsicCapsTablePattern :: "byte list" where
  "KCailAsicCapsTablePattern = [0x6E, 0x00, 0x00, 0x00, 0x98, 0x67, 0x00, 0x00, 0x00, 0x00, 0x00,
    0x00, 0x01, 0x00, 0x00, 0x00, 0xFF, 0xFF, 0xFF, 0xFF, 0x00, 0x00, 0x00, 0x00]"
definition KPopulateVramInfoPattern :: "byte list" where
  "KPopulateVramInfoPattern = [0x55, 0x48, 0x89, 0xE5, 0x41, 0x57, 0x41, 0x56, 0x53, 0x48, 0x81, 0xEC,
    0x08, 0x01, 0x00, 0x00, 0x40, 0x89, 0xF0, 0x40, 0x89, 0xF0, 0x4C, 0x8D, 0xBD, 0xE0, 0xFE, 0xFF, 0xFF]"
definition KPopulateVramInfoPatternMask :: "byte list" where
  "KPopulateVramInfoPatternMask = [0xFF, 0xFF, 0xFF, 0xFF, 0xFF, 0xFF, 0xFF, 0xFF, 0xFF, 0xFF, 0xFF,
    0xFF, 0xFF, 0xFF, 0xFF, 0xFF, 0xF0, 0xFF, 0xF0, 0xF0, 0xFF, 0xF0, 0xFF, 0xFF, 0xFF, 0xFF, 0xFF, 0xFF, 0xFF]"
definition KGetNumberOfConnectorsPattern :: "byte list" where
  "KGetNumberOfConnectorsPattern = [0x55, 0x48, 0x89, 0xE5, 0x40, 0x8B, 0x40, 0x28, 0x00, 0x00, 0x00,
    0x00, 0x00, 0x85, 0x00, 0x74, 0x00]"
definition KGetNumberOfConnectorsPatternMask :: "byte list" where
  "KGetNumberOfConnectorsPatternMask = [0xFF, 0xFF, 0xFF, 0xFF, 0xF0, 0xFF, 0xF0, 0xFF, 0x00, 0x00,
    0x00, 0x00, 0x00, 0xFF, 0x00, 0xFF, 0x00]"
definition KPopulateDeviceInfoOriginal :: "byte list" where
  "KPopulateDeviceInfoOriginal = [0xBE, 0x31, 0x0D, 0x00, 0x00, 0xFF, 0x90, 0x40, 0x01, 0x00, 0x00,
    0xC7, 0x43, 0x00, 0x8F, 0x00, 0x00, 0x00]"
definition KPopulateDeviceInfoMask :: "byte list" where
  "KPopulateDeviceInfoMask = [0xFF, 0xFF, 0xFF, 0xFF, 0xFF, 0xFF, 0xFF, 0xFF, 0xFF, 0xFF, 0xFF, 0xFF,
    0xFF, 0x00, 0xFF, 0xFF, 0xFF, 0xFF]"
definition KPopulateDeviceInfoPatched :: "byte list" where
  "KPopulateDeviceInfoPatched = [0xBE, 0x2F, 0x0D, 0x00, 0x00, 0xFF, 0x90, 0x40, 0x01, 0x00, 0x00, 0xC7,
    0x43, 0x00, 0x8E, 0x00, 0x00, 0x00]"
definition KGetFirmwareInfoNullCheckOriginal :: "byte list" where
  "KGetFirmwareInfoNullCheckOriginal = [0x48, 0x83, 0xBB, 0x00, 0x00, 0x00, 0x00, 0x00, 0x0F, 0x84,
    0x00, 0x00, 0x00, 0x00, 0x49, 0x89]"
definition KGetFirmwareInfoNullCheckOriginalMask :: "byte list" where
  "KGetFirmwareInfoNullCheckOriginalMask = [0xFF, 0xFF, 0xFF, 0x00, 0xFF, 0xFF, 0xFF, 0xFF, 0xFF,
    0xFF, 0x00, 0x00, 0x00, 0x00, 0xFF, 0xFF]"
definition KGetFirmwareInfoNullCheckPatched :: "byte list" where
  "KGetFirmwareInfoNullCheckPatched = [0x00, 0x00, 0x00, 0x00, 0x00, 0x00, 0x00, 0x00, 0x66, 0x90,
    0x66, 0x90, 0x66, 0x90, 0x00, 0x00]"
definition KGetFirmwareInfoNullCheckPatchedMask :: "byte list" where
  "KGetFirmwareInfoNullCheckPatchedMask = [0x00, 0x00, 0x00, 0x00, 0x00, 0x00, 0x00, 0x00, 0xFF, 0xFF,
    0xFF, 0xFF, 0xFF, 0xFF, 0x00, 0x00]"
definition KGetFirmwareInfoNullCheckOriginal1404 :: "byte list" where
  "KGetFirmwareInfoNullCheckOriginal1404 = [0x49, 0x83, 0xBC, 0x24, 0x90, 0x00, 0x00, 0x00, 0x00,
    0x0F, 0x84, 0x00, 0x00, 0x00, 0x00, 0x49, 0x89]"
definition KGetFirmwareInfoNullCheckOriginalMask1404 :: "byte list" where
  "KGetFirmwareInfoNullCheckOriginalMask1404 = [0xFF, 0xFF, 0xFF, 0xFF, 0xFF, 0xFF, 0xFF, 0xFF, 0xFF,
    0xFF, 0xFF, 0x00, 0x00, 0x00, 0x00, 0xFF, 0xFF]"
definition KGetFirmwareInfoNullCheckPatched1404 :: "byte list" where
  "KGetFirmwareInfoNullCheckPatched1404 = [0x00, 0x00, 0x00, 0x00, 0x00, 0x00, 0x00, 0x00, 0x00, 0x66,
    0x90, 0x66, 0x90, 0x66, 0x90, 0x00, 0x00]"
definition KGetFirmwareInfoNullCheckPatchedMask1404 :: "byte list" where
  "KGetFirmwareInfoNullCheckPatchedMask1404 = [0x00, 0x00, 0x00, 0x00, 0x00, 0x00, 0x00, 0x00, 0x00,
    0xFF, 0xFF, 0xFF, 0xFF, 0xFF, 0xFF, 0x00, 0x00]"
definition KGetVendorInfoOriginal :: "byte list" where
  "KGetVendorInfoOriginal = [0x48, 0x00, 0x02, 0x10, 0x00, 0x00, 0x02]"
definition KGetVendorInfoMask :: "byte list" where
  "KGetVendorInfoMask = [0xFF, 0x00, 0xFF, 0xFF, 0xFF, 0xFF, 0xFF]"
definition KGetVendorInfoPatched :: "byte list" where
  "KGetVendorInfoPatched = [0x00, 0x00, 0x00, 0x00, 0x00, 0x00, 0x01]"
definition KGetVendorInfoPatchedMask :: "byte list" where
  "KGetVendorInfoPatchedMask = [0x00, 0x00, 0x00, 0x00, 0x00, 0x00, 0xFF]"
definition KGetVendorInfoOriginal1404 :: "byte list" where
  "KGetVendorInfoOriginal1404 = [0xC7, 0x00, 0x24, 0x02, 0x10, 0x00, 0x00, 0xC7, 0x00, 0x28, 0x02,
    0x00, 0x00, 0x00]"
definition KGetVendorInfoMask1404 :: "byte list" where
  "KGetVendorInfoMask1404 = [0xFF, 0x00, 0xFF, 0xFF, 0xFF, 0xFF, 0xFF, 0xFF, 0x00, 0xFF, 0xFF, 0xFF,
    0xFF, 0xFF]"
definition KGetVendorInfoPatched1404 :: "byte list" where
  "KGetVendorInfoPatched1404 = [0x00, 0x00, 0x00, 0x00, 0x00, 0x00, 0x00, 0x00, 0x00, 0x00, 0x01,
    0x00, 0x00, 0x00]"
definition KGetVendorInfoPatchedMask1404 :: "byte list" where
  "KGetVendorInfoPatchedMask1404 = [0x00, 0x00, 0x00, 0x00, 0x00, 0x00, 0x00, 0x00, 0x00, 0x00, 0xFF,
    0x00, 0x00, 0x00]"

section \<open>Starting and processing\<close>

text \<open>What the modules that wait for one kext have in common: they start once, and register the kext with
  the callback.\<close>

definition startOnce :: "string \<Rightarrow> kextinfo \<Rightarrow> stored_callback \<Rightarrow> bool \<Rightarrow> liluapi \<Rightarrow> (bool \<times> liluapi) res" where
  "startOnce who kext process loaded a =
     (if loaded then Inl (Panic who)
      else res_bind (onKextLoadForce (Some [kext]) (Some process) a) (\<lambda>a1. Inr (True, a1)))"

definition FB_StartModule :: "stored_callback \<Rightarrow> bool \<Rightarrow> liluapi \<Rightarrow> (bool \<times> liluapi) res" where
  "FB_StartModule process loaded a = startOnce ''X6000FB'' RadeonX6000FramebufferKext process loaded a"

text \<open>The addresses of the hooks, of the places of the originals and of the local variable for the table
  of capabilities.\<close>

record fbHooks =
  fb_index :: nat
  at_OrgAsicCapsTable :: addr
  to_PopulateVramInfo :: addr
  to_getEnumeratedRevision :: addr
  to_WrapGetNumberOfConnectors :: addr
  at_orgGetNumberOfConnectors :: addr
  to_WrapCreateRegisterAccess :: addr
  at_orgCreateRegisterAccess :: addr

definition capsRequest :: "fbHooks \<Rightarrow> patternSolveRequest" where
  "capsRequest hk =
     \<lparr>ps_symbol = Some ''__ZL20CAIL_ASIC_CAPS_TABLE'', ps_address = at_OrgAsicCapsTable hk,
      ps_pattern = Some KCailAsicCapsTablePattern, ps_mask = None, ps_patternSize = length KCailAsicCapsTablePattern\<rparr>"

definition fbRequests :: "fbHooks \<Rightarrow> patternRouteRequest list" where
  "fbRequests hk =
     [\<lparr>rq_symbol = Some ''__ZNK15AmdAtomVramInfo16populateVramInfoER16AtomFirmwareInfo'', rq_from = 0,
       rq_to = to_PopulateVramInfo hk, rq_org = None, pr_pattern = Some KPopulateVramInfoPattern,
       pr_mask = Some KPopulateVramInfoPatternMask, pr_patternSize = length KPopulateVramInfoPattern\<rparr>,
      \<lparr>rq_symbol = Some ''__ZNK32AMDRadeonX6000_AmdAsicInfoNavi1027getEnumeratedRevisionNumberEv'', rq_from = 0,
       rq_to = to_getEnumeratedRevision hk, rq_org = None, pr_pattern = None, pr_mask = None, pr_patternSize = 0\<rparr>,
      \<lparr>rq_symbol = Some ''__ZNK22AmdAtomObjectInfo_V1_421getNumberOfConnectorsEv'', rq_from = 0,
       rq_to = to_WrapGetNumberOfConnectors hk, rq_org = Some (at_orgGetNumberOfConnectors hk),
       pr_pattern = Some KGetNumberOfConnectorsPattern, pr_mask = Some KGetNumberOfConnectorsPatternMask,
       pr_patternSize = length KGetNumberOfConnectorsPattern\<rparr>]"

definition registerAccessRequest :: "fbHooks \<Rightarrow> routeRequest" where
  "registerAccessRequest hk =
     \<lparr>rq_symbol = Some ''__ZN32AMDRadeonX6000_AmdRegisterAccess20createRegisterAccessERNS_8InitDataE'', rq_from = 0,
      rq_to = to_WrapCreateRegisterAccess hk, rq_org = Some (at_orgCreateRegisterAccess hk)\<rparr>"

text \<open>A patch with both masks, with one mask, and without masks; the sizes are those of the arrays.\<close>

definition maskedPatch :: "kextinfo \<Rightarrow> byte list \<Rightarrow> byte list option \<Rightarrow> byte list \<Rightarrow> byte list option \<Rightarrow> nat \<Rightarrow> maskedLookupPatch" where
  "maskedPatch kext orig origMask patched patchedMask n =
     \<lparr>lp_kext = Some kext, lp_find = orig, lp_replace = patched, lp_size = length orig, lp_count = n,
      ml_findMask = origMask, ml_replaceMask = patchedMask, ml_skip = 0\<rparr>"

definition fbKext :: "fbHooks \<Rightarrow> kextinfo" where
  "fbKext hk = RadeonX6000FramebufferKext\<lparr>loadIndex := fb_index hk\<rparr>"

definition deviceInfoPatch :: "fbHooks \<Rightarrow> maskedLookupPatch" where
  "deviceInfoPatch hk = maskedPatch (fbKext hk) KPopulateDeviceInfoOriginal (Some KPopulateDeviceInfoMask)
     KPopulateDeviceInfoPatched (Some KPopulateDeviceInfoMask) 1"

definition fbPatches :: "bool \<Rightarrow> fbHooks \<Rightarrow> maskedLookupPatch list" where
  "fbPatches is1404 hk =
     (if is1404 then
        [maskedPatch (fbKext hk) KGetFirmwareInfoNullCheckOriginal1404 (Some KGetFirmwareInfoNullCheckOriginalMask1404)
           KGetFirmwareInfoNullCheckPatched1404 (Some KGetFirmwareInfoNullCheckPatchedMask1404) 1,
         maskedPatch (fbKext hk) KGetVendorInfoOriginal1404 (Some KGetVendorInfoMask1404)
           KGetVendorInfoPatched1404 (Some KGetVendorInfoPatchedMask1404) 1]
      else
        [maskedPatch (fbKext hk) KGetFirmwareInfoNullCheckOriginal (Some KGetFirmwareInfoNullCheckOriginalMask)
           KGetFirmwareInfoNullCheckPatched (Some KGetFirmwareInfoNullCheckPatchedMask) 1,
         maskedPatch (fbKext hk) KGetVendorInfoOriginal (Some KGetVendorInfoMask)
           KGetVendorInfoPatched (Some KGetVendorInfoPatchedMask) 1])"

text \<open>The steps of a module that first reads the hardware's registers, which happens once.\<close>

definition after_InitHWLate ::
  "'d window \<Rightarrow> regs \<Rightarrow> (hwstate \<Rightarrow> 's action) \<Rightarrow> ((hwstate \<times> 'd) \<times> 's) action" where
  "after_InitHWLate w rg f st =
     (case InitHWLate w rg (fst (fst st)) (snd (fst st)) of
        (h1, d1) \<Rightarrow>
          (case f h1 (snd st) of
             None \<Rightarrow> None
           | Some r \<Rightarrow> Some (res_bind r (\<lambda>s1. Inr ((h1, d1), s1)))))"

text \<open>The layout of an entry of the table of capabilities and the values written to it come from headers
  and members the repository does not have: \<open>writeCaps\<close> writes an entry, given the state of the hardware.\<close>

definition fbSteps ::
  "(hwstate \<Rightarrow> addr \<Rightarrow> mem \<Rightarrow> mem) \<Rightarrow> ndeckAttributes \<Rightarrow> fbHooks \<Rightarrow> nat \<Rightarrow> addr \<Rightarrow> u64 \<Rightarrow> hwstate
    \<Rightarrow> 'a kpatcher_scheme action list" where
  "fbSteps writeCaps attrs hk ident slide sz h1 =
     [\<lambda>s. Some (Inr (s\<lparr>kmem := store64 (kmem s) (at_OrgAsicCapsTable hk) 0\<rparr>)),
      required ''X6000FB'' (try_Solve ident slide sz (capsRequest hk)),
      required ''X6000FB'' (try_RouteAll ident (fbRequests hk) slide sz),
      act_when (flagSet IsBigSurPlus attrs)
        (required ''X6000FB'' (try_RouteMultiple ident [registerAccessRequest hk] slide sz)),
      required ''X6000FB'' (Apply slide sz (deviceInfoPatch hk)),
      required ''X6000FB'' (try_ApplyAll (fbPatches (flagSet IsSonoma1404Plus attrs) hk) slide sz),
      in_window ''X6000FB'' (\<lambda>m. writeCaps h1 (load64 m (at_OrgAsicCapsTable hk)) m)]"

definition FB_ProcessKext ::
  "'d window \<Rightarrow> regs \<Rightarrow> (hwstate \<Rightarrow> addr \<Rightarrow> mem \<Rightarrow> mem) \<Rightarrow> ndeckAttributes \<Rightarrow> fbHooks \<Rightarrow> nat \<Rightarrow> addr \<Rightarrow> u64
    \<Rightarrow> ((hwstate \<times> 'd) \<times> 'a kpatcher_scheme) action" where
  "FB_ProcessKext w rg writeCaps attrs hk ident slide sz st =
     (if fb_index hk \<noteq> ident then Some (Inr st)
      else after_InitHWLate w rg (\<lambda>h1. act_seq (fbSteps writeCaps attrs hk ident slide sz h1)) st)"

section \<open>Connectors\<close>

text \<open>The table of display paths of the video BIOS: its layout is that of a header outside the repository,
  so the paths, the field that tells the kind of device and the width of the count are left open.\<close>

record (overloaded) ('p, 'c) objInfo =
  formatRev :: byte
  contentRev :: byte
  pathCount :: "'c word"
  paths :: "nat \<Rightarrow> 'p"

function fixPaths :: "('p \<Rightarrow> u16) \<Rightarrow> nat \<Rightarrow> nat \<Rightarrow> nat \<Rightarrow> ('p, 'c :: len) objInfo \<Rightarrow> ('p, 'c) objInfo" where
  "fixPaths devTag n i j o1 =
     (if i < n then
        if devTag (paths o1 i) \<noteq> 0
        then fixPaths devTag n (i + 1) (j + 1) (o1\<lparr>paths := (paths o1)(j := paths o1 i)\<rparr>)
        else fixPaths devTag n (i + 1) j (o1\<lparr>pathCount := pathCount o1 - 1\<rparr>)
      else o1)"
  by pat_completeness auto
termination by (relation "measure (\<lambda>(devTag, n, i, j, o1). n - i)") auto

declare fixPaths.simps [simp del]

definition WrapGetNumberOfConnectors ::
  "(('p, 'c :: len) objInfo \<Rightarrow> u32) \<Rightarrow> ('p \<Rightarrow> u16) \<Rightarrow> bool \<Rightarrow> ('p, 'c) objInfo \<Rightarrow> u32 \<times> bool \<times> ('p, 'c) objInfo" where
  "WrapGetNumberOfConnectors org devTag fixedVBIOS o1 =
     (let o2 = (if \<not> fixedVBIOS \<and> formatRev o1 = 1 \<and> (contentRev o1 = 4 \<or> contentRev o1 = 5)
                then fixPaths devTag (unat (pathCount o1)) 0 0 o1 else o1)
      in (org o2, True, o2))"

text \<open>The invariant of the loop: the kept paths so far stand in front, in their order, the paths not yet seen
  are untouched, and the count has been lowered once for each dropped path.\<close>

definition fix_inv :: "('p \<Rightarrow> u16) \<Rightarrow> ('p, 'c :: len) objInfo \<Rightarrow> nat \<Rightarrow> nat \<Rightarrow> ('p, 'c) objInfo \<Rightarrow> bool" where
  "fix_inv devTag o0 i j o1 \<longleftrightarrow>
     j \<le> i \<and> map (paths o1) [0..<j] = filter (\<lambda>p. devTag p \<noteq> 0) (map (paths o0) [0..<i])
     \<and> (\<forall>k \<ge> i. paths o1 k = paths o0 k) \<and> pathCount o1 = pathCount o0 - of_nat (i - j)
     \<and> formatRev o1 = formatRev o0 \<and> contentRev o1 = contentRev o0"

lemma fixPaths_inv:
  "fix_inv devTag o0 i j o1 \<Longrightarrow> i \<le> n \<Longrightarrow>
   \<exists>j'. fix_inv devTag o0 n j' (fixPaths devTag n i j o1)"
proof (induction devTag n i j o1 rule: fixPaths.induct)
  case (1 devTag n i j o1)
  note I = "1.prems"(1)[unfolded fix_inv_def]
  show ?case
  proof (cases "i < n")
    case False
    with "1.prems" have "i = n" by simp
    with "1.prems"(1) show ?thesis by (subst fixPaths.simps) auto
  next
    case True
    have p: "paths o1 i = paths o0 i" using I by simp
    show ?thesis
    proof (cases "devTag (paths o1 i) \<noteq> 0")
      case keep: True
      let ?o = "o1\<lparr>paths := (paths o1)(j := paths o1 i)\<rparr>"
      have "map (paths ?o) [0..<j] = map (paths o1) [0..<j]" by simp
      then have "fix_inv devTag o0 (i + 1) (j + 1) ?o" using I keep p by (auto simp: fix_inv_def)
      from "1.IH"(1) [OF True keep this] True keep show ?thesis by (subst fixPaths.simps) simp
    next
      case drop: False
      let ?o = "o1\<lparr>pathCount := pathCount o1 - 1\<rparr>"
      have "fix_inv devTag o0 (i + 1) j ?o" using I drop p by (auto simp: fix_inv_def Suc_diff_le)
      from "1.IH"(2) [OF True drop this] True drop show ?thesis by (subst fixPaths.simps) simp
    qed
  qed
qed

text \<open>C36: before the driver first counts the connectors, the paths without a device are removed from the
  table of the video BIOS: those with a device stand at the front in their old order, the count is their
  number, and what lies behind the old table is untouched.  A second call changes nothing.\<close>

theorem WrapGetNumberOfConnectors_compacts:
  assumes "formatRev o1 = 1" and "contentRev o1 = 4 \<or> contentRev o1 = 5"
    and "WrapGetNumberOfConnectors org devTag False o1 = (r, fixed, o2)"
  defines "kept \<equiv> filter (\<lambda>p. devTag p \<noteq> 0) (map (paths o1) [0..<unat (pathCount o1)])"
  shows "unat (pathCount o2) = length kept \<and> map (paths o2) [0..<length kept] = kept
    \<and> (\<forall>k \<ge> unat (pathCount o1). paths o2 k = paths o1 k) \<and> r = org o2
    \<and> WrapGetNumberOfConnectors org devTag fixed o2 = (r, fixed, o2)"
proof -
  let ?n = "unat (pathCount o1)"
  have o2: "o2 = fixPaths devTag ?n 0 0 o1" "fixed" "r = org o2"
    using assms(1-3) by (auto simp: WrapGetNumberOfConnectors_def Let_def)
  have "fix_inv devTag o1 0 0 o1" by (simp add: fix_inv_def)
  from fixPaths_inv [OF this, of ?n] o2(1) obtain j where j: "fix_inv devTag o1 ?n j o2" by auto
  then have m: "map (paths o2) [0..<j] = kept" by (simp add: fix_inv_def kept_def)
  from arg_cong [OF this, of length] have l: "j = length kept" by simp
  have "unat (pathCount o2) = j"
  proof -
    have "pathCount o2 = of_nat ?n - of_nat (?n - j)" using j by (simp add: fix_inv_def)
    also have "\<dots> = of_nat (?n - (?n - j))" by (simp add: of_nat_diff)
    also have "?n - (?n - j) = j" using j by (simp add: fix_inv_def)
    finally have "pathCount o2 = of_nat j" .
    moreover have "j \<le> ?n" using j by (simp add: fix_inv_def)
    ultimately show ?thesis by (metis le_unat_uoi)
  qed
  with m l j o2 show ?thesis by (auto simp: fix_inv_def WrapGetNumberOfConnectors_def Let_def)
qed

definition demo_paths :: "(u16, 8) objInfo" where
  "demo_paths = \<lparr>formatRev = 1, contentRev = 4, pathCount = 3, paths = (\<lambda>k. [8, 0, 2] ! k)\<rparr>"

theorem WrapGetNumberOfConnectors_compacts_witness:
  "\<exists>r o2. WrapGetNumberOfConnectors (\<lambda>o1. ucast (pathCount o1)) id False demo_paths = (r, True, o2)
     \<and> unat (pathCount o2) = 2 \<and> map (paths o2) [0..<2] = [8, 2]"
proof -
  obtain r f o2 where w: "WrapGetNumberOfConnectors (\<lambda>o1. ucast (pathCount o1)) id False demo_paths = (r, f, o2)"
    by (metis prod_cases3)
  have h: "formatRev demo_paths = 1" "contentRev demo_paths = 4 \<or> contentRev demo_paths = 5" by (simp_all add: demo_paths_def)
  have k: "filter (\<lambda>p. id p \<noteq> 0) (map (paths demo_paths) [0..<unat (pathCount demo_paths)]) = [8, 2]"
    by (simp add: demo_paths_def upt_conv_Cons)
  have "f" using w by (auto simp: WrapGetNumberOfConnectors_def Let_def)
  with WrapGetNumberOfConnectors_compacts [OF h w, unfolded k] w show ?thesis by (auto simp: numeral_2_eq_2)
qed

section \<open>Memory and registers\<close>

text \<open>What the system information table of the video BIOS says of the memory, for its two formats.\<close>

record igpInfo =
  igp_formatRev :: byte
  igp_contentRev :: byte
  v11_umaChannelCount :: byte
  v11_MemoryType :: byte
  v2_umaChannelCount :: byte
  v2_MemoryType :: byte

text \<open>The channel count and the memory type.\<close>

definition vramInfo :: "igpInfo option \<Rightarrow> u32 \<times> byte" where
  "vramInfo table =
     (case table of
        None \<Rightarrow> (1, 0)
      | Some t \<Rightarrow>
          if igp_formatRev t = 1 then
            (if igp_contentRev t = 11 \<or> igp_contentRev t = 12
             then (if v11_umaChannelCount t \<noteq> 0 then ucast (v11_umaChannelCount t) else 1, v11_MemoryType t) else (1, 0))
          else if igp_formatRev t = 2 then
            (if igp_contentRev t = 1 \<or> igp_contentRev t = 2
             then (if v2_umaChannelCount t \<noteq> 0 then ucast (v2_umaChannelCount t) else 1, v2_MemoryType t) else (1, 0))
          else (1, 0))"

text \<open>Both cases of the switch over the memory type give DDR4.\<close>

definition PopulateVRAMInfo ::
  "u32 \<Rightarrow> byte \<Rightarrow> nat \<Rightarrow> nat \<Rightarrow> (nat \<Rightarrow> igpInfo) \<Rightarrow> (nat \<Rightarrow> byte) \<Rightarrow> addr \<Rightarrow> mem \<Rightarrow> u32 \<times> mem" where
  "PopulateVRAMInfo kVideoMemoryTypeDDR4 kLPDDR5MemType tablePtr dataPtr decode VBIOS FwInfo m =
     (let (ChannelCount, MemoryType) = vramInfo (map_option decode (GetVBIOSDataTable tablePtr dataPtr VBIOS 0x1E));
          VideoMemoryType = (if MemoryType = kLPDDR5MemType then kVideoMemoryTypeDDR4 else kVideoMemoryTypeDDR4);
          m1 = store32 m (FwInfo + 0x1C) VideoMemoryType
      in (kIOReturnSuccess, store32 m1 (FwInfo + 0x20) (ChannelCount * 64)))"

definition WrapIH40IVRingInitHardware ::
  "u32 \<Rightarrow> u32 \<Rightarrow> 'd window \<Rightarrow> regs \<Rightarrow> ('d \<Rightarrow> bool \<times> 'd) \<Rightarrow> 'd \<Rightarrow> bool \<times> 'd" where
  "WrapIH40IVRingInitHardware IH_CHICKEN IH_MC_SPACE_GPA_ENABLE w rg org d =
     (let (r, d1) = org d;
          (v, d2) = ReadRegion32Bit w rg IH_CHICKEN d1
      in (r, WriteRegion32Bit w rg IH_CHICKEN (v OR IH_MC_SPACE_GPA_ENABLE) d2))"

definition WrapIRQMGRWriteRegister ::
  "u64 \<Rightarrow> nat \<Rightarrow> nat \<Rightarrow> (u64 \<Rightarrow> u32 \<Rightarrow> 'd \<Rightarrow> 'd) \<Rightarrow> u64 \<Rightarrow> u32 \<Rightarrow> 'd \<Rightarrow> 'd" where
  "WrapIRQMGRWriteRegister IH_CLK_CTRL muxShift bufferShift org Index v d =
     (let v1 = (if Index = IH_CLK_CTRL \<and> v AND push_bit muxShift 1 \<noteq> 0 then v OR push_bit bufferShift 1 else v)
      in org Index v1 d)"

definition SMUIO_BASE_0 :: u32 where "SMUIO_BASE_0 = 0x16800"

definition WrapCreateRegisterAccess :: "u32 \<Rightarrow> u32 \<Rightarrow> (addr \<Rightarrow> mem \<Rightarrow> addr \<times> mem) \<Rightarrow> addr \<Rightarrow> mem \<Rightarrow> addr \<times> mem" where
  "WrapCreateRegisterAccess ROM_INDEX ROM_DATA org InitData m =
     (let m1 = store32 m (InitData + 0x24) (SMUIO_BASE_0 + ROM_INDEX);
          m2 = store32 m1 (InitData + 0x28) (SMUIO_BASE_0 + ROM_DATA)
      in org InitData m2)"

section \<open>Reserved memory\<close>

datatype AMDReservedMemorySelector =
    ReserveVRAM
  | Cursor1_32bpp | Cursor1_2bpp | Cursor2_32bpp | Cursor2_2bpp | Cursor3_32bpp | Cursor3_2bpp
  | Cursor4_32bpp | Cursor4_2bpp | Cursor5_32bpp | Cursor5_2bpp | Cursor6_32bpp | Cursor6_2bpp
  | PPLIBReserved | DMCUBReserved
  | MappedSurface1 | MappedSurface2 | MappedSurface3 | MappedSurface4 | MappedSurface5 | MappedSurface6
  | ROMBase | Registers | Framebuffer

definition VramMappingOptions :: u32 where "VramMappingOptions = push_bit 8 4 OR 1"

text \<open>A call of \<open>mapMemorySubRange\<close>: the selector, the offset, the size and the attributes.\<close>

type_synonym 'd mapRange = "AMDReservedMemorySelector \<Rightarrow> nat \<Rightarrow> nat \<Rightarrow> u32 \<Rightarrow> 'd \<Rightarrow> u32 \<times> 'd"

fun mapRanges :: "'d mapRange \<Rightarrow> (AMDReservedMemorySelector \<times> nat \<times> nat) list \<Rightarrow> 'd \<Rightarrow> u32 \<times> 'd" where
  "mapRanges mapSub [] d = (kIOReturnSuccess, d)"
| "mapRanges mapSub ((sel, off, sz) # rs) d =
     (let (r, d1) = mapSub sel off sz VramMappingOptions d
      in if r \<noteq> kIOReturnSuccess then (r, d1) else mapRanges mapSub rs d1)"

definition reservedRanges :: "(AMDReservedMemorySelector \<times> nat \<times> nat) list" where
  "reservedRanges =
     [(Cursor1_32bpp, 0, 0x40000), (Cursor1_2bpp, 0x40000, 0x40000), (Cursor2_32bpp, 0x80000, 0x40000),
      (Cursor2_2bpp, 0xC0000, 0x40000), (Cursor3_32bpp, 0x100000, 0x40000), (Cursor3_2bpp, 0x140000, 0x40000),
      (Cursor4_32bpp, 0x180000, 0x40000), (Cursor4_2bpp, 0x1C0000, 0x40000), (Cursor5_32bpp, 0x200000, 0x40000),
      (Cursor5_2bpp, 0x240000, 0x40000), (Cursor6_32bpp, 0x280000, 0x40000), (Cursor6_2bpp, 0x2C0000, 0x40000),
      (PPLIBReserved, 0x300000, 0x100000), (DMCUBReserved, 0x400000, 0x100000), (ReserveVRAM, 0, 0x500000)]"

definition InitializeReservedVRAM :: "'d mapRange \<Rightarrow> 'd \<Rightarrow> u32 \<times> 'd" where
  "InitializeReservedVRAM mapSub d = mapRanges mapSub reservedRanges d"

text \<open>A device that keeps the calls it gets and answers the \<open>i\<close>-th with \<open>codes i\<close>.\<close>

definition recorder :: "(nat \<Rightarrow> u32) \<Rightarrow> (AMDReservedMemorySelector \<times> nat \<times> nat) list mapRange" where
  "recorder codes sel off sz opts calls = (codes (length calls), calls @ [(sel, off, sz)])"

text \<open>Ranges that follow each other without gap or overlap from \<open>a\<close> to \<open>b\<close>.\<close>

fun tiles :: "nat \<Rightarrow> (AMDReservedMemorySelector \<times> nat \<times> nat) list \<Rightarrow> nat \<Rightarrow> bool" where
  "tiles a [] b \<longleftrightarrow> a = b"
| "tiles a ((sel, off, sz) # rs) b \<longleftrightarrow> off = a \<and> 0 < sz \<and> tiles (off + sz) rs b"

lemma mapRanges_recorder:
  "mapRanges (recorder codes) rs calls =
     (case find (\<lambda>i. codes (length calls + i) \<noteq> kIOReturnSuccess) [0..<length rs] of
        None \<Rightarrow> (kIOReturnSuccess, calls @ rs)
      | Some n \<Rightarrow> (codes (length calls + n), calls @ take (Suc n) rs))"
proof (induction rs arbitrary: calls)
  case (Cons r rs)
  obtain sel off sz where r: "r = (sel, off, sz)" by (cases r)
  have u: "[0..<length (r # rs)] = 0 # map Suc [0..<length rs]" by (simp add: map_Suc_upt upt_conv_Cons del: upt_Suc)
  have f: "find P (map Suc xs) = map_option Suc (find (\<lambda>i. P (Suc i)) xs)" for P xs by (induction xs) auto
  show ?case
    using Cons [of "calls @ [r]"] unfolding u
    by (auto simp: r recorder_def f split: option.splits)
qed simp

text \<open>Reserving the driver's memory maps fourteen ranges that tile the first 5 MB without gap or overlap,
  and then the whole as one range; the calls stop at the first one that fails, whose code is returned.\<close>

theorem InitializeReservedVRAM_tiles:
  "tiles 0 (butlast reservedRanges) 0x500000 \<and> last reservedRanges = (ReserveVRAM, 0, 0x500000)
   \<and> distinct (map fst reservedRanges)
   \<and> InitializeReservedVRAM (recorder codes) [] =
       (case find (\<lambda>i. codes i \<noteq> kIOReturnSuccess) [0..<15] of
          None \<Rightarrow> (kIOReturnSuccess, reservedRanges)
        | Some n \<Rightarrow> (codes n, take (Suc n) reservedRanges))"
proof -
  have l: "length reservedRanges = 15" by (simp add: reservedRanges_def)
  have "InitializeReservedVRAM (recorder codes) [] =
       (case find (\<lambda>i. codes i \<noteq> kIOReturnSuccess) [0..<15] of
          None \<Rightarrow> (kIOReturnSuccess, reservedRanges)
        | Some n \<Rightarrow> (codes n, take (Suc n) reservedRanges))"
    unfolding InitializeReservedVRAM_def mapRanges_recorder l by (simp split: option.split)
  moreover have "tiles 0 (butlast reservedRanges) 0x500000" "last reservedRanges = (ReserveVRAM, 0, 0x500000)"
    "distinct (map fst reservedRanges)" by (simp_all add: reservedRanges_def)
  ultimately show ?thesis by blast
qed

section \<open>HDMI audio\<close>

definition AppleGFXHDAKext :: kextinfo where "AppleGFXHDAKext = unloadedKext ''com.apple.driver.AppleGFXHDA''"

definition AMDVendorID :: u32 where "AMDVendorID = 0x1002"
definition Navi10HDMIDeviceID :: u32 where "Navi10HDMIDeviceID = 0xAB38"
definition Navi10HDMIID :: u32 where "Navi10HDMIID = push_bit 16 Navi10HDMIDeviceID OR AMDVendorID"
definition AerithHDMIDeviceID :: u32 where "AerithHDMIDeviceID = 0x163F"
definition AerithHDMIID :: u32 where "AerithHDMIID = push_bit 16 AerithHDMIDeviceID OR AMDVendorID"
definition SephirothHDMIDeviceID :: u32 where "SephirothHDMIDeviceID = 0x1640"
definition SephirothHDMIID :: u32 where "SephirothHDMIID = push_bit 16 SephirothHDMIDeviceID OR AMDVendorID"

definition HDA_StartModule :: "stored_callback \<Rightarrow> bool \<Rightarrow> liluapi \<Rightarrow> (bool \<times> liluapi) res" where
  "HDA_StartModule process loaded a = startOnce ''AGFXHDA'' AppleGFXHDAKext process loaded a"

record hdaHooks =
  hda_index :: nat
  at_OrgFunctionGroupTahiti :: addr
  at_OrgWidget1002AAA0 :: addr
  to_CreateFunctionGroup :: addr
  at_CreateFunctionGroup :: addr
  to_CreateWidget :: addr
  at_CreateWidget :: addr

definition ProbeRepl :: "ndeckAttributes \<Rightarrow> u32" where
  "ProbeRepl attrs = (if flagSet IsAerith attrs then AerithHDMIID else SephirothHDMIID)"

definition probePatch :: "ndeckAttributes \<Rightarrow> hdaHooks \<Rightarrow> lookupPatch" where
  "probePatch attrs hk =
     \<lparr>lp_kext = Some (AppleGFXHDAKext\<lparr>loadIndex := hda_index hk\<rparr>), lp_find = nat_le 4 (unat Navi10HDMIID),
      lp_replace = nat_le 4 (unat (ProbeRepl attrs)), lp_size = 4, lp_count = 1\<rparr>"

definition try_lookup :: "lookupPatch \<Rightarrow> 'a kpatcher_scheme \<Rightarrow> (bool \<times> 'a kpatcher_scheme) res option" where
  "try_lookup p s =
     (case applyLookupPatch (Some p) 0 0 (clearError s) of None \<Rightarrow> None | Some t \<Rightarrow> Some (Inr (code t = NoError, t)))"

definition hdaSolves :: "hdaHooks \<Rightarrow> solveRequest list" where
  "hdaSolves hk =
     [\<lparr>sr_symbol = ''__ZN34AppleGFXHDAFunctionGroupATI_Tahiti10gMetaClassE'', sr_address = at_OrgFunctionGroupTahiti hk\<rparr>,
      \<lparr>sr_symbol = ''__ZN26AppleGFXHDAWidget_1002AAA010gMetaClassE'', sr_address = at_OrgWidget1002AAA0 hk\<rparr>]"

definition hdaRoutes :: "hdaHooks \<Rightarrow> routeRequest list" where
  "hdaRoutes hk =
     [\<lparr>rq_symbol = Some ''__ZN31AppleGFXHDAFunctionGroupFactory27createAppleHDAFunctionGroupEP11DevIdStruct'', rq_from = 0,
       rq_to = to_CreateFunctionGroup hk, rq_org = Some (at_CreateFunctionGroup hk)\<rparr>,
      \<lparr>rq_symbol = Some ''__ZN24AppleGFXHDAWidgetFactory20createAppleHDAWidgetEP11DevIdStruct'', rq_from = 0,
       rq_to = to_CreateWidget hk, rq_org = Some (at_CreateWidget hk)\<rparr>]"

definition HDA_ProcessKext ::
  "'d window \<Rightarrow> regs \<Rightarrow> ndeckAttributes \<Rightarrow> hdaHooks \<Rightarrow> nat \<Rightarrow> addr \<Rightarrow> u64 \<Rightarrow> ((hwstate \<times> 'd) \<times> 'a kpatcher_scheme) action" where
  "HDA_ProcessKext w rg attrs hk ident slide sz st =
     (if hda_index hk \<noteq> ident then Some (Inr st)
      else
        after_InitHWLate w rg
          (\<lambda>h1. act_seq
             [required ''AGFXHDA'' (try_lookup (probePatch attrs hk)),
              required ''AGFXHDA'' (try_SolveMultiple ident (hdaSolves hk) slide sz),
              required ''AGFXHDA'' (try_RouteMultiple ident (hdaRoutes hk) slide sz)]) st)"

text \<open>The members that the hooks read, and what they call: the allocator of a class and an original.\<close>

record hdaState =
  OrgFunctionGroupTahiti :: addr
  OrgWidget1002AAA0 :: addr
  OrgCreateAppleHDAFunctionGroup :: addr
  OrgCreateAppleHDAWidget :: addr

record 'd hdaCalls =
  classAlloc :: "addr \<Rightarrow> 'd \<Rightarrow> addr \<times> 'd"
  callCreate :: "addr \<Rightarrow> addr \<Rightarrow> 'd \<Rightarrow> addr \<times> 'd"

definition isVanGoghHDMI :: "mem \<Rightarrow> addr \<Rightarrow> bool" where
  "isVanGoghHDMI m DevID \<longleftrightarrow>
     ucast (load16 m (DevID + 0x2)) = AMDVendorID
     \<and> (load32 m (DevID + 0x8) = AerithHDMIDeviceID \<or> load32 m (DevID + 0x8) = SephirothHDMIDeviceID)"

definition WrapCreateAppleHDAFunctionGroup :: "'d hdaCalls \<Rightarrow> hdaState \<Rightarrow> mem \<Rightarrow> addr \<Rightarrow> 'd \<Rightarrow> addr \<times> 'd" where
  "WrapCreateAppleHDAFunctionGroup c st m DevID d =
     (if isVanGoghHDMI m DevID then classAlloc c (OrgFunctionGroupTahiti st) d
      else callCreate c (OrgCreateAppleHDAFunctionGroup st) DevID d)"

definition WrapCreateAppleHDAWidget :: "'d hdaCalls \<Rightarrow> hdaState \<Rightarrow> mem \<Rightarrow> addr \<Rightarrow> 'd \<Rightarrow> addr \<times> 'd" where
  "WrapCreateAppleHDAWidget c st m DevID d =
     (if isVanGoghHDMI m DevID then classAlloc c (OrgWidget1002AAA0 st) d
      else callCreate c (OrgCreateAppleHDAFunctionGroup st) DevID d)"

section \<open>The modules keep the contract\<close>

lemma keeps_store: "keeps bare_metal cpu_view (\<lambda>s. Some (Inr (s\<lparr>kmem := f s\<rparr>)))"
  by (simp add: keeps_def)

lemma keeps_try_lookup [keeps_rules]: "keeps_try bare_metal cpu_view (try_lookup p)"
  unfolding keeps_try_def
proof (intro allI impI)
  fix s t :: "'a kpatcher_scheme" and b
  assume s: "bare_metal s" and r: "try_lookup p s = Some (Inr (b, t))"
  from r have "applyLookupPatch (Some p) 0 0 (clearError s) = Some t" by (auto simp: try_lookup_def split: option.split_asm)
  from view_lookup [OF view_bare [OF view_clearError s] this] show "cpu_view t = cpu_view s" by simp
qed

lemma keeps_unless: "keeps u v f \<Longrightarrow> keeps u v (\<lambda>st. if b then Some (Inr st) else f st)"
  unfolding keeps_def by simp

lemma keeps_after_InitHWLate:
  assumes "\<And>h. keeps bare_metal cpu_view (f h)"
  shows "keeps (\<lambda>p. bare_metal (snd p)) (\<lambda>p. cpu_view (snd p)) (after_InitHWLate w rg f)"
  unfolding keeps_def
proof (intro allI impI)
  fix st t
  assume s: "bare_metal (snd st)" and r: "after_InitHWLate w rg f st = Some (Inr t)"
  obtain h1 d1 where h: "InitHWLate w rg (fst (fst st)) (snd (fst st)) = (h1, d1)" by (cases "InitHWLate w rg (fst (fst st)) (snd (fst st))")
  from r obtain s1 where s1: "f h1 (snd st) = Some (Inr s1)" "t = ((h1, d1), s1)"
    unfolding after_InitHWLate_def h by (auto simp: res_bind_eq_Inr split: option.split_asm)
  from keepsD [OF assms s s1(1)] s1(2) show "cpu_view (snd t) = cpu_view (snd st)" by simp
qed

lemma keeps_FB:
  "keeps (\<lambda>p. bare_metal (snd p)) (\<lambda>p. cpu_view (snd p)) (FB_ProcessKext w rg writeCaps attrs hk ident slide sz)"
proof -
  have k: "keeps bare_metal cpu_view (act_seq (fbSteps writeCaps attrs hk ident slide sz h1))" for h1
    by (rule kv.keeps_seq) (simp add: fbSteps_def keeps_rules keeps_store)
  from keeps_unless [OF keeps_after_InitHWLate [OF k]] show ?thesis unfolding FB_ProcessKext_def .
qed

lemma keeps_HDA:
  "keeps (\<lambda>p. bare_metal (snd p)) (\<lambda>p. cpu_view (snd p)) (HDA_ProcessKext w rg attrs hk ident slide sz)"
proof -
  have k: "keeps bare_metal cpu_view (act_seq
    [required ''AGFXHDA'' (try_lookup (probePatch attrs hk)),
     required ''AGFXHDA'' (try_SolveMultiple ident (hdaSolves hk) slide sz),
     required ''AGFXHDA'' (try_RouteMultiple ident (hdaRoutes hk) slide sz)])"
    by (rule kv.keeps_seq) (simp add: keeps_rules)
  from keeps_unless [OF keeps_after_InitHWLate [OF k]] show ?thesis unfolding HDA_ProcessKext_def .
qed

interpretation fb_module: kext_module "\<lambda>p. bare_metal (snd p)" "\<lambda>p. cpu_view (snd p)"
    "FB_ProcessKext w rg writeCaps attrs hk" "[fb_index hk]"
  by unfold_locales (auto simp: FB_ProcessKext_def keeps_FB)

interpretation hda_module: kext_module "\<lambda>p. bare_metal (snd p)" "\<lambda>p. cpu_view (snd p)"
    "HDA_ProcessKext w rg attrs hk" "[hda_index hk]"
  by unfold_locales (auto simp: HDA_ProcessKext_def keeps_HDA)

section \<open>Audio properties\<close>

lemma nat_le_4: "nat_le 4 x = [of_nat x, of_nat (x div 256), of_nat (x div 256 div 256), of_nat (x div 256 div 256 div 256)]"
proof -
  have 4: "(4 :: nat) = Suc (Suc (Suc (Suc 0)))" by simp
  show ?thesis unfolding 4 nat_le.simps by (rule refl)
qed

lemma HDMI_bytes:
  "nat_le 4 (unat SephirothHDMIID) = [0x02, 0x10, 0x40, 0x16]" "nat_le 4 (unat AerithHDMIID) = [0x02, 0x10, 0x3F, 0x16]"
  by (simp_all add: nat_le_4 SephirothHDMIID_def SephirothHDMIDeviceID_def AerithHDMIID_def AerithHDMIDeviceID_def AMDVendorID_def)

text \<open>The audio driver's probe is patched to the identifier of Sephiroth on every accepted GPU, Aerith
  included, because the flag that tells Aerith is never set.\<close>

theorem probe_never_Aerith:
  assumes "StartModule startOthers cb kver minor ndeck_instance a = Inr (n, a')"
    and "identifyGPU switchOff alloc info n = Inr (info', n')"
  shows "lp_replace (probePatch (Attributes n') hk) = nat_le 4 (unat SephirothHDMIID)
    \<and> nat_le 4 (unat SephirothHDMIID) \<noteq> nat_le 4 (unat AerithHDMIID)"
proof -
  have "\<not> flagSet IsAerith (Attributes n')" by (rule identified [OF assms])
  then show ?thesis by (simp add: probePatch_def ProbeRepl_def HDMI_bytes)
qed

definition demo_hda :: hdaHooks where
  "demo_hda = \<lparr>hda_index = 1, at_OrgFunctionGroupTahiti = 0x5000, at_OrgWidget1002AAA0 = 0x5008, to_CreateFunctionGroup = 0x6000,
     at_CreateFunctionGroup = 0x5010, to_CreateWidget = 0x6010, at_CreateWidget = 0x5018\<rparr>"

theorem probe_never_Aerith_witness:
  "\<exists>n a info n'. StartModule Inr (0x1000, 0) Ventura 5 ndeck_instance demo_api = Inr (n, a)
     \<and> identifyGPU id True (Some \<lparr>videoBuiltin = Some (demo_gpu 0x163F), videoExternal = []\<rparr>) n = Inr (info, n')
     \<and> lp_replace (probePatch (Attributes n') demo_hda) = [0x02, 0x10, 0x40, 0x16]"
proof -
  have "case StartModule Inr (0x1000, 0) Ventura 5 ndeck_instance demo_api of Inl _ \<Rightarrow> False | Inr _ \<Rightarrow> True" by code_simp
  then obtain n a where n: "StartModule Inr (0x1000, 0) Ventura 5 ndeck_instance demo_api = Inr (n, a)"
    by (auto split: sum.split_asm)
  have "pci_device (UpdateProperties (snd (renameDevice True ''IGPU'' (demo_gpu 0x163F)))) = 0x163F" by code_simp
  then obtain n' info where i: "identifyGPU id True (Some \<lparr>videoBuiltin = Some (demo_gpu 0x163F), videoExternal = []\<rparr>) n
      = Inr (info, n')" by (auto simp: identifyGPU_def demo_gpu_def ATIAMD_def)
  from probe_never_Aerith [OF n i, of demo_hda] n i show ?thesis by (auto simp: HDMI_bytes)
qed

text \<open>For a device that is not the audio of Van Gogh, the hook that creates a widget calls the driver's
  creator of function groups, as the other hook does; the driver's creator of widgets is never called.\<close>

theorem widget_hook_wrong_original:
  "WrapCreateAppleHDAWidget c (st\<lparr>OrgCreateAppleHDAWidget := f\<rparr>) m DevID d = WrapCreateAppleHDAWidget c st m DevID d
   \<and> (\<not> isVanGoghHDMI m DevID \<longrightarrow>
        WrapCreateAppleHDAWidget c st m DevID d = WrapCreateAppleHDAFunctionGroup c st m DevID d
        \<and> WrapCreateAppleHDAWidget c st m DevID d = callCreate c (OrgCreateAppleHDAFunctionGroup st) DevID d)"
  by (simp add: WrapCreateAppleHDAWidget_def WrapCreateAppleHDAFunctionGroup_def)

theorem widget_hook_wrong_original_witness:
  "WrapCreateAppleHDAWidget \<lparr>classAlloc = (\<lambda>c d. (c, d)), callCreate = (\<lambda>f a d. (f, d))\<rparr>
     \<lparr>OrgFunctionGroupTahiti = 1, OrgWidget1002AAA0 = 2, OrgCreateAppleHDAFunctionGroup = 3, OrgCreateAppleHDAWidget = 4\<rparr>
     (\<lambda>_. 0) 0x1000 () = (3, ())"
proof -
  let ?c = "\<lparr>classAlloc = (\<lambda>c d. (c, d)), callCreate = (\<lambda>f a d. (f, d))\<rparr>"
  let ?st = "\<lparr>OrgFunctionGroupTahiti = 1, OrgWidget1002AAA0 = 2, OrgCreateAppleHDAFunctionGroup = 3, OrgCreateAppleHDAWidget = 4\<rparr>"
  have "\<not> isVanGoghHDMI (\<lambda>_. 0) 0x1000" by code_simp
  then have "WrapCreateAppleHDAWidget ?c ?st (\<lambda>_. 0) 0x1000 () = callCreate ?c (OrgCreateAppleHDAFunctionGroup ?st) 0x1000 ()"
    using widget_hook_wrong_original [of ?c 4 ?st "\<lambda>_. 0" "0x1000" "()"] by blast
  then show ?thesis by simp
qed

end
