(* ===== verification/NDeck_Hotfixes.thy ===== *)
theory NDeck_Hotfixes
  imports NDeck_Display
begin

text \<open>
  The hotfix modules (\<^verbatim>\<open>NootedDeck/Hotfixes/AGDP.cpp\<close>, \<^verbatim>\<open>NootedDeck/Hotfixes/X6000FB.cpp\<close>) and the module that
  turns on the drivers' logs (\<^verbatim>\<open>NootedDeck/DebugEnabler.cpp\<close>).  The drivers' own functions and the formatting
  of messages are parameters.
\<close>

section \<open>Graphics device policy\<close>

unbundle bit_operations_syntax

definition AGDPKext :: kextinfo where "AGDPKext = unloadedKext ''com.apple.driver.AppleGraphicsDevicePolicy''"

definition KAGDPFBCountCheckOriginal :: "byte list" where "KAGDPFBCountCheckOriginal = [0x02, 0x00, 0x00, 0x83, 0xF8, 0x02]"
definition KAGDPFBCountCheckPatched :: "byte list" where "KAGDPFBCountCheckPatched = [0x02, 0x00, 0x00, 0x83, 0xF8, 0x01]"
definition KAGDPFBCountCheckOriginal13 :: "byte list" where
  "KAGDPFBCountCheckOriginal13 = [0x41, 0x83, 0xBE, 0x14, 0x02, 0x00, 0x00, 0x02]"
definition KAGDPFBCountCheckPatched13 :: "byte list" where
  "KAGDPFBCountCheckPatched13 = [0x41, 0x83, 0xBE, 0x14, 0x02, 0x00, 0x00, 0x01]"
definition KAGDPBoardIDKeyOriginal :: "byte list" where "KAGDPBoardIDKeyOriginal = cstr ''board-ID''"
definition KAGDPBoardIDKeyPatched :: "byte list" where "KAGDPBoardIDKeyPatched = cstr ''applehax''"

definition AGDP_StartModule :: "stored_callback \<Rightarrow> bool \<Rightarrow> liluapi \<Rightarrow> (bool \<times> liluapi) res" where
  "AGDP_StartModule process loaded a = startOnce ''AGDP'' AGDPKext process loaded a"

text \<open>The two patches, for a kext at the given index.\<close>

definition agdpPatches :: "ndeckAttributes \<Rightarrow> nat \<Rightarrow> maskedLookupPatch list" where
  "agdpPatches attrs idx =
     (let kext = AGDPKext\<lparr>loadIndex := idx\<rparr>
      in [maskedPatch kext KAGDPBoardIDKeyOriginal None KAGDPBoardIDKeyPatched None 1,
          if flagSet IsVentura attrs then maskedPatch kext KAGDPFBCountCheckOriginal13 None KAGDPFBCountCheckPatched13 None 1
          else maskedPatch kext KAGDPFBCountCheckOriginal None KAGDPFBCountCheckPatched None 1])"

definition AGDP_ProcessKext :: "ndeckAttributes \<Rightarrow> nat \<Rightarrow> nat \<Rightarrow> addr \<Rightarrow> u64 \<Rightarrow> 'a kpatcher_scheme action" where
  "AGDP_ProcessKext attrs idx ident slide sz s =
     (if idx \<noteq> ident then Some (Inr s)
      else act_seq (map (\<lambda>p. logged (Apply slide sz p)) (agdpPatches attrs idx)) s)"

section \<open>Frame buffer hotfixes\<close>

definition KDpReceiverPowerCtrlPattern :: "byte list" where
  "KDpReceiverPowerCtrlPattern = [0x55, 0x48, 0x89, 0xE5, 0x41, 0x57, 0x41, 0x56, 0x41, 0x54, 0x53,
    0x48, 0x83, 0xEC, 0x10, 0x89, 0xF3, 0xB0, 0x02, 0x28, 0xD8]"
definition KDpReceiverPowerCtrlPattern1404 :: "byte list" where
  "KDpReceiverPowerCtrlPattern1404 = [0x55, 0x48, 0x89, 0xE5, 0x41, 0x57, 0x41, 0x56, 0x41, 0x54,
    0x53, 0x48, 0x83, 0xEC, 0x10, 0x41, 0x89, 0xF7, 0xB0, 0x02, 0x44, 0x28, 0xF8]"
definition KControllerPowerUpOriginal :: "byte list" where
  "KControllerPowerUpOriginal = [0x38, 0xC8, 0x0F, 0x42, 0xC8, 0x88, 0x8F, 0xBC, 0x00, 0x00, 0x00,
    0x72, 0x00]"
definition KControllerPowerUpOriginalMask :: "byte list" where
  "KControllerPowerUpOriginalMask = [0xFF, 0xFF, 0xFF, 0xFF, 0xFF, 0xFF, 0xFF, 0xFF, 0xFF, 0xFF, 0xFF,
    0xFF, 0x00]"
definition KControllerPowerUpReplace :: "byte list" where
  "KControllerPowerUpReplace = [0x00, 0x00, 0x00, 0x00, 0x00, 0x00, 0x00, 0x00, 0x00, 0x00, 0x00,
    0xEB, 0x00]"
definition KControllerPowerUpReplaceMask :: "byte list" where
  "KControllerPowerUpReplaceMask = [0x00, 0x00, 0x00, 0x00, 0x00, 0x00, 0x00, 0x00, 0x00, 0x00, 0x00,
    0xFF, 0x00]"
definition KValidateDetailedTimingOriginal :: "byte list" where
  "KValidateDetailedTimingOriginal = [0x66, 0x0F, 0x2E, 0xC1, 0x76, 0x06, 0xF2, 0x0F, 0x5E, 0xC1]"
definition KValidateDetailedTimingPatched :: "byte list" where
  "KValidateDetailedTimingPatched = [0x66, 0x0F, 0x2E, 0xC1, 0x66, 0x90, 0xF2, 0x0F, 0x5E, 0xC1]"

definition Hotfix_StartModule :: "stored_callback \<Rightarrow> bool \<Rightarrow> liluapi \<Rightarrow> (bool \<times> liluapi) res" where
  "Hotfix_StartModule process loaded a = startOnce ''X6000FB'' RadeonX6000FramebufferKext process loaded a"

record hotfixHooks =
  hf_index :: nat
  to_DpReceiverPowerCtrl :: addr
  at_DpReceiverPowerCtrl :: addr
  at_MessageAccelerator :: addr
  to_ControllerPowerUp :: addr
  at_ControllerPowerUp :: addr

definition dpRequest :: "bool \<Rightarrow> hotfixHooks \<Rightarrow> patternRouteRequest" where
  "dpRequest is1404 hk =
     (let p = (if is1404 then KDpReceiverPowerCtrlPattern1404 else KDpReceiverPowerCtrlPattern)
      in \<lparr>rq_symbol = Some ''_dp_receiver_power_ctrl'', rq_from = 0, rq_to = to_DpReceiverPowerCtrl hk,
          rq_org = Some (at_DpReceiverPowerCtrl hk), pr_pattern = Some p, pr_mask = None, pr_patternSize = length p\<rparr>)"

definition messageRequest :: "hotfixHooks \<Rightarrow> patternSolveRequest" where
  "messageRequest hk =
     \<lparr>ps_symbol = Some ''__ZNK34AMDRadeonX6000_AmdRadeonController18messageAcceleratorE25_eAMDAccelIOFBRequestTypePvS1_S1_'',
      ps_address = at_MessageAccelerator hk, ps_pattern = None, ps_mask = None, ps_patternSize = 0\<rparr>"

definition powerUpRequest :: "hotfixHooks \<Rightarrow> patternRouteRequest" where
  "powerUpRequest hk =
     \<lparr>rq_symbol = Some ''__ZN34AMDRadeonX6000_AmdRadeonController7powerUpEv'', rq_from = 0, rq_to = to_ControllerPowerUp hk,
      rq_org = Some (at_ControllerPowerUp hk), pr_pattern = None, pr_mask = None, pr_patternSize = 0\<rparr>"

definition hotfixPatches :: "hotfixHooks \<Rightarrow> maskedLookupPatch list" where
  "hotfixPatches hk =
     (let kext = RadeonX6000FramebufferKext\<lparr>loadIndex := hf_index hk\<rparr>
      in [maskedPatch kext KControllerPowerUpOriginal (Some KControllerPowerUpOriginalMask)
            KControllerPowerUpReplace (Some KControllerPowerUpReplaceMask) 1,
          maskedPatch kext KValidateDetailedTimingOriginal None KValidateDetailedTimingPatched None 1])"

text \<open>\<open>dpDelay\<close> says whether the boot argument \<open>-NDeckDPDelay\<close> is given.\<close>

definition hotfixSteps ::
  "bool \<Rightarrow> ndeckAttributes \<Rightarrow> hotfixHooks \<Rightarrow> nat \<Rightarrow> addr \<Rightarrow> u64 \<Rightarrow> 'a kpatcher_scheme action list" where
  "hotfixSteps dpDelay attrs hk ident slide sz =
     [act_when dpDelay (required ''X6000FB'' (try_Route ident slide sz (dpRequest (flagSet IsSonoma1404Plus attrs) hk))),
      act_when (flagSet IsVenturaPlus attrs) (required ''X6000FB'' (try_Solve ident slide sz (messageRequest hk))),
      act_when (flagSet IsVenturaPlus attrs) (required ''X6000FB'' (try_Route ident slide sz (powerUpRequest hk))),
      act_when (flagSet IsVenturaPlus attrs) (required ''X6000FB'' (try_ApplyAll (hotfixPatches hk) slide sz))]"

definition Hotfix_ProcessKext ::
  "bool \<Rightarrow> ndeckAttributes \<Rightarrow> hotfixHooks \<Rightarrow> nat \<Rightarrow> addr \<Rightarrow> u64 \<Rightarrow> 'a kpatcher_scheme action" where
  "Hotfix_ProcessKext dpDelay attrs hk ident slide sz s =
     (if hf_index hk \<noteq> ident then Some (Inr s) else act_seq (hotfixSteps dpDelay attrs hk ident slide sz) s)"

definition IOFBRequestControllerEnabled :: u32 where "IOFBRequestControllerEnabled = 0x1B"

definition WrapControllerPowerUp ::
  "(addr \<Rightarrow> mem \<times> 'd \<Rightarrow> u32 \<times> mem \<times> 'd) \<Rightarrow> (addr \<Rightarrow> u32 \<Rightarrow> mem \<times> 'd \<Rightarrow> mem \<times> 'd) \<Rightarrow> addr \<Rightarrow> mem \<times> 'd \<Rightarrow> u32 \<times> mem \<times> 'd" where
  "WrapControllerPowerUp org orgMessageAccelerator obj md =
     (let (m, d) = md;
          MFlags = m (obj + 0x5F18);
          send = (MFlags AND 2 = 0);
          (ret, md1) = org obj (m(obj + 0x5F18 := MFlags OR 4), d)
      in (ret, if send then orgMessageAccelerator obj IOFBRequestControllerEnabled md1 else md1))"

definition wrapDpReceiverPowerCtrl :: "(addr \<Rightarrow> bool \<Rightarrow> 'd \<Rightarrow> 'd) \<Rightarrow> (nat \<Rightarrow> 'd \<Rightarrow> 'd) \<Rightarrow> addr \<Rightarrow> bool \<Rightarrow> 'd \<Rightarrow> 'd" where
  "wrapDpReceiverPowerCtrl org IOSleep link PowerOn d = IOSleep 250 (org link PowerOn d)"

lemma keeps_AGDP: "keeps bare_metal cpu_view (AGDP_ProcessKext attrs idx ident slide sz)"
proof -
  have "keeps bare_metal cpu_view (act_seq (map (\<lambda>p. logged (Apply slide sz p)) (agdpPatches attrs idx)))"
    by (rule kv.keeps_seq) (simp add: list_all_iff keeps_rules)
  from keeps_unless [OF this] show ?thesis unfolding AGDP_ProcessKext_def .
qed

lemma keeps_Hotfix: "keeps bare_metal cpu_view (Hotfix_ProcessKext dpDelay attrs hk ident slide sz)"
proof -
  have "keeps bare_metal cpu_view (act_seq (hotfixSteps dpDelay attrs hk ident slide sz))"
    by (rule kv.keeps_seq) (simp add: hotfixSteps_def keeps_rules)
  from keeps_unless [OF this] show ?thesis unfolding Hotfix_ProcessKext_def .
qed

interpretation agdp_module: kext_module bare_metal cpu_view "AGDP_ProcessKext attrs idx" "[idx]"
  by unfold_locales (auto simp: AGDP_ProcessKext_def keeps_AGDP)

interpretation hotfix_module: kext_module bare_metal cpu_view "Hotfix_ProcessKext dpDelay attrs hk" "[hf_index hk]"
  by unfold_locales (auto simp: Hotfix_ProcessKext_def keeps_Hotfix)

section \<open>Debug logs\<close>

definition KDmLoggerWritePattern :: "byte list" where
  "KDmLoggerWritePattern = [0x55, 0x48, 0x89, 0xE5, 0x41, 0x57, 0x41, 0x56, 0x41, 0x55, 0x41, 0x54,
    0x53, 0x48, 0x81, 0xEC, 0x88, 0x04, 0x00, 0x00]"
definition KDalDmLoggerShouldLogPartialPattern :: "byte list" where
  "KDalDmLoggerShouldLogPartialPattern = [0x48, 0x8D, 0x0D, 0x00, 0x00, 0x00, 0x00, 0x8B, 0x04, 0x81,
    0x0F, 0xA3, 0xD0, 0x0F, 0x92, 0xC0]"
definition KDalDmLoggerShouldLogPartialPatternMask :: "byte list" where
  "KDalDmLoggerShouldLogPartialPatternMask = [0xFF, 0xFF, 0xFF, 0x00, 0x00, 0x00, 0x00, 0xFF, 0xFF,
    0xFF, 0xFF, 0xFF, 0xFF, 0xFF, 0xFF, 0xFF]"
definition KInitPopulateDcInitDataOriginal :: "byte list" where
  "KInitPopulateDcInitDataOriginal = [0x48, 0xB9, 0xDB, 0x1B, 0xFF, 0x7E, 0x10, 0x00, 0x00, 0x00]"
definition KInitPopulateDcInitDataPatched :: "byte list" where
  "KInitPopulateDcInitDataPatched = [0x48, 0xB9, 0xFF, 0xFF, 0xFF, 0xFF, 0xFF, 0xFF, 0xFF, 0xFF]"
definition KBIOSParserHelperInitWithDataOriginal :: "byte list" where
  "KBIOSParserHelperInitWithDataOriginal = [0x08, 0xC7, 0x07, 0x01, 0x00, 0x00, 0x00]"
definition KBIOSParserHelperInitWithDataPatched :: "byte list" where
  "KBIOSParserHelperInitWithDataPatched = [0x08, 0xC7, 0x07, 0xFF, 0x00, 0x00, 0x00]"

definition Debug_StartModule :: "bool \<Rightarrow> stored_callback \<Rightarrow> bool \<Rightarrow> liluapi \<Rightarrow> (bool \<times> liluapi) res" where
  "Debug_StartModule debugEnabled process loaded a =
     (if loaded then Inl (Panic ''DebugEnabler'')
      else if \<not> debugEnabled then Inr (True, a)
      else res_bind (onKextLoadForce (Some [RadeonX6000FramebufferKext]) None a)
             (\<lambda>a1. res_bind (onKextLoadForce None (Some process) a1) (\<lambda>a2. Inr (True, a2))))"

record debugHooks =
  dbg_index :: nat
  to_InitWithPCIInfo :: addr
  at_InitWithPCIInfo :: addr
  to_DoGPUPanic :: addr
  to_DMLoggerWrite :: addr

definition SetProperty32Bit :: "string \<Rightarrow> u32 \<Rightarrow> pcidev \<Rightarrow> pcidev" where
  "SetProperty32Bit key v d = setProperty key (nat_le 4 (unat v)) d"

definition debugProperties :: "(string \<times> u32) list" where
  "debugProperties =
     [(''PP_LogLevel'', 0xFFFF), (''PP_LogSource'', 0xFFFFFFFF), (''PP_LogDestination'', 0xFFFFFFFF),
      (''PP_LogField'', 0xFFFFFFFF), (''PP_DumpRegister'', 1), (''PP_DumpSMCTable'', 1), (''PP_LogDumpTableBuffers'', 1)]"

definition debugRequests :: "debugHooks \<Rightarrow> patternRouteRequest list" where
  "debugRequests hk =
     [\<lparr>rq_symbol = Some ''__ZN24AMDRadeonX6000_AmdLogger15initWithPciInfoEP11IOPCIDevice'', rq_from = 0,
       rq_to = to_InitWithPCIInfo hk, rq_org = Some (at_InitWithPCIInfo hk), pr_pattern = None, pr_mask = None, pr_patternSize = 0\<rparr>,
      \<lparr>rq_symbol = Some ''__ZN34AMDRadeonX6000_AmdRadeonController10doGPUPanicEPKcz'', rq_from = 0,
       rq_to = to_DoGPUPanic hk, rq_org = None, pr_pattern = None, pr_mask = None, pr_patternSize = 0\<rparr>,
      \<lparr>rq_symbol = Some ''_dm_logger_write'', rq_from = 0, rq_to = to_DMLoggerWrite hk, rq_org = None,
       pr_pattern = Some KDmLoggerWritePattern, pr_mask = None, pr_patternSize = length KDmLoggerWritePattern\<rparr>]"

text \<open>The address of the log masks: the symbol, or the operand of the instruction that loads it.\<close>

definition logMaskAddress :: "nat \<Rightarrow> addr \<Rightarrow> u64 \<Rightarrow> 'a kpatcher_scheme \<Rightarrow> (addr \<times> 'a kpatcher_scheme) res" where
  "logMaskAddress ident slide sz s =
     res_bind (solveSymbolRange ident ''__ZN14AmdDalDmLogger19LogEnableMaskMinorsE'' slide sz False s)
       (\<lambda>(LogEnableMaskMinors, s1).
          let s2 = clearError s1
          in if LogEnableMaskMinors \<noteq> 0 then Inr (LogEnableMaskMinors, s2)
             else case findPattern KDalDmLoggerShouldLogPartialPattern (Some KDalDmLoggerShouldLogPartialPatternMask)
                         (length KDalDmLoggerShouldLogPartialPattern) (kmem s2) slide (unat sz) 0 of
               None \<Rightarrow> Inl (Panic ''DebugEnabler'')
             | Some off \<Rightarrow>
                 let InstAddress = slide + of_nat off
                 in Inr (InstAddress + 7 + scast (load32 (kmem s2) (InstAddress + 3)), s2))"

definition enableLogMasks :: "nat \<Rightarrow> addr \<Rightarrow> u64 \<Rightarrow> 'a kpatcher_scheme action" where
  "enableLogMasks ident slide sz s =
     (case logMaskAddress ident slide sz s of
        Inl e \<Rightarrow> Some (Inl e)
      | Inr (a, s1) \<Rightarrow> in_window ''DebugEnabler'' (\<lambda>m. store_bytes m a (replicate 0x80 0xFF)) s1)"

definition debugPatches :: "debugHooks \<Rightarrow> maskedLookupPatch list" where
  "debugPatches hk =
     (let kext = RadeonX6000FramebufferKext\<lparr>loadIndex := dbg_index hk\<rparr>
      in [maskedPatch kext KInitPopulateDcInitDataOriginal None KInitPopulateDcInitDataPatched None 1,
          maskedPatch kext KBIOSParserHelperInitWithDataOriginal None KBIOSParserHelperInitWithDataPatched None 1])"

definition debugSteps :: "debugHooks \<Rightarrow> nat \<Rightarrow> addr \<Rightarrow> u64 \<Rightarrow> 'a kpatcher_scheme action list" where
  "debugSteps hk ident slide sz =
     [required ''DebugEnabler'' (try_RouteAll ident (debugRequests hk) slide sz), enableLogMasks ident slide sz]
     @ map (\<lambda>p. required ''DebugEnabler'' (Apply slide sz p)) (debugPatches hk)"

definition ProcessX6000FB :: "debugHooks \<Rightarrow> nat \<Rightarrow> addr \<Rightarrow> u64 \<Rightarrow> (pcidev \<times> 'a kpatcher_scheme) action" where
  "ProcessX6000FB hk ident slide sz st =
     (case act_seq (debugSteps hk ident slide sz) (snd st) of
        None \<Rightarrow> None
      | Some r \<Rightarrow> Some (res_bind r (\<lambda>s1. Inr (fold (\<lambda>(k, v). SetProperty32Bit k v) debugProperties (fst st), s1))))"

definition Debug_ProcessKext :: "debugHooks \<Rightarrow> nat \<Rightarrow> addr \<Rightarrow> u64 \<Rightarrow> (pcidev \<times> 'a kpatcher_scheme) action" where
  "Debug_ProcessKext hk ident slide sz st =
     (if dbg_index hk = ident then ProcessX6000FB hk ident slide sz st else Some (Inr st))"

section \<open>Hooks of the debug module\<close>

definition WrapSomethingWithPCIInfo :: "(addr \<Rightarrow> mem \<Rightarrow> bool \<times> mem) \<Rightarrow> addr \<Rightarrow> mem \<Rightarrow> bool \<times> mem" where
  "WrapSomethingWithPCIInfo org obj m =
     (let (r, m1) = org obj m;
          m2 = store64 m1 (obj + 0x28) 0xFFFFFFFFFFFFFFFF
      in (r, store32 m2 (obj + 0x30) 0xFF))"

definition PRINT_FUNC_ENTRY_EXIT :: u32 where "PRINT_FUNC_ENTRY_EXIT = 0x40"

text \<open>The original's result and the value it left; \<open>Name\<close> and \<open>Value\<close> may be null.\<close>

definition WrapGetNumericProperty :: "bool \<Rightarrow> string option \<Rightarrow> u32 option \<Rightarrow> bool \<times> u32 option" where
  "WrapGetNumericProperty ReturnValue Name Value1 =
     (if Name \<noteq> Some ''GpuDebugPolicy'' then (ReturnValue, Value1)
      else (True, map_option (\<lambda>v. if ReturnValue then v OR PRINT_FUNC_ENTRY_EXIT else PRINT_FUNC_ENTRY_EXIT) Value1))"

definition LogTypes :: "string list" where
  "LogTypes = [''Error'', ''Warning'', ''Debug'', ''DC_Interface'', ''DTN'', ''Surface'', ''HW_Hotplug'', ''HW_LKTN'',
    ''HW_Mode'', ''HW_Resume'', ''HW_Audio'', ''HW_HPDIRQ'', ''MST'', ''Scaler'', ''BIOS'', ''BWCalcs'', ''BWValidation'', ''I2C_AUX'',
    ''Sync'', ''Backlight'', ''Override'', ''Edid'', ''DP_Caps'', ''Resource'', ''DML'', ''Mode'', ''Detect'', ''LKTN'', ''LinkLoss'',
    ''Underflow'', ''InterfaceTrace'', ''PerfTrace'', ''DisplayStats'']"

definition strnlen :: "mem \<Rightarrow> addr \<Rightarrow> nat \<Rightarrow> nat" where
  "strnlen m a n = scan_while (\<lambda>i. m (a + of_nat i) \<noteq> 0) 0 n"

text \<open>What is printed, when the message has been formatted into the buffer.  The index of the last character
  is computed in 64 bits.\<close>

definition DMLoggerWrite :: "mem \<Rightarrow> addr \<Rightarrow> u32 \<Rightarrow> byte list" where
  "DMLoggerWrite m Message LogType =
     (let n = strnlen m Message 0x1000;
          Epilogue = (if m (Message + (of_nat n - 1)) = 0x0A then [] else [0x0A]);
          text = load_bytes m Message n @ Epilogue
      in if unat LogType < length LogTypes then cbytes ''['' @ cbytes (LogTypes ! unat LogType) @ [0x5D, 0x09] @ text else text)"

lemma keeps_enableLogMasks [keeps_rules]: "keeps bare_metal cpu_view (enableLogMasks ident slide sz)"
  unfolding keeps_def
proof (intro allI impI)
  fix s t :: "'a kpatcher_scheme"
  assume b: "bare_metal s" and r: "enableLogMasks ident slide sz s = Some (Inr t)"
  from r obtain a s1 where a: "logMaskAddress ident slide sz s = Inr (a, s1)"
    and w: "in_window ''DebugEnabler'' (\<lambda>m. store_bytes m a (replicate 0x80 0xFF)) s1 = Some (Inr t)"
    by (auto simp: enableLogMasks_def split: sum.split_asm)
  from a have v: "cpu_view s1 = cpu_view s"
    by (auto simp: logMaskAddress_def res_bind_eq_Inr Let_def dest!: view_solveSymbolRange split: if_split_asm option.split_asm)
  from keepsD [OF keeps_in_window view_bare [OF v b] w] v show "cpu_view t = cpu_view s" by simp
qed

lemma keeps_Debug: "keeps (\<lambda>p. bare_metal (snd p)) (\<lambda>p. cpu_view (snd p)) (Debug_ProcessKext hk ident slide sz)"
  unfolding keeps_def
proof (intro allI impI)
  fix st t :: "pcidev \<times> 'a kpatcher_scheme"
  assume b: "bare_metal (snd st)" and r: "Debug_ProcessKext hk ident slide sz st = Some (Inr t)"
  have k: "keeps bare_metal cpu_view (act_seq (debugSteps hk ident slide sz))"
    by (rule kv.keeps_seq) (simp add: debugSteps_def list_all_iff keeps_rules)
  from r have "act_seq (debugSteps hk ident slide sz) (snd st) = Some (Inr (snd t)) \<or> t = st"
    by (auto simp: Debug_ProcessKext_def ProcessX6000FB_def res_bind_eq_Inr split: if_split_asm option.split_asm)
  then show "cpu_view (snd t) = cpu_view (snd st)"
  proof
    assume "act_seq (debugSteps hk ident slide sz) (snd st) = Some (Inr (snd t))"
    from keepsD [OF k b this] show ?thesis .
  qed simp
qed

interpretation debug_module: kext_module "\<lambda>p. bare_metal (snd p)" "\<lambda>p. cpu_view (snd p)" "Debug_ProcessKext hk" "[dbg_index hk]"
  by unfold_locales (auto simp: Debug_ProcessKext_def keeps_Debug)

section \<open>Properties of the debug module\<close>

lemma solveSymbolRange_kmem: "solveSymbolRange ident y start sz crash s = Inr (a, s') \<Longrightarrow> kmem s' = kmem s"
  by (auto simp: solveSymbolRange_def solveSymbol_def Let_def split: if_split_asm)

text \<open>C37: when the kext does not export the log masks, they are found through the instruction that loads
  their address: the 128 bytes at the address the processor computes for it become \<open>0xFF\<close>, no other byte
  changes, and the processor's state is given back; without such an instruction the module panics.\<close>

theorem enableLogMasks_operand:
  assumes "bare_metal s" and "solveSymbolRange ident ''__ZN14AmdDalDmLogger19LogEnableMaskMinorsE'' slide sz False s = Inr (0, s1)"
  defines "occ \<equiv> occurs_at KDalDmLoggerShouldLogPartialPattern (Some KDalDmLoggerShouldLogPartialPatternMask) 16 (kmem s) slide"
  shows "((\<forall>p. p + 16 \<le> unat sz \<longrightarrow> \<not> occ p) \<longrightarrow> enableLogMasks ident slide sz s = Some (Inl (Panic ''DebugEnabler'')))
    \<and> (\<forall>p. p + 16 \<le> unat sz \<and> occ p \<and> (\<forall>q < p. \<not> occ q) \<longrightarrow>
         (\<exists>t. enableLogMasks ident slide sz s = Some (Inr t) \<and> cpu_view t = cpu_view s
            \<and> (\<forall>x. kmem t x = (if unat (x - (slide + of_nat p + 7 + of_int (sint (load32 (kmem s) (slide + of_nat p + 3))))) < 128
                                then 0xFF else kmem s x))))"
proof -
  let ?find = "findPattern KDalDmLoggerShouldLogPartialPattern (Some KDalDmLoggerShouldLogPartialPatternMask) 16 (kmem s) slide (unat sz) 0"
  have s1: "kmem s1 = kmem s" "cpu_view s1 = cpu_view s"
    using assms(2) view_solveSymbolRange [OF assms(2)] by (simp_all add: solveSymbolRange_kmem)
  have l: "length KDalDmLoggerShouldLogPartialPattern = 16" by (simp add: KDalDmLoggerShouldLogPartialPattern_def)
  have a: "logMaskAddress ident slide sz s =
      (case ?find of None \<Rightarrow> Inl (Panic ''DebugEnabler'')
       | Some off \<Rightarrow> Inr (slide + of_nat off + 7 + scast (load32 (kmem s) (slide + of_nat off + 3)), clearError s1))"
    using assms(2) s1(1) by (simp add: logMaskAddress_def l Let_def clearError_def split: option.split)
  have none: "?find = None" if "\<forall>p. p + 16 \<le> unat sz \<longrightarrow> \<not> occ p"
    using that by (cases ?find) (auto simp: occ_def dest: findPattern_SomeD)
  have some: "\<exists>t. enableLogMasks ident slide sz s = Some (Inr t) \<and> cpu_view t = cpu_view s
      \<and> (\<forall>x. kmem t x = (if unat (x - (slide + of_nat p + 7 + of_int (sint (load32 (kmem s) (slide + of_nat p + 3))))) < 128
                          then 0xFF else kmem s x))"
    if p: "p + 16 \<le> unat sz" "occ p" "\<forall>q < p. \<not> occ q" for p
  proof -
    let ?a = "slide + of_nat p + 7 + scast (load32 (kmem s) (slide + of_nat p + 3))"
    have f: "?find = Some p" using p by (intro findPattern_SomeI) (auto simp: occ_def)
    have v: "cpu_view (clearError s1) = cpu_view s" using s1(2) by simp
    from in_window_eq [OF view_bare [OF v assms(1)], of "''DebugEnabler''" "\<lambda>m. store_bytes m ?a (replicate 0x80 0xFF)"]
    obtain t where t: "in_window ''DebugEnabler'' (\<lambda>m. store_bytes m ?a (replicate 0x80 0xFF)) (clearError s1) = Some (Inr t)"
      "kmem t = store_bytes (kmem (clearError s1)) ?a (replicate 0x80 0xFF)" "cpu_view t = cpu_view (clearError s1)" by blast
    have "enableLogMasks ident slide sz s = Some (Inr t)" using a f t(1) by (simp add: enableLogMasks_def)
    moreover have "kmem (clearError s1) = kmem s" using s1(1) by (simp add: clearError_def)
    ultimately show ?thesis using t v
      by (intro exI [of _ t]) (simp add: store_bytes_def)
  qed
  show ?thesis
  proof (intro conjI impI allI)
    assume "\<forall>p. p + 16 \<le> unat sz \<longrightarrow> \<not> occ p"
    from none [OF this] show "enableLogMasks ident slide sz s = Some (Inl (Panic ''DebugEnabler''))"
      by (simp add: enableLogMasks_def a)
  qed (elim conjE, rule some)
qed

lemma scan_while_cong:
  "(\<And>j. i \<le> j \<Longrightarrow> j < n \<Longrightarrow> f j = g j) \<Longrightarrow> scan_while f i n = scan_while g i n"
proof (induction f i n rule: scan_while.induct)
  case (1 f i n)
  show ?case
  proof (cases "i < n \<and> f i")
    case True
    with 1 have "scan_while f (Suc i) n = scan_while g (Suc i) n" "g i" by auto
    with True show ?thesis by (subst (1 2) scan_while.simps) simp
  next
    case False
    with "1.prems" [of i] show ?thesis by (subst (1 2) scan_while.simps) auto
  qed
qed

lemma strnlen_bounds:
  fixes m :: mem and a :: addr and n :: nat
  shows "strnlen m a n \<le> n" "0 < n \<Longrightarrow> strnlen m a n = 0 \<longleftrightarrow> m a = 0"
proof -
  have ge: "i \<le> scan_while f i k" for f i k
  proof (induction f i k rule: scan_while.induct)
    case (1 f i k)
    then show ?case by (subst scan_while.simps) auto
  qed
  show "strnlen m a n \<le> n" by (simp add: strnlen_def scan_while_le)
  assume "0 < n"
  with ge [of 1 "\<lambda>i. m (a + of_nat i) \<noteq> 0" n] show "strnlen m a n = 0 \<longleftrightarrow> m a = 0"
    unfolding strnlen_def by (subst scan_while.simps) auto
qed

lemma agree_nth: "agree m m' a n \<Longrightarrow> n \<le> 2 ^ 64 \<Longrightarrow> i < n \<Longrightarrow> m (a + of_nat i) = m' (a + of_nat i)"
  by (simp add: agree_def unsigned_of_nat take_bit_nat_eq_self)

text \<open>The message printed by the display core's logger is a function of its buffer, and ends with a
  newline, as long as the message is not empty; for an empty message the byte in front of the buffer
  decides whether a newline is printed.\<close>

theorem DMLoggerWrite_empty:
  "(m Message \<noteq> 0 \<longrightarrow> last (DMLoggerWrite m Message LogType) = 0x0A)
   \<and> (m Message \<noteq> 0 \<and> agree m m' Message 0x1000 \<longrightarrow> DMLoggerWrite m' Message LogType = DMLoggerWrite m Message LogType)
   \<and> (m Message = 0 \<and> b \<noteq> 0x0A \<longrightarrow>
        DMLoggerWrite (m(Message - 1 := b)) Message LogType = DMLoggerWrite (m(Message - 1 := 0x0A)) Message LogType @ [0x0A])"
proof (intro conjI impI)
  let ?n = "strnlen m Message 0x1000"
  {
    assume m: "m Message \<noteq> 0"
    then obtain k where k: "?n = Suc k"
      using strnlen_bounds(2) [of "0x1000" m Message] by (cases ?n) auto
    have "last (load_bytes m Message (Suc k)) = m (Message + of_nat k)"
      by (simp add: load_bytes_def)
    then show "last (DMLoggerWrite m Message LogType) = 0x0A"
      unfolding DMLoggerWrite_def k Let_def by (auto simp: load_bytes_def)
  }
  {
    assume a: "m Message \<noteq> 0 \<and> agree m m' Message 0x1000"
    then obtain k where k: "?n = Suc k" "k < 0x1000"
      using strnlen_bounds(1) [of m Message "0x1000"] strnlen_bounds(2) [of "0x1000" m Message] by (cases ?n) auto
    have e: "m (Message + of_nat j) = m' (Message + of_nat j)" if "j < 0x1000" for j using a that by (intro agree_nth) auto
    have s: "strnlen m' Message 0x1000 = Suc k" unfolding k(1) [symmetric] strnlen_def by (rule scan_while_cong) (simp add: e)
    have l: "load_bytes m' Message (Suc k) = load_bytes m Message (Suc k)" using k(2) e by (simp add: load_bytes_def)
    show "DMLoggerWrite m' Message LogType = DMLoggerWrite m Message LogType"
      unfolding DMLoggerWrite_def k(1) s l Let_def using e [OF k(2)] by simp
  }
  assume z: "m Message = 0 \<and> b \<noteq> 0x0A"
  have "strnlen (m(Message - 1 := c)) Message 0x1000 = 0" for c using strnlen_bounds(2) [of "0x1000"] z by simp
  with z show "DMLoggerWrite (m(Message - 1 := b)) Message LogType = DMLoggerWrite (m(Message - 1 := 0x0A)) Message LogType @ [0x0A]"
    by (simp add: DMLoggerWrite_def Let_def load_bytes_def)
qed

theorem DMLoggerWrite_empty_witness:
  "DMLoggerWrite ((\<lambda>_. 0)(0x1000 - 1 := 7)) 0x1000 99 = DMLoggerWrite ((\<lambda>_. 0)(0x1000 - 1 := 0x0A)) 0x1000 99 @ [0x0A]"
  using DMLoggerWrite_empty [of "\<lambda>_. 0" "0x1000" 99 "\<lambda>_. 0" 7] by simp

definition demo_log_kp :: kpatcher where
  "demo_log_kp = demo_kp\<lparr>kmem := store_bytes (\<lambda>_. 0) 0x3000
     [0x48, 0x8D, 0x0D, 0x00, 0x01, 0x00, 0x00, 0x8B, 0x04, 0x81, 0x0F, 0xA3, 0xD0, 0x0F, 0x92, 0xC0]\<rparr>"

theorem enableLogMasks_operand_witness:
  "\<exists>t. enableLogMasks 0 0x3000 0x20 demo_log_kp = Some (Inr t) \<and> kmem t 0x3107 = 0xFF \<and> kmem t 0x3187 = 0"
proof -
  let ?y = "''__ZN14AmdDalDmLogger19LogEnableMaskMinorsE''"
  have b: "bare_metal demo_log_kp" using demo_kp_ready by (simp add: route_ready_def bare_metal_def demo_log_kp_def)
  have "fst (solveSymbol 0 ?y demo_log_kp) = 0" by code_simp
  then obtain s1 where s: "solveSymbolRange 0 ?y 0x3000 0x20 False demo_log_kp = Inr (0, s1)"
    by (cases "solveSymbol 0 ?y demo_log_kp") (auto simp: solveSymbolRange_def)
  have o: "occurs_at KDalDmLoggerShouldLogPartialPattern (Some KDalDmLoggerShouldLogPartialPatternMask) 16 (kmem demo_log_kp) 0x3000 0"
    by code_simp
  have d: "load32 (kmem demo_log_kp) 0x3003 = 0x100" "kmem demo_log_kp 0x3187 = 0" by code_simp+
  let ?occ = "occurs_at KDalDmLoggerShouldLogPartialPattern (Some KDalDmLoggerShouldLogPartialPatternMask) 16 (kmem demo_log_kp) 0x3000"
  have h: "0 + 16 \<le> unat (0x20 :: u64) \<and> ?occ 0 \<and> (\<forall>q < 0. \<not> ?occ q)" using o by simp
  from enableLogMasks_operand [OF b s, THEN conjunct2, rule_format, OF h] obtain t where
    t: "enableLogMasks 0 0x3000 0x20 demo_log_kp = Some (Inr t)" and
    m: "\<forall>x. kmem t x = (if unat (x - (0x3000 + of_nat 0 + 7 + of_int (sint (load32 (kmem demo_log_kp) (0x3000 + of_nat 0 + 3))))) < 128
          then 0xFF else kmem demo_log_kp x)" by blast
  have "kmem t x = (if unat (x - 0x3107) < 128 then 0xFF else kmem demo_log_kp x)" for x
    using m [THEN spec, of x] d(1) by simp
  from this [of "0x3107"] this [of "0x3187"] d(2) t show ?thesis by auto
qed

section \<open>The tables of the modules\<close>

definition wf_mask :: "byte list \<Rightarrow> byte list option \<Rightarrow> bool" where
  "wf_mask p m \<longleftrightarrow> (case m of None \<Rightarrow> True | Some k \<Rightarrow> length k = length p \<and> list_all2 (\<lambda>x y. x AND y = x) p k)"

definition wf_pattern :: "byte list option \<Rightarrow> byte list option \<Rightarrow> nat \<Rightarrow> bool" where
  "wf_pattern p m n \<longleftrightarrow> (case p of None \<Rightarrow> m = None \<and> n = 0 | Some ps \<Rightarrow> 0 < n \<and> n = length ps \<and> wf_mask ps m)"

definition wf_patch :: "maskedLookupPatch \<Rightarrow> bool" where
  "wf_patch p \<longleftrightarrow> 0 < lp_size p \<and> length (lp_find p) = lp_size p \<and> length (lp_replace p) = lp_size p \<and> 0 < lp_count p
     \<and> wf_mask (lp_find p) (ml_findMask p) \<and> wf_mask (lp_replace p) (ml_replaceMask p)"

text \<open>A well-formed pattern matches the bytes it is made of.\<close>

lemma wf_pattern_matches:
  assumes "wf_pattern (Some ps) m n" and "n < 2 ^ 64"
  shows "findPattern ps m n (store_bytes mm a ps) a n 0 = Some 0"
proof (rule findPattern_SomeI)
  have n: "0 < n" "n = length ps" "wf_mask ps m" using assms(1) by (auto simp: wf_pattern_def)
  show "0 < n" by (rule n)
  have e: "store_bytes mm a ps (a + of_nat i) = ps ! i" if "i < n" for i
    by (rule store_bytes_at) (use that assms(2) n(2) in simp_all)
  have k: "mask_at m i (ps ! i) = ps ! i" if "i < n" for i
  proof (cases m)
    case (Some k)
    with n(3) have "list_all2 (\<lambda>x y. x AND y = x) ps k" by (simp add: wf_mask_def)
    from list_all2_nthD [OF this, of i] that n(2) Some show ?thesis by (simp add: mask_at_def)
  qed (simp add: mask_at_def)
  show "occurs_at ps m n (store_bytes mm a ps) a 0"
    unfolding occurs_at_def by (intro allI impI) (simp add: e k)
qed auto

definition moduleRoutes :: "bool \<Rightarrow> blHooks \<Rightarrow> fbHooks \<Rightarrow> hotfixHooks \<Rightarrow> debugHooks \<Rightarrow> patternRouteRequest list" where
  "moduleRoutes b bl fb hf dbg = framebufferRoutes bl @ fbRequests fb @ [dpRequest b hf, powerUpRequest hf] @ debugRequests dbg"

definition moduleSolves :: "bool \<Rightarrow> blHooks \<Rightarrow> fbHooks \<Rightarrow> hotfixHooks \<Rightarrow> patternSolveRequest list" where
  "moduleSolves b bl fb hf = [setLevelRequest b bl, setLevelNitsRequest bl, capsRequest fb, messageRequest hf]"

definition modulePatches :: "bool \<Rightarrow> ndeckAttributes \<Rightarrow> nat \<Rightarrow> blHooks \<Rightarrow> fbHooks \<Rightarrow> hotfixHooks \<Rightarrow> debugHooks \<Rightarrow> maskedLookupPatch list" where
  "modulePatches b attrs idx bl fb hf dbg =
     [panelPatch bl, deviceInfoPatch fb] @ fbPatches b fb @ agdpPatches attrs idx @ hotfixPatches hf @ debugPatches dbg"

lemmas pattern_defs = KLinkCreatePattern_def KLinkCreatePatternMask_def KDcLinkSetBacklightLevelPattern_def
  KDcLinkSetBacklightLevelPattern1404_def KDcLinkSetBacklightLevelNitsPattern_def KDcLinkSetBacklightLevelNitsPatternMask_def
  KCailAsicCapsTablePattern_def KPopulateVramInfoPattern_def KPopulateVramInfoPatternMask_def KGetNumberOfConnectorsPattern_def
  KGetNumberOfConnectorsPatternMask_def KDpReceiverPowerCtrlPattern_def KDpReceiverPowerCtrlPattern1404_def KDmLoggerWritePattern_def

lemmas patch_defs = KPopulateDeviceInfoOriginal_def KPopulateDeviceInfoMask_def KPopulateDeviceInfoPatched_def
  KGetFirmwareInfoNullCheckOriginal_def KGetFirmwareInfoNullCheckOriginalMask_def KGetFirmwareInfoNullCheckPatched_def
  KGetFirmwareInfoNullCheckPatchedMask_def KGetFirmwareInfoNullCheckOriginal1404_def KGetFirmwareInfoNullCheckOriginalMask1404_def
  KGetFirmwareInfoNullCheckPatched1404_def KGetFirmwareInfoNullCheckPatchedMask1404_def KGetVendorInfoOriginal_def
  KGetVendorInfoMask_def KGetVendorInfoPatched_def KGetVendorInfoPatchedMask_def KGetVendorInfoOriginal1404_def
  KGetVendorInfoMask1404_def KGetVendorInfoPatched1404_def KGetVendorInfoPatchedMask1404_def KAGDPFBCountCheckOriginal_def
  KAGDPFBCountCheckPatched_def KAGDPFBCountCheckOriginal13_def KAGDPFBCountCheckPatched13_def KAGDPBoardIDKeyOriginal_def
  KAGDPBoardIDKeyPatched_def KControllerPowerUpOriginal_def KControllerPowerUpOriginalMask_def KControllerPowerUpReplace_def
  KControllerPowerUpReplaceMask_def KValidateDetailedTimingOriginal_def KValidateDetailedTimingPatched_def
  KInitPopulateDcInitDataOriginal_def KInitPopulateDcInitDataPatched_def KBIOSParserHelperInitWithDataOriginal_def
  KBIOSParserHelperInitWithDataPatched_def

lemma routes_wf: "list_all (\<lambda>r. wf_pattern (pr_pattern r) (pr_mask r) (pr_patternSize r)) (moduleRoutes b bl fb hf dbg)"
  by (simp add: moduleRoutes_def framebufferRoutes_def fbRequests_def dpRequest_def powerUpRequest_def debugRequests_def
      wf_pattern_def wf_mask_def pattern_defs Let_def)

lemma solves_wf: "list_all (\<lambda>r. wf_pattern (ps_pattern r) (ps_mask r) (ps_patternSize r)) (moduleSolves b bl fb hf)"
  by (simp add: moduleSolves_def setLevelRequest_def setLevelNitsRequest_def capsRequest_def messageRequest_def
      wf_pattern_def wf_mask_def pattern_defs Let_def)

lemma patches_wf: "list_all wf_patch (modulePatches b attrs idx bl fb hf dbg)"
  by (simp add: modulePatches_def panelPatch_def deviceInfoPatch_def fbPatches_def agdpPatches_def hotfixPatches_def debugPatches_def
      maskedPatch_def wf_patch_def wf_mask_def patch_defs cstr_def Let_def)

end
