(* ===== verification/Lilu_Sha256.thy ===== *)
theory Lilu_Sha256
  imports Kern_Prelude
begin

text \<open>
  SHA-256 (\<^verbatim>\<open>Lilu/sha256/sha256.c\<close>): the compression function, and the incremental interface that keeps the
  bytes of an unfinished block in a context.  Against it stands the standard's definition: the message
  schedule as a recurrence, the padding of a whole message, and the fold of the compression function over
  its blocks.
\<close>

section \<open>The implementation\<close>

unbundle bit_operations_syntax

record SHA256_CTX =
  sha_data :: "byte list"
  datalen :: u32
  bitlen :: u64
  sha_state :: "u32 list"

definition ROTRIGHT :: "u32 \<Rightarrow> nat \<Rightarrow> u32" where "ROTRIGHT a b = drop_bit b a OR push_bit (32 - b) a"
definition CH :: "u32 \<Rightarrow> u32 \<Rightarrow> u32 \<Rightarrow> u32" where "CH x y z = (x AND y) XOR (NOT x AND z)"
definition MAJ :: "u32 \<Rightarrow> u32 \<Rightarrow> u32 \<Rightarrow> u32" where "MAJ x y z = (x AND y) XOR (x AND z) XOR (y AND z)"
definition EP0 :: "u32 \<Rightarrow> u32" where "EP0 x = ROTRIGHT x 2 XOR ROTRIGHT x 13 XOR ROTRIGHT x 22"
definition EP1 :: "u32 \<Rightarrow> u32" where "EP1 x = ROTRIGHT x 6 XOR ROTRIGHT x 11 XOR ROTRIGHT x 25"
definition SIG0 :: "u32 \<Rightarrow> u32" where "SIG0 x = ROTRIGHT x 7 XOR ROTRIGHT x 18 XOR drop_bit 3 x"
definition SIG1 :: "u32 \<Rightarrow> u32" where "SIG1 x = ROTRIGHT x 17 XOR ROTRIGHT x 19 XOR drop_bit 10 x"

text \<open>The constants, a list for every line of the table in the source.\<close>

definition sha_k :: "u32 list" where
  "sha_k = concat [
    [0x428a2f98, 0x71374491, 0xb5c0fbcf, 0xe9b5dba5, 0x3956c25b, 0x59f111f1, 0x923f82a4, 0xab1c5ed5],
    [0xd807aa98, 0x12835b01, 0x243185be, 0x550c7dc3, 0x72be5d74, 0x80deb1fe, 0x9bdc06a7, 0xc19bf174],
    [0xe49b69c1, 0xefbe4786, 0x0fc19dc6, 0x240ca1cc, 0x2de92c6f, 0x4a7484aa, 0x5cb0a9dc, 0x76f988da],
    [0x983e5152, 0xa831c66d, 0xb00327c8, 0xbf597fc7, 0xc6e00bf3, 0xd5a79147, 0x06ca6351, 0x14292967],
    [0x27b70a85, 0x2e1b2138, 0x4d2c6dfc, 0x53380d13, 0x650a7354, 0x766a0abb, 0x81c2c92e, 0x92722c85],
    [0xa2bfe8a1, 0xa81a664b, 0xc24b8b70, 0xc76c51a3, 0xd192e819, 0xd6990624, 0xf40e3585, 0x106aa070],
    [0x19a4c116, 0x1e376c08, 0x2748774c, 0x34b0bcb5, 0x391c0cb3, 0x4ed8aa4a, 0x5b9cca4f, 0x682e6ff3],
    [0x748f82ee, 0x78a5636f, 0x84c87814, 0x8cc70208, 0x90befffa, 0xa4506ceb, 0xbef9a3f7, 0xc67178f2]]"

text \<open>The first loop fills the words from the block, the second extends them; \<open>n\<close> counts the words still to come.\<close>

definition firstWords :: "byte list \<Rightarrow> u32 list" where
  "firstWords d = map (\<lambda>i. push_bit 24 (ucast (d ! (4 * i))) OR push_bit 16 (ucast (d ! (4 * i + 1)))
     OR push_bit 8 (ucast (d ! (4 * i + 2))) OR ucast (d ! (4 * i + 3))) [0..<16]"

fun extendWords :: "nat \<Rightarrow> u32 list \<Rightarrow> u32 list" where
  "extendWords 0 m = m"
| "extendWords (Suc n) m =
     (let i = length m
      in extendWords n (m @ [SIG1 (m ! (i - 2)) + m ! (i - 7) + SIG0 (m ! (i - 15)) + m ! (i - 16)]))"

text \<open>One round on the working variables a to h.\<close>

fun shaRound :: "u32 \<Rightarrow> u32 list \<Rightarrow> u32 list" where
  "shaRound km [a, b, c, d, e, f, g, h] =
     (let t1 = h + EP1 e + CH e f g + km;
          t2 = EP0 a + MAJ a b c
      in [t1 + t2, a, b, c, d + t1, e, f, g])"
| "shaRound km vs = vs"

definition sha256_transform :: "SHA256_CTX \<Rightarrow> SHA256_CTX" where
  "sha256_transform ctx =
     (let m = extendWords 48 (firstWords (sha_data ctx));
          vs = fold (\<lambda>i. shaRound (sha_k ! i + m ! i)) [0..<64] (sha_state ctx)
      in ctx\<lparr>sha_state := map2 (+) (sha_state ctx) vs\<rparr>)"

text \<open>The data of a fresh context is what memory held.\<close>

definition sha256_init :: "byte list \<Rightarrow> SHA256_CTX" where
  "sha256_init fresh =
     \<lparr>sha_data = fresh, datalen = 0, bitlen = 0,
      sha_state = [0x6a09e667, 0xbb67ae85, 0x3c6ef372, 0xa54ff53a, 0x510e527f, 0x9b05688c, 0x1f83d9ab, 0x5be0cd19]\<rparr>"

definition updateByte :: "byte \<Rightarrow> SHA256_CTX \<Rightarrow> SHA256_CTX" where
  "updateByte b ctx =
     (let c1 = ctx\<lparr>sha_data := (sha_data ctx)[unat (datalen ctx) := b], datalen := datalen ctx + 1\<rparr>
      in if datalen c1 = 64
         then (let c2 = sha256_transform c1 in c2\<lparr>bitlen := bitlen c2 + 512, datalen := 0\<rparr>)
         else c1)"

text \<open>The index is a 32-bit word, the length a \<open>size_t\<close>: the loop returns only if the index can reach the length.\<close>

partial_function (option) updateLoop :: "(nat \<Rightarrow> byte) \<Rightarrow> nat \<Rightarrow> u32 \<Rightarrow> SHA256_CTX \<Rightarrow> SHA256_CTX option" where
  "updateLoop d len i ctx = (if unat i < len then updateLoop d len (i + 1) (updateByte (d (unat i)) ctx) else Some ctx)"

definition sha256_update :: "(nat \<Rightarrow> byte) \<Rightarrow> nat \<Rightarrow> SHA256_CTX \<Rightarrow> SHA256_CTX option" where
  "sha256_update d len ctx = updateLoop d len 0 ctx"

function fillZero :: "nat \<Rightarrow> nat \<Rightarrow> byte list \<Rightarrow> byte list" where
  "fillZero i n d = (if i < n then fillZero (i + 1) n (d[i := 0]) else d)"
  by pat_completeness auto
termination by (relation "measure (\<lambda>(i, n, d). n - i)") auto

declare fillZero.simps [simp del]

text \<open>The eight bytes of the length, most significant first.\<close>

definition putLength :: "u64 \<Rightarrow> byte list \<Rightarrow> byte list" where
  "putLength n d = d[63 := ucast n, 62 := ucast (drop_bit 8 n), 61 := ucast (drop_bit 16 n), 60 := ucast (drop_bit 24 n),
     59 := ucast (drop_bit 32 n), 58 := ucast (drop_bit 40 n), 57 := ucast (drop_bit 48 n), 56 := ucast (drop_bit 56 n)]"

definition padBlock :: "SHA256_CTX \<Rightarrow> SHA256_CTX" where
  "padBlock ctx =
     (let i = unat (datalen ctx);
          d1 = (sha_data ctx)[i := 0x80]
      in if datalen ctx < 56 then ctx\<lparr>sha_data := fillZero (i + 1) 56 d1\<rparr>
         else let c1 = sha256_transform (ctx\<lparr>sha_data := fillZero (i + 1) 64 d1\<rparr>)
              in c1\<lparr>sha_data := fillZero 0 56 (sha_data c1)\<rparr>)"

text \<open>The output loop writes byte \<open>i\<close> of every word of the state in its \<open>i\<close>-th turn.\<close>

definition digestOf :: "u32 list \<Rightarrow> byte list" where
  "digestOf st = concat (map (\<lambda>w. map (\<lambda>i. ucast (drop_bit (24 - i * 8) w AND 0xFF)) [0..<4]) st)"

definition sha256_final :: "SHA256_CTX \<Rightarrow> byte list" where
  "sha256_final ctx =
     (let c1 = padBlock ctx;
          c2 = c1\<lparr>bitlen := bitlen c1 + ucast (datalen c1 * 8)\<rparr>;
          c3 = sha256_transform (c2\<lparr>sha_data := putLength (bitlen c2) (sha_data c2)\<rparr>)
      in digestOf (sha_state c3))"

section \<open>The standard\<close>

text \<open>The words of the message schedule as the recurrence the standard gives.\<close>

function schedule :: "byte list \<Rightarrow> nat \<Rightarrow> u32" where
  "schedule d t =
     (if t < 16 then firstWords d ! t
      else SIG1 (schedule d (t - 2)) + schedule d (t - 7) + SIG0 (schedule d (t - 15)) + schedule d (t - 16))"
  by pat_completeness auto
termination by (relation "measure snd") auto

declare schedule.simps [simp del]

definition compress_block :: "byte list \<Rightarrow> u32 list \<Rightarrow> u32 list" where
  "compress_block d h = map2 (+) h (fold (\<lambda>t. shaRound (sha_k ! t + schedule d t)) [0..<64] h)"

text \<open>The bits of a number of eight bytes, most significant byte first.\<close>

definition be64 :: "nat \<Rightarrow> byte list" where
  "be64 n = rev (nat_le 8 n)"

definition pad :: "byte list \<Rightarrow> byte list" where
  "pad msg = msg @ [0x80] @ replicate ((119 - length msg mod 64) mod 64) 0 @ be64 (8 * length msg)"

fun blocks :: "nat \<Rightarrow> byte list \<Rightarrow> byte list list" where
  "blocks 0 bs = []"
| "blocks (Suc n) bs = take 64 bs # blocks n (drop 64 bs)"

definition SHA256 :: "byte list \<Rightarrow> byte list" where
  "SHA256 msg = digestOf (fold compress_block (blocks (length (pad msg) div 64) (pad msg)) (sha_state (sha256_init [])))"

text \<open>The constants of the standard: the word that holds the first 32 bits of the fraction of an \<open>n\<close>-th root, the integer
  part of the root being at most 6.\<close>

definition firstPrimes :: "nat list" where
  "firstPrimes = [2, 3, 5, 7, 11, 13, 17, 19, 23, 29, 31, 37, 41, 43, 47, 53, 59, 61, 67, 71, 73, 79,
    83, 89, 97, 101, 103, 107, 109, 113, 127, 131, 137, 139, 149, 151, 157, 163, 167, 173, 179, 181, 191, 193,
    197, 199, 211, 223, 227, 229, 233, 239, 241, 251, 257, 263, 269, 271, 277, 281, 283, 293, 307, 311]"

definition rootBits :: "nat \<Rightarrow> nat \<Rightarrow> u32 \<Rightarrow> bool" where
  "rootBits n p w \<longleftrightarrow>
     list_ex (\<lambda>a. (a * 2 ^ 32 + unat w) ^ n \<le> p * 2 ^ (32 * n) \<and> p * 2 ^ (32 * n) < (a * 2 ^ 32 + unat w + 1) ^ n) [1, 2, 3, 4, 5, 6]"

lemma sha_k_roots: "list_all2 (rootBits 3) firstPrimes sha_k"
  by (simp add: firstPrimes_def sha_k_def rootBits_def)

lemma sha256_init_roots: "list_all2 (rootBits 2) (take 8 firstPrimes) (sha_state (sha256_init fresh))"
  by (simp add: firstPrimes_def sha256_init_def rootBits_def)

section \<open>The compression function\<close>

lemma extendWords_schedule:
  "m = map (schedule d) [0..<length m] \<Longrightarrow> 16 \<le> length m \<Longrightarrow> extendWords n m = map (schedule d) [0..<length m + n]"
proof (induction n arbitrary: m)
  case (Suc n)
  let ?i = "length m"
  let ?w = "SIG1 (m ! (?i - 2)) + m ! (?i - 7) + SIG0 (m ! (?i - 15)) + m ! (?i - 16)"
  have nth: "m ! j = schedule d j" if "j < ?i" for j
    using that Suc.prems(1) by (metis add_0 nth_map_upt diff_zero)
  have w: "?w = schedule d ?i"
    using Suc.prems(2) nth by (subst schedule.simps) simp
  have "m @ [?w] = map (schedule d) [0..<length (m @ [?w])]"
    using Suc.prems(1) w by simp
  from Suc.IH [OF this] Suc.prems(2) show ?case by (simp add: Let_def)
qed simp

lemma words_schedule: "extendWords 48 (firstWords d) = map (schedule d) [0..<64]"
proof -
  have l: "length (firstWords d) = 16" by (simp add: firstWords_def)
  have "firstWords d = map (schedule d) [0..<length (firstWords d)]"
    by (rule nth_equalityI) (simp_all add: l, subst schedule.simps, simp)
  from extendWords_schedule [OF this, of 48] l show ?thesis by simp
qed

lemma sha256_transform_eq:
  "sha256_transform ctx = ctx\<lparr>sha_state := compress_block (sha_data ctx) (sha_state ctx)\<rparr>"
proof -
  have "fold (\<lambda>i. shaRound (sha_k ! i + extendWords 48 (firstWords (sha_data ctx)) ! i)) [0..<64] s
      = fold (\<lambda>t. shaRound (sha_k ! t + schedule (sha_data ctx) t)) [0..<64] s" for s
    by (rule fold_cong) (auto simp: words_schedule)
  then show ?thesis by (simp add: sha256_transform_def compress_block_def Let_def)
qed

section \<open>The incremental interface\<close>

lemma blocks_append: "64 * n \<le> length xs \<Longrightarrow> blocks n (xs @ ys) = blocks n xs"
  by (induction n arbitrary: xs) auto

lemma blocks_Suc: "blocks (Suc n) bs = blocks n bs @ [take 64 (drop (64 * n) bs)]"
proof (induction n arbitrary: bs)
  case (Suc n)
  have "blocks (Suc (Suc n)) bs = take 64 bs # blocks n (drop 64 bs) @ [take 64 (drop (64 * n) (drop 64 bs))]"
    by (simp only: blocks.simps(2) [of "Suc n"] Suc.IH)
  also have "\<dots> = blocks (Suc n) bs @ [take 64 (drop (64 * Suc n) bs)]" by (simp add: add.commute)
  finally show ?case .
qed simp

text \<open>A context that has taken in the bytes \<open>msg\<close>.\<close>

definition holds :: "byte list \<Rightarrow> SHA256_CTX \<Rightarrow> bool" where
  "holds msg ctx \<longleftrightarrow> length (sha_data ctx) = 64 \<and> datalen ctx = of_nat (length msg mod 64)
     \<and> take (length msg mod 64) (sha_data ctx) = drop (64 * (length msg div 64)) msg
     \<and> bitlen ctx = of_nat (512 * (length msg div 64))
     \<and> sha_state ctx = fold compress_block (blocks (length msg div 64) msg) (sha_state (sha256_init []))"

lemma holds_init: "length fresh = 64 \<Longrightarrow> holds [] (sha256_init fresh)"
  by (simp add: holds_def sha256_init_def)

lemma holds_iff:
  assumes "length msg = 64 * q + r" and "r < 64"
  shows "holds msg ctx \<longleftrightarrow> length (sha_data ctx) = 64 \<and> datalen ctx = of_nat r \<and> take r (sha_data ctx) = drop (64 * q) msg
     \<and> bitlen ctx = of_nat (512 * q) \<and> sha_state ctx = fold compress_block (blocks q msg) (sha_state (sha256_init []))"
proof -
  have "length msg div 64 = q" "length msg mod 64 = r" using assms by simp_all
  then show ?thesis by (simp add: holds_def)
qed

lemma unat_of_nat_small32: "n < 2 ^ 32 \<Longrightarrow> unat (of_nat n :: u32) = n"
  by (simp add: unsigned_of_nat take_bit_nat_eq_self)

lemma take_update_Suc: "r < length d \<Longrightarrow> take (Suc r) (d[r := b]) = take r d @ [b]"
  by (simp add: take_Suc_conv_app_nth)

lemma updateByte_holds:
  assumes "holds msg ctx"
  shows "holds (msg @ [b]) (updateByte b ctx)"
proof -
  obtain q r where l: "length msg = 64 * q + r" "r < 64" by (metis mod_less_divisor mult_div_mod_eq zero_less_numeral)
  let ?d = "(sha_data ctx)[r := b]"
  note H = assms [unfolded holds_iff [OF l]]
  have u: "unat (datalen ctx) = r" using H l(2) by (simp add: unat_of_nat_small32)
  have t: "take (Suc r) ?d = drop (64 * q) (msg @ [b])" using H l by (simp add: take_update_Suc)
  have n: "datalen ctx + 1 = of_nat (Suc r)" using H by simp
  have n64: "datalen ctx + 1 = 64 \<longleftrightarrow> r = 63"
  proof -
    have "unat (datalen ctx + 1) = Suc r" unfolding n using l(2) by (intro unat_of_nat_small32) simp
    moreover have "datalen ctx + 1 = 64 \<longleftrightarrow> unat (datalen ctx + 1) = unat (64 :: u32)" by (simp only: word_unat_eq_iff)
    ultimately show ?thesis by simp
  qed
  have bl: "blocks q (msg @ [b]) = blocks q msg" using l by (simp add: blocks_append)
  show ?thesis
  proof (cases "r = 63")
    case True
    then have l': "length (msg @ [b]) = 64 * (q + 1) + 0" "(0 :: nat) < 64" using l by simp_all
    have d: "?d = take 64 (drop (64 * q) (msg @ [b]))" using t True H l by simp
    show ?thesis
      unfolding holds_iff [OF l'] using H d n64 True bl l
      by (simp add: updateByte_def u Let_def sha256_transform_eq blocks_Suc del: blocks.simps)
  next
    case False
    then have l': "length (msg @ [b]) = 64 * q + (r + 1)" "r + 1 < 64" using l by simp_all
    show ?thesis
      unfolding holds_iff [OF l'] using H t n n64 False bl u l(2) by (simp add: updateByte_def u Let_def unat_of_nat_small32)
  qed
qed

lemma update_holds: "holds msg ctx \<Longrightarrow> holds (msg @ bs) (fold updateByte bs ctx)"
proof (induction bs arbitrary: msg ctx)
  case (Cons b bs)
  from Cons.IH [OF updateByte_holds [OF Cons.prems, of b]] show ?case by simp
qed simp

lemma updateLoop_eq:
  assumes "len < 2 ^ 32"
  shows "unat i \<le> len \<Longrightarrow> updateLoop d len i ctx = Some (fold updateByte (map d [unat i..<len]) ctx)"
proof (induction "len - unat i" arbitrary: i ctx)
  case 0
  then show ?case by (subst updateLoop.simps) simp
next
  case (Suc k)
  then have i: "unat i < len" by simp
  have n: "unat (i + 1) = Suc (unat i)"
    using i assms by (simp only: unat_plus_if_size) (simp add: word_size)
  from Suc.hyps(1) [of "i + 1"] Suc.hyps(2) n i show ?case
    by (subst updateLoop.simps) (simp add: upt_conv_Cons)
qed

lemma updateLoop_returns: "updateLoop d len i ctx = Some r \<Longrightarrow> len < 2 ^ 32"
proof (induction rule: updateLoop.raw_induct [rotated, consumes 1, case_names step])
  case (step ul d len i ctx r)
  have "unat i < 2 ^ 32" by (rule unat_u32)
  with step show ?case by (auto split: if_split_asm)
qed

section \<open>The final block\<close>

lemma length_fillZero [simp]: "length (fillZero i n d) = length d"
proof (induction i n d rule: fillZero.induct)
  case (1 i n d)
  then show ?case by (subst fillZero.simps) simp
qed

lemma fillZero_eq: "i \<le> n \<Longrightarrow> n \<le> length d \<Longrightarrow> fillZero i n d = take i d @ replicate (n - i) 0 @ drop n d"
proof (induction i n d rule: fillZero.induct)
  case (1 i n d)
  show ?case
  proof (cases "i < n")
    case True
    from True "1.prems" "1.IH" [OF True] have "fillZero i n d = take (i + 1) (d[i := 0]) @ replicate (n - (i + 1)) 0 @ drop n (d[i := 0])"
      by (subst fillZero.simps) simp
    also have "take (i + 1) (d[i := 0]) = take i d @ [0]" using True "1.prems" by (simp add: take_update_Suc)
    also have "drop n (d[i := 0]) = drop n d" using True by simp
    finally show ?thesis using True by (simp add: Suc_diff_Suc flip: replicate_Suc)
  next
    case False
    with "1.prems" show ?thesis by (subst fillZero.simps) simp
  qed
qed

definition lengthBytes :: "u64 \<Rightarrow> byte list" where
  "lengthBytes n = [ucast (drop_bit 56 n), ucast (drop_bit 48 n), ucast (drop_bit 40 n), ucast (drop_bit 32 n),
     ucast (drop_bit 24 n), ucast (drop_bit 16 n), ucast (drop_bit 8 n), ucast n]"

lemma putLength_eq:
  assumes "length d = 64"
  shows "putLength n d = take 56 d @ lengthBytes n"
proof (rule nth_equalityI)
  show "length (putLength n d) = length (take 56 d @ lengthBytes n)" using assms by (simp add: putLength_def lengthBytes_def)
  fix i assume "i < length (putLength n d)"
  then have i: "i < 64" using assms by (simp add: putLength_def)
  show "putLength n d ! i = (take 56 d @ lengthBytes n) ! i"
  proof (cases "i < 56")
    case True
    with assms show ?thesis by (simp add: putLength_def nth_append)
  next
    case False
    with i have "i \<in> {56, 57, 58, 59, 60, 61, 62, 63}" by auto
    with assms show ?thesis by (auto simp: putLength_def lengthBytes_def nth_append)
  qed
qed

lemma be64_lengthBytes: "n < 2 ^ 64 \<Longrightarrow> be64 n = lengthBytes (of_nat n)"
proof -
  assume "n < 2 ^ 64"
  then have u: "unat (of_nat n :: u64) = n" by (rule unat_of_nat_small64)
  have "nat_le 8 (unat (of_nat n :: u64)) = word_le 8 (of_nat n :: u64)" by (rule nat_le_unat) simp
  moreover have "rev (word_le 8 w) = lengthBytes w" for w :: u64
  proof -
    have 8: "(8 :: nat) = Suc (Suc (Suc (Suc (Suc (Suc (Suc (Suc 0)))))))" by simp
    have w: "word_le 8 w = [ucast w, ucast (w div 256), ucast (w div 256 div 256), ucast (w div 256 div 256 div 256),
        ucast (w div 256 div 256 div 256 div 256), ucast (w div 256 div 256 div 256 div 256 div 256),
        ucast (w div 256 div 256 div 256 div 256 div 256 div 256),
        ucast (w div 256 div 256 div 256 div 256 div 256 div 256 div 256)]" unfolding 8 word_le.simps by (rule refl)
    have d: "x div 256 = drop_bit 8 x" for x :: u64 by (simp add: drop_bit_eq_div)
    show ?thesis unfolding w d lengthBytes_def by simp
  qed
  ultimately show ?thesis by (simp add: be64_def u)
qed

lemma final_block_short:
  assumes "length msg = 64 * q + r" and "r < 56"
  shows "blocks (length (pad msg) div 64) (pad msg)
    = blocks q msg @ [drop (64 * q) msg @ [0x80] @ replicate (55 - r) 0 @ be64 (8 * length msg)]"
proof -
  have m: "length msg mod 64 = r" using assms by simp
  have "119 - r = (55 - r) + 64" using assms(2) by simp
  then have "(119 - r) mod 64 = (55 - r) mod 64" by (simp only: mod_add_self2)
  then have k: "(119 - length msg mod 64) mod 64 = 55 - r" unfolding m by simp
  have b8: "length (be64 n) = 8" for n by (simp add: be64_def)
  have p: "pad msg = msg @ [0x80] @ replicate (55 - r) 0 @ be64 (8 * length msg)" by (simp add: pad_def k)
  have l: "length (pad msg) = 64 * (q + 1)" using assms b8 by (simp add: p)
  have "blocks q (pad msg) = blocks q msg" unfolding p using assms by (simp add: blocks_append)
  moreover have "take 64 (drop (64 * q) (pad msg)) = drop (64 * q) msg @ [0x80] @ replicate (55 - r) 0 @ be64 (8 * length msg)"
    using assms b8 l by (simp add: p)
  moreover have "length (pad msg) div 64 = Suc q" using l by simp
  ultimately show ?thesis by (simp only: blocks_Suc)
qed

lemma final_block_long:
  assumes "length msg = 64 * q + r" and "56 \<le> r" and "r < 64"
  shows "blocks (length (pad msg) div 64) (pad msg)
    = blocks q msg @ [drop (64 * q) msg @ [0x80] @ replicate (63 - r) 0, replicate 56 0 @ be64 (8 * length msg)]"
proof -
  have m: "length msg mod 64 = r" using assms by simp
  have k: "(119 - length msg mod 64) mod 64 = (63 - r) + 56" unfolding m using assms(2,3) by simp
  have b8: "length (be64 n) = 8" for n by (simp add: be64_def)
  have p: "pad msg = (msg @ [0x80] @ replicate (63 - r) 0) @ replicate 56 0 @ be64 (8 * length msg)"
    by (simp add: pad_def k replicate_add)
  have l: "length (pad msg) = 64 * (q + 2)" using assms b8 by (simp add: p)
  have l1: "length (msg @ [0x80] @ replicate (63 - r) 0) = 64 * (q + 1)" using assms by simp
  have "blocks q (pad msg) = blocks q msg" unfolding p using assms by (simp add: blocks_append)
  moreover have "take 64 (drop (64 * q) (pad msg)) = drop (64 * q) msg @ [0x80] @ replicate (63 - r) 0"
  proof -
    have d: "drop (64 * q) (msg @ [0x80] @ replicate (63 - r) 0) = drop (64 * q) msg @ [0x80] @ replicate (63 - r) 0"
      using assms by simp
    have "64 - r = Suc (63 - r)" using assms(3) by simp
    then show ?thesis unfolding p drop_append l1 d using assms by simp
  qed
  moreover have "take 64 (drop (64 * (q + 1)) (pad msg)) = replicate 56 0 @ be64 (8 * length msg)"
  proof -
    have "drop (64 * (q + 1)) (pad msg) = replicate 56 0 @ be64 (8 * length msg)"
      unfolding p l1 [symmetric] by (rule append_eq_conv_conj [THEN iffD1, THEN conjunct2, symmetric, OF refl])
    then show ?thesis using b8 by simp
  qed
  moreover have "length (pad msg) div 64 = Suc (Suc q)" using l by simp
  ultimately show ?thesis by (simp only: blocks_Suc) simp
qed

lemma final_length:
  assumes "length msg = 64 * q + r" and "r < 64" and "holds msg ctx"
  shows "bitlen ctx + ucast (datalen ctx * 8) = of_nat (8 * length msg)"
proof -
  have "datalen ctx * 8 = of_nat (r * 8)" using assms by (simp add: holds_iff)
  moreover have "unat (of_nat (r * 8) :: u32) = r * 8" using assms(2) by (intro unat_of_nat_small32) simp
  moreover have "unat (of_nat (r * 8) :: u64) = r * 8" using assms(2) by (intro unat_of_nat_small64) simp
  ultimately have "(ucast (datalen ctx * 8) :: u64) = of_nat (r * 8)" by (simp only: word_unat_eq_iff unat_ucast32)
  moreover have "bitlen ctx = of_nat (512 * q)" using assms by (simp add: holds_iff)
  ultimately show ?thesis using assms(1) by (simp add: algebra_simps)
qed

lemma sha256_final_eq:
  assumes h: "holds msg ctx" and n: "8 * length msg < 2 ^ 64"
  shows "sha256_final ctx = SHA256 msg"
proof -
  obtain q r where l: "length msg = 64 * q + r" "r < 64" by (metis mod_less_divisor mult_div_mod_eq zero_less_numeral)
  note H = h [unfolded holds_iff [OF l]]
  let ?st = "fold compress_block (blocks q msg) (sha_state (sha256_init []))"
  let ?d = "sha_data ctx"
  have u: "unat (datalen ctx) = r" using H l(2) by (simp add: unat_of_nat_small32)
  have ur: "unat (of_nat r :: u32) = r" using l(2) by (simp add: unat_of_nat_small32)
  have c: "datalen ctx < 56 \<longleftrightarrow> r < 56" by (simp add: word_less_nat_alt u)
  note bits = final_length [OF l h]
  have be: "be64 (8 * length msg) = lengthBytes (of_nat (8 * length msg))" by (rule be64_lengthBytes [OF n])
  show ?thesis
  proof (cases "r < 56")
    case True
    have f: "fillZero (Suc r) 56 (?d[r := 0x80]) = drop (64 * q) msg @ [0x80] @ replicate (55 - r) 0 @ drop 56 ?d"
      using True H by (subst fillZero_eq) (simp_all add: take_update_Suc)
    have b: "take 56 (drop (64 * q) msg @ [0x80] @ replicate (55 - r) 0 @ drop 56 ?d) = drop (64 * q) msg @ [0x80] @ replicate (55 - r) 0"
    proof -
      have "56 - r = Suc (55 - r)" using True by simp
      then show ?thesis using True l by simp
    qed
    have "sha256_final ctx = digestOf (compress_block (drop (64 * q) msg @ [0x80] @ replicate (55 - r) 0 @ lengthBytes (of_nat (8 * length msg))) ?st)"
      using H True c bits f b l ur
      by (simp add: sha256_final_def padBlock_def u Let_def sha256_transform_eq putLength_eq)
    also have "\<dots> = SHA256 msg" by (simp add: SHA256_def final_block_short [OF l(1) True] be)
    finally show ?thesis .
  next
    case False
    then have r: "56 \<le> r" by simp
    have f: "fillZero (Suc r) 64 (?d[r := 0x80]) = drop (64 * q) msg @ [0x80] @ replicate (63 - r) 0"
      using l(2) H by (subst fillZero_eq) (simp_all add: take_update_Suc)
    let ?e = "drop (64 * q) msg @ [0x80] @ replicate (63 - r) 0"
    have z: "take 56 (fillZero 0 56 ?e) = replicate 56 0" "length (fillZero 0 56 ?e) = 64"
      using l r by (simp_all add: fillZero_eq)
    have "sha256_final ctx = digestOf (compress_block (replicate 56 0 @ lengthBytes (of_nat (8 * length msg))) (compress_block ?e ?st))"
      using H False c bits f z l ur
      by (simp add: sha256_final_def padBlock_def u Let_def sha256_transform_eq putLength_eq)
    also have "\<dots> = SHA256 msg" by (simp add: SHA256_def final_block_long [OF l(1) r l(2)] be)
    finally show ?thesis .
  qed
qed

fun updateAll :: "byte list list \<Rightarrow> SHA256_CTX \<Rightarrow> SHA256_CTX option" where
  "updateAll [] ctx = Some ctx"
| "updateAll (c # cs) ctx =
     (case sha256_update (\<lambda>i. c ! i) (length c) ctx of None \<Rightarrow> None | Some ctx' \<Rightarrow> updateAll cs ctx')"

lemma sha256_update_eq: "length c < 2 ^ 32 \<Longrightarrow> sha256_update (\<lambda>i. c ! i) (length c) ctx = Some (fold updateByte c ctx)"
  using updateLoop_eq [of "length c" 0 "\<lambda>i. c ! i" ctx] by (simp add: sha256_update_def map_nth)

text \<open>The digest of the three letters abc, evaluated by the implementation, is the one the standard lists.\<close>

lemma sha256_final_abc: "sha256_final (fold updateByte [0x61, 0x62, 0x63] (sha256_init (replicate 64 0)))
  = [0xba, 0x78, 0x16, 0xbf, 0x8f, 0x01, 0xcf, 0xea, 0x41, 0x41, 0x40, 0xde, 0x5d, 0xae, 0x22, 0x23,
     0xb0, 0x03, 0x61, 0xa3, 0x96, 0x17, 0x7a, 0x9c, 0xb4, 0x10, 0xff, 0x61, 0xf2, 0x00, 0x15, 0xad]"
  by code_simp

text \<open>C17: feeding a message to the context in any pieces and closing it gives the digest that the standard
  defines for the whole message, whatever the fresh context's buffer held.\<close>

theorem sha256_stream:
  assumes "length fresh = 64" and "8 * length (concat chunks) < 2 ^ 64" and "\<forall>c \<in> set chunks. length c < 2 ^ 32"
  shows "map_option sha256_final (updateAll chunks (sha256_init fresh)) = Some (SHA256 (concat chunks))"
proof -
  have "\<exists>ctx'. updateAll cs ctx = Some ctx' \<and> holds (msg @ concat cs) ctx'"
    if "holds msg ctx" "\<forall>c \<in> set cs. length c < 2 ^ 32" for cs msg ctx
    using that
  proof (induction cs arbitrary: msg ctx)
    case (Cons c cs)
    from Cons.IH [OF update_holds [OF Cons.prems(1), of c]] Cons.prems(2) show ?case by (simp add: sha256_update_eq)
  qed simp
  from this [OF holds_init [OF assms(1)] assms(3)] obtain ctx' where
    "updateAll chunks (sha256_init fresh) = Some ctx'" "holds (concat chunks) ctx'" by auto
  with sha256_final_eq [OF _ assms(2)] show ?thesis by simp
qed

theorem sha256_stream_witness:
  "map_option sha256_final (updateAll [[0x61], [], [0x62, 0x63]] (sha256_init (replicate 64 0)))
   = Some [0xba, 0x78, 0x16, 0xbf, 0x8f, 0x01, 0xcf, 0xea, 0x41, 0x41, 0x40, 0xde, 0x5d, 0xae, 0x22, 0x23,
     0xb0, 0x03, 0x61, 0xa3, 0x96, 0x17, 0x7a, 0x9c, 0xb4, 0x10, 0xff, 0x61, 0xf2, 0x00, 0x15, 0xad]"
proof -
  have "holds [0x61, 0x62, 0x63] (fold updateByte [0x61, 0x62, 0x63] (sha256_init (replicate 64 0)))"
    using update_holds [OF holds_init, of "replicate 64 0" "[0x61, 0x62, 0x63]"] by simp
  from sha256_final_eq [OF this, unfolded sha256_final_abc] sha256_stream [of "replicate 64 0" "[[0x61], [], [0x62, 0x63]]"]
  show ?thesis by simp
qed

text \<open>The loop over the bytes of an update returns exactly when the length fits the 32 bits of its index.\<close>

theorem sha256_update_returns: "sha256_update d len ctx \<noteq> None \<longleftrightarrow> len < 2 ^ 32"
  using updateLoop_eq [of len 0 d ctx] updateLoop_returns [of d len 0 ctx] by (auto simp: sha256_update_def)

end
