(* ===== verification/Lilu_Crypto.thy ===== *)
theory Lilu_Crypto
  imports Lilu_Sha256
begin

text \<open>
  \<^verbatim>\<open>kern_crypto.cpp\<close>: keys, encryption and decryption of sized data, digests.  The cipher of the kernel is a
  parameter; what is relied on is that decryption inverts encryption under the same key and vector.  The result
  of a function with a size by reference is the pair of the buffer and the size; a write outside a buffer is
  \<open>None\<close>.  Clearing and releasing temporary buffers has no effect on the results.
\<close>

section \<open>The functions\<close>

definition BufferMax :: nat where
  "BufferMax = 1024 * 1024 * 1024"

text \<open>\<open>Buffer::create\<close>; the flag says whether the allocator has the memory.\<close>

definition bufferCreate :: "bool \<Rightarrow> nat \<Rightarrow> bool" where
  "bufferCreate ok sz \<longleftrightarrow> \<not> sz > BufferMax \<and> ok"

abbreviation BlockSize :: u32 where
  "BlockSize \<equiv> 16"

record ('e, 'd) aes =
  aes_encrypt_key128 :: "byte list \<Rightarrow> 'e option"
  aes_encrypt_cbc :: "byte list \<Rightarrow> byte list \<Rightarrow> nat \<Rightarrow> 'e \<Rightarrow> byte list option"
  aes_decrypt_key :: "byte list \<Rightarrow> 'd option"
  aes_decrypt_cbc :: "byte list \<Rightarrow> byte list \<Rightarrow> nat \<Rightarrow> 'd \<Rightarrow> byte list option"

definition genUniqueKey :: "(nat \<Rightarrow> byte list) \<Rightarrow> bool \<Rightarrow> u32 \<Rightarrow> byte list option" where
  "genUniqueKey read_random ok sz =
     (if sz < BlockSize then None
      else if bufferCreate ok (unat sz) then Some (read_random (unat sz)) else None)"

text \<open>The size of the padding behind the data.\<close>

definition padding :: "u32 \<Rightarrow> u32" where
  "padding sz =
     (let realSize = 4 + sz; padSize = realSize mod BlockSize
      in if padSize > 0 then BlockSize - padSize else padSize)"

definition encryptSize :: "u32 \<Rightarrow> u32" where
  "encryptSize sz = 4 + sz + padding sz"

definition encrypt :: "('e, 'd) aes \<Rightarrow> byte list \<Rightarrow> bool \<Rightarrow> bool \<Rightarrow> byte list option \<Rightarrow> byte list option \<Rightarrow> u32 \<Rightarrow> (byte list option \<times> u32) option" where
  "encrypt A iv ok1 ok2 key src sz =
     (case (src, key) of (Some s, Some k) \<Rightarrow>
        (let encSize = encryptSize sz; fullSize = encSize + BlockSize
         in if sz = 0 \<or> \<not> bufferCreate ok1 (unat encSize) then Some (None, sz)
            else if 4 + unat sz + unat (padding sz) > unat encSize then None
            else if \<not> bufferCreate ok2 (unat fullSize) then Some (None, sz)
            else let dataBuf = nat_le 4 (unat sz) @ take (unat sz) s @ replicate (unat (padding sz)) 0
                 in case aes_encrypt_key128 A k of None \<Rightarrow> Some (None, sz)
                    | Some ctx \<Rightarrow>
                        (case aes_encrypt_cbc A dataBuf iv (unat (encSize div BlockSize)) ctx of None \<Rightarrow> Some (None, sz)
                         | Some out \<Rightarrow> Some (Some (iv @ out), fullSize)))
      | _ \<Rightarrow> Some (None, sz))"

definition decrypt :: "('e, 'd) aes \<Rightarrow> bool \<Rightarrow> byte list option \<Rightarrow> byte list option \<Rightarrow> u32 \<Rightarrow> byte list option \<times> u32" where
  "decrypt A ok key src sz =
     (case (src, key) of (Some s, Some k) \<Rightarrow>
        (if sz < 32 \<or> sz mod BlockSize \<noteq> 0 then (None, sz)
         else let size1 = sz - 16
              in if \<not> bufferCreate ok (unat size1) then (None, size1)
                 else case aes_decrypt_key A k of None \<Rightarrow> (None, size1)
                   | Some ctx \<Rightarrow>
                       (case aes_decrypt_cbc A (take (unat size1) (drop 16 s)) (take 16 s) (unat (size1 div BlockSize)) ctx of
                          None \<Rightarrow> (None, size1)
                        | Some dec \<Rightarrow>
                            (let dataSize = of_nat (le_nat (take 4 dec)) :: u32
                             in if unat size1 - 4 \<ge> unat dataSize then (Some (take (unat dataSize) (drop 4 dec)), dataSize)
                                else (None, size1))))
      | _ \<Rightarrow> (None, sz))"

definition hash :: "bool \<Rightarrow> byte list \<Rightarrow> byte list option \<Rightarrow> u32 \<Rightarrow> byte list option option" where
  "hash ok fresh src sz =
     (case src of None \<Rightarrow> Some None
      | Some s \<Rightarrow>
          if sz = 0 \<or> \<not> bufferCreate ok 32 then Some None
          else map_option (\<lambda>ctx. Some (sha256_final ctx)) (sha256_update (\<lambda>i. s ! i) (unat sz) (sha256_init fresh)))"

section \<open>Sizes\<close>

lemma unat_padding: "unat (padding sz) = (16 - (unat (4 + sz)) mod 16) mod 16"
proof -
  have m: "unat ((4 + sz) mod BlockSize) = unat (4 + sz) mod 16" by (simp add: unat_mod)
  have lt: "unat (4 + sz) mod 16 < 16" by simp
  show ?thesis
  proof (cases "(4 + sz) mod BlockSize = 0")
    case True
    then have "unat (4 + sz) mod 16 = 0" using m by simp
    with True show ?thesis by (simp add: padding_def)
  next
    case False
    then have "0 < unat (4 + sz) mod 16" using m by (metis bot_nat_0.not_eq_extremum unat_eq_zero)
    have "(4 + sz) mod BlockSize \<le> 16" using m lt by (simp add: word_le_nat_alt)
    then have "unat (BlockSize - (4 + sz) mod BlockSize) = 16 - unat (4 + sz) mod 16" using m by (simp add: unat_sub)
    then show ?thesis using False \<open>0 < unat (4 + sz) mod 16\<close> by (simp add: padding_def Let_def word_gt_0)
  qed
qed

lemma round_up16: "((n :: nat) + (16 - n mod 16) mod 16) mod 16 = 0"
proof -
  obtain q r where n: "n = 16 * q + r" "r < 16" by (metis mod_less_divisor mult_div_mod_eq zero_less_numeral)
  show ?thesis
  proof (cases "r = 0")
    case False
    with n have "n + (16 - n mod 16) mod 16 = 16 * (q + 1)" by simp
    then show ?thesis by (simp only: mod_mult_self1_is_0)
  qed (simp add: n(1))
qed

lemma encrypt_sizes:
  assumes "unat sz + 20 \<le> 2 ^ 32"
  shows "unat (encryptSize sz) = 4 + unat sz + unat (padding sz)" and "unat (encryptSize sz) mod 16 = 0"
    and "16 \<le> unat (encryptSize sz)"
proof -
  let ?n = "4 + unat sz"
  have n: "unat (4 + sz) = ?n" using assms by (simp add: unat_word_ariths)
  have p: "unat (padding sz) = (16 - ?n mod 16) mod 16" unfolding unat_padding n ..
  then have "unat (padding sz) < 16" by simp
  with n assms show e: "unat (encryptSize sz) = ?n + unat (padding sz)" by (simp add: encryptSize_def unat_word_ariths)
  show m: "unat (encryptSize sz) mod 16 = 0" unfolding e p by (rule round_up16)
  then show "16 \<le> unat (encryptSize sz)" unfolding e by (cases "?n + unat (padding sz) < 16") auto
qed

lemma encrypt_fits:
  assumes "4 + unat sz + unat (padding sz) \<le> unat (encryptSize sz)"
  shows "unat sz + 20 \<le> 2 ^ 32"
proof -
  have "4 + unat sz + unat (padding sz) < 2 ^ 32" using assms unat_u32 [of "encryptSize sz"] by linarith
  then have n: "unat (4 + sz) = 4 + unat sz" by (simp add: unat_word_ariths)
  have "(4 + unat sz + unat (padding sz)) mod 16 = 0" unfolding unat_padding n by (rule round_up16)
  then obtain q where "4 + unat sz + unat (padding sz) = 16 * q" by (auto simp: mod_eq_0_iff_dvd elim: dvdE)
  with \<open>4 + unat sz + unat (padding sz) < 2 ^ 32\<close> show ?thesis by simp
qed

lemma encrypt_wraps:
  assumes "2 ^ 32 < unat sz + 20"
  shows "unat (encryptSize sz) \<le> 18"
proof -
  have u: "unat sz < 2 ^ 32" by (rule unat_u32)
  have p: "unat (padding sz) < 16" unfolding unat_padding by simp
  have e: "unat (encryptSize sz) = (4 + unat sz + unat (padding sz)) mod 2 ^ 32"
    by (simp add: encryptSize_def unat_word_ariths mod_simps)
  show ?thesis
  proof (cases "4 + unat sz < 2 ^ 32")
    case True
    then have n: "unat (4 + sz) = 4 + unat sz" by (simp add: unat_word_ariths)
    have "(4 + unat sz + unat (padding sz)) mod 16 = 0" unfolding unat_padding n by (rule round_up16)
    then obtain q where q: "4 + unat sz + unat (padding sz) = 16 * q" by (auto simp: mod_eq_0_iff_dvd elim: dvdE)
    then have "16 * q = 2 ^ 32" using True p assms by simp
    then show ?thesis by (simp add: e q)
  next
    case False
    then have "(4 + unat sz + unat (padding sz)) mod 2 ^ 32 = 4 + unat sz + unat (padding sz) - 2 ^ 32"
      using u p by (simp add: mod_if)
    then show ?thesis using e u p by simp
  qed
qed

lemma unat_16: "unat (16 :: u32) = 16" by simp

text \<open>What is relied on of the kernel's cipher: under one key and vector decryption gives back what was encrypted.\<close>

definition aes_inverts :: "('e, 'd) aes \<Rightarrow> bool" where
  "aes_inverts A \<longleftrightarrow> (\<forall>key c iv buf n out. aes_encrypt_key128 A key = Some c \<and> length iv = 16 \<and> length buf = 16 * n
       \<and> aes_encrypt_cbc A buf iv n c = Some out \<longrightarrow>
     length out = 16 * n \<and> (\<exists>d. aes_decrypt_key A key = Some d \<and> aes_decrypt_cbc A out iv n d = Some buf))"

lemma encrypt_some:
  assumes "encrypt A iv ok1 ok2 (Some key) (Some src) sz = Some (Some enc, sz')"
  obtains c out where "unat sz + 20 \<le> 2 ^ 32" and "unat (encryptSize sz) \<le> BufferMax" and "sz' = encryptSize sz + 16"
    and "aes_encrypt_key128 A key = Some c" and "enc = iv @ out"
    and "aes_encrypt_cbc A (nat_le 4 (unat sz) @ take (unat sz) src @ replicate (unat (padding sz)) 0) iv (unat (encryptSize sz div 16)) c = Some out"
  using assms encrypt_fits [of sz] by (auto simp: encrypt_def Let_def bufferCreate_def not_less split: if_split_asm option.split_asm)

lemma decrypt_encrypt:
  assumes "aes_inverts A" and "length iv = 16" and "length src = unat sz"
    and "encrypt A iv ok1 ok2 (Some key) (Some src) sz = Some (Some enc, sz')"
  shows "decrypt A True (Some key) (Some enc) sz' = (Some src, sz) \<and> length enc = unat sz'"
proof -
  let ?e = "encryptSize sz" and ?buf = "nat_le 4 (unat sz) @ src @ replicate (unat (padding sz)) 0"
  from assms(4) obtain c out where f: "unat sz + 20 \<le> 2 ^ 32" and m: "unat ?e \<le> BufferMax" and sz': "sz' = ?e + 16"
    and k: "aes_encrypt_key128 A key = Some c" and enc: "enc = iv @ out"
    and o: "aes_encrypt_cbc A ?buf iv (unat (?e div 16)) c = Some out" using assms(3) by (elim encrypt_some) simp
  note S = encrypt_sizes [OF f]
  have d: "unat (?e div 16) = unat ?e div 16" by (simp add: unat_div)
  have l: "length ?buf = 16 * (unat ?e div 16)" using S(1,2) assms(3) by auto
  have "length out = 16 * (unat ?e div 16) \<and> (\<exists>dk. aes_decrypt_key A key = Some dk \<and> aes_decrypt_cbc A out iv (unat ?e div 16) dk = Some ?buf)"
    using assms(1) [unfolded aes_inverts_def, rule_format, of key c iv ?buf "unat ?e div 16" out] k assms(2) l o d by simp
  then obtain dk where D: "length out = unat ?e" "aes_decrypt_key A key = Some dk"
    "aes_decrypt_cbc A out iv (unat ?e div 16) dk = Some ?buf" using S(2) by auto
  have u: "unat sz' = unat ?e + 16" unfolding sz' using m by (simp add: unat_word_ariths BufferMax_def)
  have "unat (sz' mod 16) = 0" using u S(2) by (simp only: unat_mod unat_16) simp
  then have g: "sz' mod 16 = 0" by (simp only: unat_eq_zero)
  have h: "\<not> sz' < 32" "sz' - 16 = ?e" using S(3) u by (simp_all add: word_less_nat_alt sz')
  have b: "bufferCreate True (unat ?e)" using m by (simp add: bufferCreate_def)
  have "decrypt A True (Some key) (Some enc) sz' = (Some src, sz)"
    using g h b D d S(1) assms(2,3) by (simp add: decrypt_def enc of_nat_le32)
  with enc D(1) u assms(2) show ?thesis by simp
qed

text \<open>C15: decrypting what was encrypted under the same key gives back the data and its size.\<close>

theorem crypt_roundtrip:
  assumes "aes_inverts A" and "length iv = 16" and "length src = unat sz"
    and "encrypt A iv ok1 ok2 (Some key) (Some src) sz = Some (Some enc, sz')"
  shows "decrypt A True (Some key) (Some enc) sz' = (Some src, sz) \<and> length enc = unat sz'"
  by (rule decrypt_encrypt [OF assms])

text \<open>A cipher for the examples: every byte is combined with the first byte of the key.\<close>

definition demo_aes :: "(byte, byte) aes" where
  "demo_aes = \<lparr>aes_encrypt_key128 = \<lambda>key. Some (key ! 0), aes_encrypt_cbc = \<lambda>buf iv n c. Some (map (\<lambda>b. b XOR c) buf),
     aes_decrypt_key = \<lambda>key. Some (key ! 0), aes_decrypt_cbc = \<lambda>buf iv n c. Some (map (\<lambda>b. b XOR c) buf)\<rparr>"

lemma demo_aes_inverts: "aes_inverts demo_aes"
  by (simp add: aes_inverts_def demo_aes_def comp_def xor.assoc)

lemma encrypt_succeeds:
  assumes "sz \<noteq> 0" and "unat sz + 36 \<le> BufferMax" and "aes_encrypt_key128 A key = Some c"
    and "\<And>buf n. aes_encrypt_cbc A buf iv n c \<noteq> None"
  shows "\<exists>enc sz'. encrypt A iv True True (Some key) (Some src) sz = Some (Some enc, sz') \<and> unat sz' \<le> unat sz + 35"
proof -
  let ?e = "encryptSize sz"
  have f: "unat sz + 20 \<le> 2 ^ 32" using assms(2) by (simp add: BufferMax_def)
  note S = encrypt_sizes [OF f]
  have p: "unat (padding sz) < 16" unfolding unat_padding by simp
  then have e: "unat ?e \<le> BufferMax" "unat (?e + 16) \<le> BufferMax" "unat (?e + 16) \<le> unat sz + 35"
    using S(1) assms(2) by (simp_all add: unat_word_ariths BufferMax_def)
  obtain out where "aes_encrypt_cbc A (nat_le 4 (unat sz) @ take (unat sz) src @ replicate (unat (padding sz)) 0) iv (unat (?e div 16)) c = Some out"
    using assms(4) by blast
  with assms(1,3) e S(1) show ?thesis by (simp add: encrypt_def Let_def bufferCreate_def)
qed

theorem crypt_roundtrip_witness:
  "\<exists>enc sz'. encrypt demo_aes (replicate 16 7) True True (Some (replicate 16 0x5A)) (Some [1, 2, 3]) 3 = Some (Some enc, sz')
     \<and> decrypt demo_aes True (Some (replicate 16 0x5A)) (Some enc) sz' = (Some [1, 2, 3], 3)"
proof -
  have "\<exists>enc sz'. encrypt demo_aes (replicate 16 7) True True (Some (replicate 16 0x5A)) (Some [1, 2, 3]) 3 = Some (Some enc, sz')
      \<and> unat sz' \<le> unat (3 :: u32) + 35"
    by (rule encrypt_succeeds) (simp_all add: demo_aes_def BufferMax_def)
  with crypt_roundtrip [OF demo_aes_inverts, of "replicate 16 7" "[1, 2, 3]" 3 True True "replicate 16 0x5A"] show ?thesis by fastforce
qed


text \<open>The digest of a buffer is the SHA-256 digest of its bytes, whatever the stack held.\<close>

theorem hash_digest:
  assumes "length fresh = 64" and "length src = unat sz" and "sz \<noteq> 0"
  shows "hash True fresh (Some src) sz = Some (Some (SHA256 src))"
proof -
  have l: "length src < 2 ^ 32" unfolding assms(2) by (rule unat_u32)
  have "holds ([] @ src) (fold updateByte src (sha256_init fresh))" by (rule update_holds [OF holds_init [OF assms(1)]])
  from sha256_final_eq [OF this] l sha256_update_eq [OF l] assms(2,3) show ?thesis
    by (simp add: hash_def bufferCreate_def BufferMax_def)
qed

theorem hash_digest_witness:
  "hash True (replicate 64 0) (Some [0x61, 0x62, 0x63]) 3 = Some (Some
    [0xba, 0x78, 0x16, 0xbf, 0x8f, 0x01, 0xcf, 0xea, 0x41, 0x41, 0x40, 0xde, 0x5d, 0xae, 0x22, 0x23,
     0xb0, 0x03, 0x61, 0xa3, 0x96, 0x17, 0x7a, 0x9c, 0xb4, 0x10, 0xff, 0x61, 0xf2, 0x00, 0x15, 0xad])"
proof -
  have "holds [0x61, 0x62, 0x63] (fold updateByte [0x61, 0x62, 0x63] (sha256_init (replicate 64 0)))"
    using update_holds [OF holds_init, of "replicate 64 0" "[0x61, 0x62, 0x63]"] by simp
  from sha256_final_eq [OF this, unfolded sha256_final_abc] hash_digest [of "replicate 64 0" "[0x61, 0x62, 0x63]" 3] show ?thesis by simp
qed

end
