(* ===== verification/Lilu_Lzss.thy ===== *)
theory Lilu_Lzss
  imports Kern_Prelude "HOL-Library.Monad_Syntax"
begin

text \<open>
  The LZSS compressor of \<^verbatim>\<open>kern_compression.cpp\<close>: the decoder, the encoder with its binary search trees in
  three arrays of indices, and the theorem that decoding undoes encoding.  An access outside an array and a
  loop that does not end are the value \<open>None\<close>, so that a result \<open>Some\<close> says that neither happens.
\<close>

section \<open>Decoding\<close>

unbundle bit_operations_syntax

abbreviation RBSIZE :: nat where "RBSIZE \<equiv> 4096"
abbreviation UPLIM :: nat where "UPLIM \<equiv> 18"
abbreviation THRESHOLD :: nat where "THRESHOLD \<equiv> 2"
abbreviation NIL :: nat where "NIL \<equiv> 4096"

text \<open>The decoder's ring buffer, the position in it, and the bytes written so far.\<close>

type_synonym decoder = "(nat \<Rightarrow> byte) \<times> nat \<times> byte list"

definition putOut :: "byte \<Rightarrow> decoder \<Rightarrow> decoder" where
  "putOut c = (\<lambda>(tb, r, dst). (tb(r := c), (r + 1) AND (RBSIZE - 1), dst @ [c]))"

text \<open>The copying loop; \<open>n\<close> turns are left. The \<open>break\<close> at a full destination leaves this loop only.\<close>

fun copyLoop :: "nat \<Rightarrow> nat \<Rightarrow> nat \<Rightarrow> nat \<Rightarrow> decoder \<Rightarrow> decoder" where
  "copyLoop dstlen i 0 k d = d"
| "copyLoop dstlen i (Suc n) k (tb, r, dst) =
     (if length dst < dstlen
      then copyLoop dstlen i n (k + 1) (putOut (tb ((i + k) AND (RBSIZE - 1))) (tb, r, dst))
      else (tb, r, dst))"

text \<open>The flags of the next unit: shifted, or loaded with the next byte when eight are used up.\<close>

definition nextFlags :: "u32 \<Rightarrow> byte list \<Rightarrow> (u32 \<times> byte list) option" where
  "nextFlags flags src =
     (let fl = drop_bit 1 flags
      in if fl AND 0x100 = 0 then (case src of [] \<Rightarrow> None | c # src' \<Rightarrow> Some (ucast c OR 0xFF00, src'))
         else Some (fl, src))"

text \<open>One unit, a letter or a pair of position and length; \<open>None\<close> where the loop is left.\<close>

definition decodeUnit :: "nat \<Rightarrow> u32 \<Rightarrow> byte list \<Rightarrow> decoder \<Rightarrow> (byte list \<times> decoder) option" where
  "decodeUnit dstlen flags src = (\<lambda>(tb, r, dst).
     if flags AND 1 \<noteq> 0
     then (case src of [] \<Rightarrow> None
           | c # src' \<Rightarrow> if length dst < dstlen then Some (src', putOut c (tb, r, dst)) else None)
     else (case src of i # j # src' \<Rightarrow>
             (let pos = unat i OR push_bit 4 (unat j AND 0xF0);
                  cnt = (unat j AND 0x0F) + THRESHOLD
              in Some (src', copyLoop dstlen pos (cnt + 1) 0 (tb, r, dst)))
           | _ \<Rightarrow> None))"

lemma nextFlags_shrinks: "nextFlags flags src = Some (fl, src') \<Longrightarrow> length src' \<le> length src"
  by (auto simp: nextFlags_def Let_def split: if_split_asm list.split_asm)

lemma decodeUnit_shrinks: "decodeUnit dstlen flags src d = Some (src', d') \<Longrightarrow> length src' < length src"
  by (auto simp: decodeUnit_def Let_def split: if_split_asm list.split_asm prod.split_asm)

function decodeLoop :: "nat \<Rightarrow> u32 \<Rightarrow> byte list \<Rightarrow> decoder \<Rightarrow> byte list" where
  "decodeLoop dstlen flags src d =
     (case nextFlags flags src of None \<Rightarrow> snd (snd d)
      | Some (fl, src1) \<Rightarrow>
          (case decodeUnit dstlen fl src1 d of None \<Rightarrow> snd (snd d)
           | Some (src2, d') \<Rightarrow> decodeLoop dstlen fl src2 d'))"
  by pat_completeness auto
termination
  by (relation "measure (\<lambda>(dstlen, flags, src, d). length src)")
    (auto dest!: nextFlags_shrinks decodeUnit_shrinks)

declare decodeLoop.simps [simp del]

text \<open>The bytes the decoder writes; \<open>fresh\<close> is what the ring buffer held on the stack.\<close>

definition decompress_lzss :: "(nat \<Rightarrow> byte) \<Rightarrow> nat \<Rightarrow> byte list \<Rightarrow> byte list" where
  "decompress_lzss fresh dstlen src =
     decodeLoop dstlen 0 src (\<lambda>i. if i < RBSIZE - UPLIM then 0x20 else fresh i, RBSIZE - UPLIM, [])"

section \<open>The encoder's trees\<close>

record encode_state =
  lchild :: "nat \<Rightarrow> nat"
  rchild :: "nat \<Rightarrow> nat"
  parent :: "nat \<Rightarrow> nat"
  text_buf :: "nat \<Rightarrow> byte"
  match_position :: nat
  match_length :: nat

text \<open>Reads and writes with the sizes of the arrays.\<close>

definition getL :: "nat \<Rightarrow> encode_state \<Rightarrow> nat option" where
  "getL i sp = (if i < RBSIZE + 1 then Some (lchild sp i) else None)"
definition getR :: "nat \<Rightarrow> encode_state \<Rightarrow> nat option" where
  "getR i sp = (if i < RBSIZE + 257 then Some (rchild sp i) else None)"
definition getP :: "nat \<Rightarrow> encode_state \<Rightarrow> nat option" where
  "getP i sp = (if i < RBSIZE + 1 then Some (parent sp i) else None)"
definition getT :: "nat \<Rightarrow> encode_state \<Rightarrow> byte option" where
  "getT i sp = (if i < RBSIZE + UPLIM - 1 then Some (text_buf sp i) else None)"
definition setL :: "nat \<Rightarrow> nat \<Rightarrow> encode_state \<Rightarrow> encode_state option" where
  "setL i v sp = (if i < RBSIZE + 1 then Some (sp\<lparr>lchild := (lchild sp)(i := v)\<rparr>) else None)"
definition setR :: "nat \<Rightarrow> nat \<Rightarrow> encode_state \<Rightarrow> encode_state option" where
  "setR i v sp = (if i < RBSIZE + 257 then Some (sp\<lparr>rchild := (rchild sp)(i := v)\<rparr>) else None)"
definition setP :: "nat \<Rightarrow> nat \<Rightarrow> encode_state \<Rightarrow> encode_state option" where
  "setP i v sp = (if i < RBSIZE + 1 then Some (sp\<lparr>parent := (parent sp)(i := v)\<rparr>) else None)"
definition setT :: "nat \<Rightarrow> byte \<Rightarrow> encode_state \<Rightarrow> encode_state option" where
  "setT i v sp = (if i < RBSIZE + UPLIM - 1 then Some (sp\<lparr>text_buf := (text_buf sp)(i := v)\<rparr>) else None)"

definition init_state :: encode_state where
  "init_state =
     \<lparr>lchild = \<lambda>i. 0, rchild = \<lambda>i. if RBSIZE + 1 \<le> i \<and> i \<le> RBSIZE + 256 then NIL else 0,
      parent = \<lambda>i. if i < RBSIZE then NIL else 0, text_buf = \<lambda>i. if i < RBSIZE - UPLIM then 0x20 else 0,
      match_position = 0, match_length = 0\<rparr>"

text \<open>The comparison of the strings at \<open>r\<close> and \<open>p\<close>: the index where they differ and the difference there.\<close>

function compareLoop :: "encode_state \<Rightarrow> nat \<Rightarrow> nat \<Rightarrow> nat \<Rightarrow> int \<Rightarrow> (nat \<times> int) option" where
  "compareLoop sp r p i cmp =
     (if i < UPLIM
      then do { a \<leftarrow> getT (r + i) sp; b \<leftarrow> getT (p + i) sp;
                let d = uint a - uint b;
                if d \<noteq> 0 then Some (i, d) else compareLoop sp r p (i + 1) d }
      else Some (i, cmp))"
  by pat_completeness auto
termination by (relation "measure (\<lambda>(sp, r, p, i, cmp). UPLIM - i)") auto

declare compareLoop.simps [simp del]

text \<open>The new node takes the place of \<open>p\<close>.\<close>

definition relink :: "nat \<Rightarrow> nat \<Rightarrow> encode_state \<Rightarrow> encode_state option" where
  "relink p v sp =
     do { q \<leftarrow> getP p sp; c \<leftarrow> getR q sp;
          if c = p then setR q v sp else setL q v sp }"

definition replaceNode :: "nat \<Rightarrow> nat \<Rightarrow> encode_state \<Rightarrow> encode_state option" where
  "replaceNode r p sp =
     do { q \<leftarrow> getP p sp; sp \<leftarrow> setP r q sp;
          x \<leftarrow> getL p sp; sp \<leftarrow> setL r x sp;
          y \<leftarrow> getR p sp; sp \<leftarrow> setR r y sp;
          x \<leftarrow> getL p sp; sp \<leftarrow> setP x r sp;
          y \<leftarrow> getR p sp; sp \<leftarrow> setP y r sp;
          sp \<leftarrow> relink p r sp;
          setP p NIL sp }"

partial_function (option) insertLoop :: "nat \<Rightarrow> int \<Rightarrow> nat \<Rightarrow> encode_state \<Rightarrow> encode_state option" where
  "insertLoop r cmp p sp =
     do { c \<leftarrow> (if cmp \<ge> 0 then getR p sp else getL p sp);
          if c = NIL
          then do { sp \<leftarrow> (if cmp \<ge> 0 then setR p r sp else setL p r sp); setP r p sp }
          else do { (i, cmp') \<leftarrow> compareLoop sp r c 1 cmp;
                    if i > match_length sp
                    then (let sp' = sp\<lparr>match_position := c, match_length := i\<rparr>
                          in if i \<ge> UPLIM then replaceNode r c sp' else insertLoop r cmp' c sp')
                    else insertLoop r cmp' c sp } }"

definition insert_node :: "nat \<Rightarrow> encode_state \<Rightarrow> encode_state option" where
  "insert_node r sp =
     do { k \<leftarrow> getT r sp;
          sp \<leftarrow> setL r NIL sp; sp \<leftarrow> setR r NIL sp;
          insertLoop r 1 (RBSIZE + 1 + unat k) (sp\<lparr>match_length := 0\<rparr>) }"

text \<open>The loop that goes to the right as long as there is a right child.\<close>

partial_function (option) rightmost :: "nat \<Rightarrow> encode_state \<Rightarrow> nat option" where
  "rightmost q sp = do { y \<leftarrow> getR q sp; if y \<noteq> NIL then rightmost y sp else Some q }"

text \<open>The left subtree gives up its last node \<open>q\<close> for the place of \<open>p\<close>.\<close>

definition takeLast :: "nat \<Rightarrow> encode_state \<Rightarrow> (nat \<times> encode_state) option" where
  "takeLast p sp =
     do { q0 \<leftarrow> getL p sp; y \<leftarrow> getR q0 sp;
          (q, sp) \<leftarrow> (if y \<noteq> NIL
            then do { q \<leftarrow> rightmost q0 sp;
                      u \<leftarrow> getP q sp; x \<leftarrow> getL q sp; sp \<leftarrow> setR u x sp;
                      x \<leftarrow> getL q sp; u \<leftarrow> getP q sp; sp \<leftarrow> setP x u sp;
                      x \<leftarrow> getL p sp; sp \<leftarrow> setL q x sp;
                      x \<leftarrow> getL p sp; sp \<leftarrow> setP x q sp;
                      Some (q, sp) }
            else Some (q0, sp));
          y \<leftarrow> getR p sp; sp \<leftarrow> setR q y sp;
          y \<leftarrow> getR p sp; sp \<leftarrow> setP y q sp;
          Some (q, sp) }"

definition delete_node :: "nat \<Rightarrow> encode_state \<Rightarrow> encode_state option" where
  "delete_node p sp =
     do { q \<leftarrow> getP p sp;
          if q = NIL then Some sp
          else do { y \<leftarrow> getR p sp; x \<leftarrow> getL p sp;
                    (q, sp) \<leftarrow> (if y = NIL then Some (x, sp) else if x = NIL then Some (y, sp) else takeLast p sp);
                    u \<leftarrow> getP p sp; sp \<leftarrow> setP q u sp;
                    sp \<leftarrow> relink p q sp;
                    setP p NIL sp } }"

section \<open>Encoding\<close>

text \<open>The local variables of the encoder; \<open>e_src\<close> holds the bytes not read yet, \<open>e_dst\<close> the bytes written.\<close>

record encoder =
  e_sp :: encode_state
  e_src :: "byte list"
  e_len :: nat
  e_r :: nat
  e_s :: nat
  code_buf :: "byte list"
  code_buf_ptr :: nat
  e_mask :: byte
  e_dst :: "byte list"

definition putCode :: "byte \<Rightarrow> encoder \<Rightarrow> encoder option" where
  "putCode b e =
     (if code_buf_ptr e < 17
      then Some (e\<lparr>code_buf := (code_buf e)[code_buf_ptr e := b], code_buf_ptr := code_buf_ptr e + 1\<rparr>) else None)"

definition emitUnit :: "encoder \<Rightarrow> encoder option" where
  "emitUnit e =
     (let m = (if match_length (e_sp e) > e_len e then e_len e else match_length (e_sp e))
      in if m \<le> THRESHOLD
         then do { c \<leftarrow> getT (e_r e) (e_sp e);
                   putCode c (e\<lparr>e_sp := (e_sp e)\<lparr>match_length := 1\<rparr>,
                     code_buf := (code_buf e)[0 := code_buf e ! 0 OR e_mask e]\<rparr>) }
         else do { e \<leftarrow> putCode (of_nat (match_position (e_sp e))) (e\<lparr>e_sp := (e_sp e)\<lparr>match_length := m\<rparr>\<rparr>);
                   putCode (of_nat ((drop_bit 4 (match_position (e_sp e)) AND 0xF0) OR (m - (THRESHOLD + 1)))) e })"

text \<open>The two loops that copy the collected code to the destination; \<open>False\<close> is the jump to the end.\<close>

fun sendCode :: "nat \<Rightarrow> byte list \<Rightarrow> byte list \<Rightarrow> bool \<times> byte list" where
  "sendCode dstlen [] dst = (True, dst)"
| "sendCode dstlen (c # cs) dst = (if length dst < dstlen then sendCode dstlen cs (dst @ [c]) else (False, dst))"

definition shiftMask :: "nat \<Rightarrow> encoder \<Rightarrow> bool \<times> encoder" where
  "shiftMask dstlen e =
     (let mask = push_bit 1 (e_mask e)
      in if mask = 0
         then (case sendCode dstlen (take (code_buf_ptr e) (code_buf e)) (e_dst e) of
                 (True, dst) \<Rightarrow> (True, e\<lparr>e_dst := dst, code_buf := (code_buf e)[0 := 0], code_buf_ptr := 1, e_mask := 1\<rparr>)
               | (False, dst) \<Rightarrow> (False, e\<lparr>e_dst := dst, e_mask := mask\<rparr>))
         else (True, e\<lparr>e_mask := mask\<rparr>))"

text \<open>Reading a byte into the place of the oldest one, and moving on after the end of the text.\<close>

definition readByte :: "byte \<Rightarrow> byte list \<Rightarrow> encoder \<Rightarrow> encoder option" where
  "readByte c src e =
     do { sp \<leftarrow> delete_node (e_s e) (e_sp e);
          sp \<leftarrow> setT (e_s e) c sp;
          sp \<leftarrow> (if e_s e < UPLIM - 1 then setT (e_s e + RBSIZE) c sp else Some sp);
          let s = (e_s e + 1) AND (RBSIZE - 1);
          let r = (e_r e + 1) AND (RBSIZE - 1);
          sp \<leftarrow> insert_node r sp;
          Some (e\<lparr>e_sp := sp, e_src := src, e_s := s, e_r := r\<rparr>) }"

definition skipByte :: "encoder \<Rightarrow> encoder option" where
  "skipByte e =
     do { sp \<leftarrow> delete_node (e_s e) (e_sp e);
          let s = (e_s e + 1) AND (RBSIZE - 1);
          let r = (e_r e + 1) AND (RBSIZE - 1);
          let len = e_len e - 1;
          sp \<leftarrow> (if len \<noteq> 0 then insert_node r sp else Some sp);
          Some (e\<lparr>e_sp := sp, e_s := s, e_r := r, e_len := len\<rparr>) }"

text \<open>The two inner loops; \<open>n\<close> turns are left of the length of the last match.\<close>

fun readLoop :: "nat \<Rightarrow> encoder \<Rightarrow> (nat \<times> encoder) option" where
  "readLoop 0 e = Some (0, e)"
| "readLoop (Suc n) e =
     (case e_src e of [] \<Rightarrow> Some (Suc n, e)
      | c # src \<Rightarrow> do { e \<leftarrow> readByte c src e; readLoop n e })"

fun skipLoop :: "nat \<Rightarrow> encoder \<Rightarrow> encoder option" where
  "skipLoop 0 e = Some e"
| "skipLoop (Suc n) e = do { e \<leftarrow> skipByte e; skipLoop n e }"

definition advance :: "encoder \<Rightarrow> encoder option" where
  "advance e = do { (n, e) \<leftarrow> readLoop (match_length (e_sp e)) e; skipLoop n e }"

definition finishCode :: "nat \<Rightarrow> encoder \<Rightarrow> bool \<times> byte list" where
  "finishCode dstlen e =
     (if code_buf_ptr e > 1 then sendCode dstlen (take (code_buf_ptr e) (code_buf e)) (e_dst e) else (True, e_dst e))"

partial_function (option) encodeLoop :: "nat \<Rightarrow> encoder \<Rightarrow> (bool \<times> byte list) option" where
  "encodeLoop dstlen e =
     do { e \<leftarrow> emitUnit e;
          let (ok, e) = shiftMask dstlen e;
          if \<not> ok then Some (False, e_dst e)
          else do { e \<leftarrow> advance e;
                    if e_len e > 0 then encodeLoop dstlen e else Some (finishCode dstlen e) } }"

function fillLoop :: "nat \<Rightarrow> byte list \<Rightarrow> encode_state \<Rightarrow> (nat \<times> byte list \<times> encode_state) option" where
  "fillLoop len src sp =
     (if len < UPLIM \<and> src \<noteq> []
      then do { sp \<leftarrow> setT (RBSIZE - UPLIM + len) (hd src) sp; fillLoop (len + 1) (tl src) sp }
      else Some (len, src, sp))"
  by pat_completeness auto
termination by (relation "measure (\<lambda>(len, src, sp). length src)") auto

declare fillLoop.simps [simp del]

function insertAhead :: "nat \<Rightarrow> encode_state \<Rightarrow> encode_state option" where
  "insertAhead i sp =
     (if i \<le> UPLIM then do { sp \<leftarrow> insert_node (RBSIZE - UPLIM - i) sp; insertAhead (i + 1) sp } else Some sp)"
  by pat_completeness auto
termination by (relation "measure (\<lambda>(i, sp). Suc UPLIM - i)") auto

declare insertAhead.simps [simp del]

text \<open>
  The result is whether an end pointer is returned, and the bytes written to the destination. \<open>alloc\<close> says
  whether the state can be allocated, \<open>fresh\<close> is what the code buffer held on the stack.
\<close>

definition compress_lzss :: "bool \<Rightarrow> byte list \<Rightarrow> nat \<Rightarrow> byte list \<Rightarrow> (bool \<times> byte list) option" where
  "compress_lzss alloc fresh dstlen src =
     (if \<not> alloc then Some (False, [])
      else do { (len, src, sp) \<leftarrow> fillLoop 0 src init_state;
                if len = 0 then Some (False, [])
                else do { sp \<leftarrow> insertAhead 1 sp;
                          sp \<leftarrow> insert_node (RBSIZE - UPLIM) sp;
                          encodeLoop dstlen
                            \<lparr>e_sp = sp, e_src = src, e_len = len, e_r = RBSIZE - UPLIM, e_s = 0,
                             code_buf = fresh[0 := 0], code_buf_ptr = 1, e_mask = 1, e_dst = []\<rparr> } })"

section \<open>What a code describes\<close>

text \<open>
  The text with the blanks both sides start from: place \<open>a\<close> of it is stored at \<open>a mod 4096\<close> of the ring.
  Byte \<open>e\<close> of the source is at place \<open>4078 + e\<close>.
\<close>

definition place :: "byte list \<Rightarrow> nat \<Rightarrow> byte" where
  "place src a = (if a < 4078 then 0x20 else src ! (a - 4078))"

datatype token = Letter (letter: byte) | Pair (pos: nat) (count: nat)

fun ahead :: "token \<Rightarrow> nat" where
  "ahead (Letter c) = 1"
| "ahead (Pair p n) = n"

fun tokBytes :: "token \<Rightarrow> byte list" where
  "tokBytes (Letter c) = [c]"
| "tokBytes (Pair p n) = [of_nat p, of_nat ((drop_bit 4 p AND 0xF0) OR (n - 3))]"

text \<open>An earlier place \<open>P\<close> still in the ring from which \<open>n\<close> bytes equal the next ones.\<close>

definition occurs :: "byte list \<Rightarrow> nat \<Rightarrow> nat \<Rightarrow> nat \<Rightarrow> bool" where
  "occurs src e p n \<longleftrightarrow> (\<exists>P. P mod 4096 = p \<and> e \<le> P \<and> P < 4078 + e \<and> (\<forall>k < n. place src (P + k) = place src (4078 + e + k)))"

fun tokOK :: "byte list \<Rightarrow> nat \<Rightarrow> token \<Rightarrow> bool" where
  "tokOK src e (Letter c) \<longleftrightarrow> e < length src \<and> c = src ! e"
| "tokOK src e (Pair p n) \<longleftrightarrow> 3 \<le> n \<and> n \<le> 18 \<and> e + n \<le> length src \<and> occurs src e p n"

abbreviation aheadAll :: "token list \<Rightarrow> nat" where
  "aheadAll ts \<equiv> sum_list (map ahead ts)"

fun describes :: "byte list \<Rightarrow> nat \<Rightarrow> token list \<Rightarrow> bool" where
  "describes src e [] \<longleftrightarrow> True"
| "describes src e (t # ts) \<longleftrightarrow> tokOK src e t \<and> describes src (e + ahead t) ts"

lemma describes_append: "describes src e (xs @ ys) \<longleftrightarrow> describes src e xs \<and> describes src (e + aheadAll xs) ys"
  by (induction xs arbitrary: e) (auto simp: add.assoc)

section \<open>The decoder follows a description\<close>

lemma and_ring: "(x :: nat) AND 4095 = x mod 4096"
proof -
  have "(4095 :: nat) = mask 12" by (simp add: mask_eq_exp_minus_1)
  then have "x AND 4095 = take_bit 12 x" by (simp only: take_bit_eq_mask)
  then show ?thesis by (simp add: take_bit_eq_mod)
qed

text \<open>A decoder that has written the first \<open>e\<close> bytes.\<close>

definition agrees :: "byte list \<Rightarrow> nat \<Rightarrow> decoder \<Rightarrow> bool" where
  "agrees src e = (\<lambda>(tb, r, dst). e \<le> length src \<and> dst = take e src \<and> r = (4078 + e) mod 4096
     \<and> (\<forall>a. a < 4078 + e \<and> 4078 + e \<le> a + 4096 \<longrightarrow> tb (a mod 4096) = place src a))"

lemma mod_ring_eq: "a mod 4096 = b mod 4096 \<Longrightarrow> a < b \<Longrightarrow> b < a + 4096 \<Longrightarrow> False" for a b :: nat
  by (metis add_diff_cancel_left' less_imp_add_positive mod_eq_dvd_iff_nat nat_dvd_not_less less_imp_le nat_add_left_cancel_less)

lemma agrees_putOut:
  assumes "agrees src e d" and e: "e < length src" and c: "c = src ! e"
  shows "agrees src (e + 1) (putOut c d)"
proof -
  obtain tb r dst where d: "d = (tb, r, dst)" by (cases d)
  have A: "dst = take e src" "r = (4078 + e) mod 4096" using assms(1) by (auto simp: agrees_def d)
  have tb: "tb (a mod 4096) = place src a" if "a < 4078 + e" "4078 + e \<le> a + 4096" for a
    using assms(1) that by (auto simp: agrees_def d)
  have "(tb(r := c)) (a mod 4096) = place src a" if "a < 4078 + (e + 1)" "4078 + (e + 1) \<le> a + 4096" for a
  proof (cases "a = 4078 + e")
    case False
    then have "a mod 4096 \<noteq> r" using that A(2) mod_ring_eq [of a "4078 + e"] by auto
    then show ?thesis using tb [of a] that False by simp
  qed (simp add: A(2) place_def c)
  moreover have "(r + 1) AND 4095 = (4078 + (e + 1)) mod 4096" using A(2) by (simp add: and_ring mod_Suc_eq)
  ultimately show ?thesis using A(1) e c by (simp add: agrees_def d putOut_def take_Suc_conv_app_nth)
qed

lemma agrees_copyLoop:
  assumes "P mod 4096 = p" and "e0 \<le> P" and "P < 4078 + e0" and "\<forall>k < m. place src (P + k) = place src (4078 + e0 + k)"
    and "e0 + m \<le> length src" and "e0 + m \<le> dstlen"
  shows "agrees src (e0 + k) d \<Longrightarrow> k + n = m \<Longrightarrow> agrees src (e0 + m) (copyLoop dstlen p n k d)"
proof (induction n arbitrary: k d)
  case (Suc n)
  obtain tb r dst where d: "d = (tb, r, dst)" by (cases d)
  have l: "length dst < dstlen" using Suc.prems assms(5,6) by (auto simp: agrees_def d)
  have "tb ((P + k) mod 4096) = place src (P + k)" using Suc.prems assms(2,3) by (auto simp: agrees_def d)
  also have "\<dots> = src ! (e0 + k)" using assms(4) Suc.prems(2) by (simp add: place_def)
  finally have t: "tb ((p + k) AND (4096 - 1)) = src ! (e0 + k)"
    unfolding assms(1) [symmetric] by (simp add: and_ring mod_add_left_eq)
  have "agrees src (e0 + (k + 1)) (putOut (tb ((p + k) AND (4096 - 1))) d)"
    using agrees_putOut [OF Suc.prems(1) _ t] Suc.prems(2) assms(5) by simp
  from Suc.IH [OF this] Suc.prems(2) l show ?case by (simp add: d)
qed simp

lemma occurs_lt: "occurs src e p n \<Longrightarrow> p < 4096"
  by (auto simp: occurs_def)

lemma bit_0xF0: "bit (0xF0 :: nat) k \<longleftrightarrow> 4 \<le> k \<and> k < 8"
proof -
  have eq: "(0xF0 :: nat) = push_bit 4 (mask 4)" by (simp add: mask_eq_exp_minus_1 push_bit_eq_mult)
  show ?thesis unfolding eq by (auto simp: bit_push_bit_iff_nat bit_mask_iff)
qed

lemma bit_0xF00: "bit (0xF00 :: nat) k \<longleftrightarrow> 8 \<le> k \<and> k < 12"
proof -
  have eq: "(0xF00 :: nat) = push_bit 8 (mask 4)" by (simp add: mask_eq_exp_minus_1 push_bit_eq_mult)
  show ?thesis unfolding eq by (auto simp: bit_push_bit_iff_nat bit_mask_iff)
qed

lemma bit_0x0F: "bit (0x0F :: nat) k \<longleftrightarrow> k < 4"
proof -
  have eq: "(0x0F :: nat) = mask 4" by (simp add: mask_eq_exp_minus_1)
  show ?thesis unfolding eq by (simp add: bit_mask_iff)
qed

lemma bit_small: "(x :: nat) < 2 ^ n \<Longrightarrow> bit x k \<Longrightarrow> k < n"
  by (metis bit_take_bit_iff take_bit_nat_eq_self)

lemma pair_bytes:
  assumes p: "p < 4096" and n: "3 \<le> n" "n \<le> 18"
  defines "j \<equiv> (drop_bit 4 p AND 0xF0) OR (n - 3)"
  shows "unat (of_nat p :: byte) OR push_bit 4 (unat (of_nat j :: byte) AND 0xF0) = p"
    and "(unat (of_nat j :: byte) AND 0x0F) + THRESHOLD + 1 = n"
proof -
  have m: "bit (n - 3) k \<Longrightarrow> k < 4" for k using n bit_small [of "n - 3" 4 k] by simp
  have pb: "bit p k \<Longrightarrow> k < 12" for k using p bit_small [of p 12 k] by simp
  have uj: "unat (of_nat j :: byte) = take_bit 8 j" "unat (of_nat p :: byte) = take_bit 8 p" by (simp_all add: unsigned_of_nat)
  show "unat (of_nat p :: byte) OR push_bit 4 (unat (of_nat j :: byte) AND 0xF0) = p"
    unfolding uj by (rule bit_eqI) (auto simp: bit_simps bit_0xF0 bit_0xF00 j_def dest: m pb)
  have "unat (of_nat j :: byte) AND 0x0F = n - 3"
    unfolding uj by (rule bit_eqI) (auto simp: bit_simps bit_0xF0 bit_0x0F j_def dest: m)
  then show "(unat (of_nat j :: byte) AND 0x0F) + THRESHOLD + 1 = n" using n by simp
qed

lemma decodeUnit_pair:
  "fl AND 1 = 0 \<Longrightarrow> decodeUnit dstlen fl (i # j # rest) d
     = Some (rest, copyLoop dstlen (unat i OR push_bit 4 (unat j AND 0xF0)) ((unat j AND 0x0F) + THRESHOLD + 1) 0 d)"
  by (cases d) (simp add: decodeUnit_def Let_def del: copyLoop.simps)

lemma decodeUnit_token:
  assumes "tokOK src e t" and "agrees src e d" and "e + ahead t \<le> dstlen" and "fl AND 1 \<noteq> 0 \<longleftrightarrow> is_Letter t"
  shows "\<exists>d'. decodeUnit dstlen fl (tokBytes t @ rest) d = Some (rest, d') \<and> agrees src (e + ahead t) d'"
proof (cases t)
  case (Letter c)
  obtain tb r dst where d: "d = (tb, r, dst)" by (cases d)
  have "length dst < dstlen" using assms(2,3) Letter by (auto simp: agrees_def d)
  with agrees_putOut [OF assms(2)] assms(1,4) Letter show ?thesis by (simp add: decodeUnit_def d)
next
  case (Pair p n)
  obtain P where "P mod 4096 = p" "e \<le> P" "P < 4078 + e" "\<forall>k < n. place src (P + k) = place src (4078 + e + k)"
    using assms(1) Pair by (auto simp: occurs_def)
  from agrees_copyLoop [OF this, of dstlen 0 d n] assms Pair have "agrees src (e + n) (copyLoop dstlen p n 0 d)" by simp
  moreover have "p < 4096" "3 \<le> n" "n \<le> 18" using assms(1) Pair by (auto dest: occurs_lt)
  note pair_bytes [OF this]
  then have "decodeUnit dstlen fl (tokBytes t @ rest) d = Some (rest, copyLoop dstlen p n 0 d)"
    using decodeUnit_pair [of fl dstlen _ _ rest d] assms(4) unfolding Pair by (simp only: tokBytes.simps append.simps token.disc) simp
  ultimately show ?thesis using Pair by simp
qed

text \<open>The flags of a group of up to eight tokens, in the lower byte of the decoder's flags.\<close>

definition flagged :: "byte \<Rightarrow> nat \<Rightarrow> token list \<Rightarrow> bool" where
  "flagged f i ts \<longleftrightarrow> i + length ts \<le> 8 \<and> (\<forall>j < length ts. bit f (i + j) \<longleftrightarrow> is_Letter (ts ! j))"

definition loaded :: "byte \<Rightarrow> u32" where
  "loaded f = ucast f OR 0xFF00"

lemma bit_loaded: "bit (loaded f) k \<longleftrightarrow> k < 8 \<and> bit f k \<or> 8 \<le> k \<and> k < 16"
proof -
  have eq: "(0xFF00 :: u32) = push_bit 8 (mask 8)" by (simp add: mask_eq_exp_minus_1 push_bit_eq_mult)
  show ?thesis unfolding loaded_def eq by (auto simp: bit_simps dest: bit_imp_le_length)
qed

lemma and_1_bit: "(x :: u32) AND 1 \<noteq> 0 \<longleftrightarrow> bit x 0"
  by (simp add: bit_0 and_one_eq odd_iff_mod_2_eq_one)

lemma no_bits: "(y :: u32) = 0 \<longleftrightarrow> (\<forall>k. \<not> bit y k)"
  using bit_eq_iff [of y 0] by (auto dest: bit_imp_le_length)

lemma and_0x100_bit: "(x :: u32) AND 0x100 = 0 \<longleftrightarrow> \<not> bit x 8"
proof -
  have eq: "(0x100 :: u32) = push_bit 8 1" by simp
  have b: "bit (push_bit 8 1 :: u32) k \<longleftrightarrow> k = 8" for k by (simp only: bit_push_bit_iff bit_1_iff) auto
  have "bit (x AND push_bit 8 1) k \<longleftrightarrow> k = 8 \<and> bit x 8" for k unfolding bit_and_iff b by blast
  then show ?thesis unfolding eq no_bits by blast
qed

lemma loaded_letter: "i < 8 \<Longrightarrow> drop_bit i (loaded f) AND 1 \<noteq> 0 \<longleftrightarrow> bit f i"
  by (simp only: and_1_bit) (simp add: bit_drop_bit_eq bit_loaded)

lemma nextFlags_shift: "i < 7 \<Longrightarrow> nextFlags (drop_bit i (loaded f)) src = Some (drop_bit (Suc i) (loaded f), src)"
  by (simp only: nextFlags_def Let_def and_0x100_bit) (simp add: bit_drop_bit_eq bit_loaded add.commute)

lemma nextFlags_load: "nextFlags (drop_bit 7 (loaded f)) (g # src) = Some (loaded g, src)"
  by (simp only: nextFlags_def Let_def and_0x100_bit) (simp add: bit_drop_bit_eq bit_loaded loaded_def [of g])

lemma decodeLoop_next:
  "nextFlags fl src = Some (fl', src1) \<Longrightarrow> decodeUnit dstlen fl' src1 d = Some (src2, d')
    \<Longrightarrow> decodeLoop dstlen fl src d = decodeLoop dstlen fl' src2 d'"
  by (subst decodeLoop.simps) simp

lemma decodeLoop_end: "decodeLoop dstlen fl [] d = snd (snd d)"
  by (subst decodeLoop.simps) (auto simp: nextFlags_def decodeUnit_def Let_def split: prod.split option.split)

lemma decode_tokens:
  assumes "flagged f (Suc i) ts" and "describes src e ts" and "agrees src e d" and "e + aheadAll ts \<le> dstlen"
  shows "\<exists>d'. agrees src (e + aheadAll ts) d' \<and>
    decodeLoop dstlen (drop_bit i (loaded f)) (concat (map tokBytes ts) @ rest) d = decodeLoop dstlen (drop_bit (i + length ts) (loaded f)) rest d'"
  using assms
proof (induction ts arbitrary: i e d)
  case (Cons t ts)
  have i: "i < 7" "bit f (Suc i) \<longleftrightarrow> is_Letter t" using Cons.prems(1) by (auto simp: flagged_def)
  have f: "flagged f (Suc (Suc i)) ts" using Cons.prems(1) by (auto simp: flagged_def)
  from decodeUnit_token [of src e t d dstlen "drop_bit (Suc i) (loaded f)" "concat (map tokBytes ts) @ rest"]
  obtain d1 where d1: "decodeUnit dstlen (drop_bit (Suc i) (loaded f)) (tokBytes t @ concat (map tokBytes ts) @ rest) d
      = Some (concat (map tokBytes ts) @ rest, d1)" "agrees src (e + ahead t) d1"
    using Cons.prems i loaded_letter [of "Suc i" f] by auto
  from Cons.IH [OF f _ d1(2)] Cons.prems(2,4) decodeLoop_next [OF nextFlags_shift [OF i(1)] d1(1)]
  show ?case by (auto simp: add.assoc)
qed auto

definition groupBytes :: "byte \<times> token list \<Rightarrow> byte list" where
  "groupBytes = (\<lambda>(f, ts). f # concat (map tokBytes ts))"

lemma decode_group:
  assumes "flagged f 0 ts" and "ts \<noteq> []" and "describes src e ts" and "agrees src e d" and "e + aheadAll ts \<le> dstlen"
    and fl: "nextFlags fl (groupBytes (f, ts) @ rest) = Some (loaded f, concat (map tokBytes ts) @ rest)"
  shows "\<exists>d'. agrees src (e + aheadAll ts) d' \<and>
    decodeLoop dstlen fl (groupBytes (f, ts) @ rest) d = decodeLoop dstlen (drop_bit (length ts - 1) (loaded f)) rest d'"
proof -
  obtain t us where ts: "ts = t # us" using assms(2) by (meson neq_Nil_conv)
  have f: "flagged f (Suc 0) us" "bit f 0 \<longleftrightarrow> is_Letter t" using assms(1) by (auto simp: flagged_def ts)
  from decodeUnit_token [of src e t d dstlen "loaded f" "concat (map tokBytes us) @ rest"]
  obtain d1 where d1: "decodeUnit dstlen (loaded f) (tokBytes t @ concat (map tokBytes us) @ rest) d
      = Some (concat (map tokBytes us) @ rest, d1)" "agrees src (e + ahead t) d1"
    using assms f(2) loaded_letter [of 0 f] by (auto simp: ts)
  from fl d1(1) decode_tokens [OF f(1) _ d1(2), of dstlen rest] assms(3,5) show ?thesis
    by (auto simp: ts add.assoc decodeLoop_next)
qed

abbreviation tokensOf :: "(byte \<times> token list) list \<Rightarrow> token list" where
  "tokensOf gs \<equiv> concat (map snd gs)"

text \<open>Full groups, and after them a group that need not be full.\<close>

definition full :: "(byte \<times> token list) list \<Rightarrow> bool" where
  "full gs \<longleftrightarrow> (\<forall>(f, ts) \<in> set gs. flagged f 0 ts \<and> length ts = 8)"

lemma nextFlags_first: "nextFlags 0 (groupBytes (f, ts) @ rest) = Some (loaded f, concat (map tokBytes ts) @ rest)"
  by (simp add: nextFlags_def groupBytes_def loaded_def)

lemma nextFlags_group: "nextFlags (drop_bit 7 (loaded g)) (groupBytes (f, ts) @ rest) = Some (loaded f, concat (map tokBytes ts) @ rest)"
  by (simp add: nextFlags_load groupBytes_def)

text \<open>The flags at the start of a group.\<close>

definition ready :: "u32 \<Rightarrow> bool" where
  "ready fl \<longleftrightarrow> fl = 0 \<or> (\<exists>g. fl = drop_bit 7 (loaded g))"

lemma ready_0: "ready 0" by (simp add: ready_def)

lemma ready_next: "ready fl \<Longrightarrow> nextFlags fl (groupBytes (f, ts) @ rest) = Some (loaded f, concat (map tokBytes ts) @ rest)"
  using nextFlags_first nextFlags_group by (auto simp: ready_def)

lemma decode_groups:
  assumes "full gs" and "describes src e (tokensOf gs)" and "agrees src e d" and "e + aheadAll (tokensOf gs) \<le> dstlen"
    and "ready fl"
  shows "\<exists>d' fl'. agrees src (e + aheadAll (tokensOf gs)) d' \<and> ready fl'
    \<and> decodeLoop dstlen fl (concat (map groupBytes gs) @ rest) d = decodeLoop dstlen fl' rest d'"
  using assms
proof (induction gs arbitrary: e d fl)
  case (Cons x gs)
  obtain f ts where x: "x = (f, ts)" by (cases x)
  have g: "flagged f 0 ts" "length ts = 8" "full gs" using Cons.prems(1) by (auto simp: full_def x)
  then have ts: "ts \<noteq> []" by auto
  have r: "ready (drop_bit 7 (loaded f))" by (auto simp: ready_def)
  from decode_group [OF g(1) ts _ Cons.prems(3) _ ready_next [OF Cons.prems(5)], of dstlen "concat (map groupBytes gs) @ rest"] Cons.prems(2,4) g(2)
  obtain d1 where d1: "agrees src (e + aheadAll ts) d1"
    "decodeLoop dstlen fl (groupBytes (f, ts) @ concat (map groupBytes gs) @ rest) d
       = decodeLoop dstlen (drop_bit 7 (loaded f)) (concat (map groupBytes gs) @ rest) d1"
    by (auto simp: x describes_append)
  from Cons.IH [OF g(3) _ d1(1) _ r] Cons.prems(2,4) d1(2) show ?case
    by (auto simp: x describes_append add.assoc)
qed auto

text \<open>Decoding the code of a description gives the text described.\<close>

lemma decompress_described:
  assumes "full gs" and "flagged f 0 ts" and "describes src 0 (tokensOf gs @ ts)" and "aheadAll (tokensOf gs @ ts) = length src"
    and "length src \<le> dstlen"
  shows "decompress_lzss fresh dstlen (concat (map groupBytes gs) @ (if ts = [] then [] else groupBytes (f, ts))) = src"
proof -
  let ?d = "(\<lambda>i. if i < RBSIZE - UPLIM then 0x20 else fresh i, RBSIZE - UPLIM, [])"
  have a: "agrees src 0 ?d" by (simp add: agrees_def place_def)
  have D: "describes src 0 (tokensOf gs)" "describes src (aheadAll (tokensOf gs)) ts" using assms(3) by (auto simp: describes_append)
  let ?rest = "if ts = [] then [] else groupBytes (f, ts)"
  from decode_groups [OF assms(1) D(1) a, of dstlen 0 ?rest] assms(4,5) obtain d1 fl where
    d1: "agrees src (aheadAll (tokensOf gs)) d1" "ready fl"
      "decodeLoop dstlen 0 (concat (map groupBytes gs) @ ?rest) ?d = decodeLoop dstlen fl ?rest d1" using ready_0 by auto
  have "\<exists>d2. agrees src (length src) d2 \<and> decodeLoop dstlen fl ?rest d1 = snd (snd d2)"
  proof (cases "ts = []")
    case True
    with d1(1) assms(4) show ?thesis by (intro exI [of _ d1]) (simp add: decodeLoop_end)
  next
    case False
    from decode_group [OF assms(2) False D(2) d1(1) _ ready_next [OF d1(2)], of dstlen "[]"] assms(4,5) False show ?thesis
      by (auto simp: decodeLoop_end)
  qed
  then show ?thesis unfolding decompress_lzss_def d1(3) by (auto simp: agrees_def)
qed

lemma copyLoop_bound: "length (snd (snd d)) \<le> dstlen \<Longrightarrow> length (snd (snd (copyLoop dstlen i n k d))) \<le> dstlen"
  by (induction dstlen i n k d rule: copyLoop.induct) (auto simp: putOut_def)

lemma decodeLoop_bound: "length (snd (snd d)) \<le> dstlen \<Longrightarrow> length (decodeLoop dstlen fl src d) \<le> dstlen"
proof (induction dstlen fl src d rule: decodeLoop.induct)
  case (1 dstlen fl src d)
  have "length (snd (snd d')) \<le> dstlen" if "decodeUnit dstlen fl' s d = Some (s', d')" for fl' s s' d'
    using that "1.prems" copyLoop_bound
    by (fastforce simp: decodeUnit_def Let_def putOut_def split: if_split_asm list.split_asm prod.split_asm)
  with "1" show ?case by (subst decodeLoop.simps) (auto split: option.split)
qed

text \<open>The decoder stays inside the destination whatever it reads.\<close>

lemma decompress_bound: "length (decompress_lzss fresh dstlen src) \<le> dstlen"
  by (simp add: decompress_lzss_def decodeLoop_bound)

section \<open>The forest in the arrays\<close>

text \<open>
  Nodes are the places with a parent; the roots are the 256 entries behind the places. \<open>K\<close> is the first
  byte of the string of a node and the byte of a root. \<open>h\<close> bounds the height, so that every walk down ends.
\<close>

definition isNode :: "(nat \<Rightarrow> nat) \<Rightarrow> nat \<Rightarrow> bool" where
  "isNode P x \<longleftrightarrow> x < 4096 \<and> P x \<noteq> NIL"

definition isVert :: "(nat \<Rightarrow> nat) \<Rightarrow> nat \<Rightarrow> bool" where
  "isVert P x \<longleftrightarrow> isNode P x \<or> 4096 < x \<and> x < 4353"

definition kid :: "(nat \<Rightarrow> nat) \<Rightarrow> (nat \<Rightarrow> nat) \<Rightarrow> nat \<Rightarrow> nat \<Rightarrow> bool" where
  "kid L R x y \<longleftrightarrow> y \<noteq> NIL \<and> (R x = y \<or> x < 4096 \<and> L x = y)"

definition tree_ok :: "(nat \<Rightarrow> nat) \<Rightarrow> (nat \<Rightarrow> nat) \<Rightarrow> (nat \<Rightarrow> nat) \<Rightarrow> (nat \<Rightarrow> nat) \<Rightarrow> (nat \<Rightarrow> nat) \<Rightarrow> bool" where
  "tree_ok L R P K h \<longleftrightarrow>
     (\<forall>x y. isVert P x \<and> kid L R x y \<longrightarrow> isNode P y \<and> P y = x \<and> K y = K x \<and> h y < h x)
   \<and> (\<forall>y. isNode P y \<longrightarrow> isVert P (P y) \<and> kid L R (P y) y)
   \<and> (\<forall>x. isNode P x \<and> L x = R x \<longrightarrow> L x = NIL)"

lemma tree_okI:
  assumes "\<And>x y. isVert P x \<Longrightarrow> kid L R x y \<Longrightarrow> isNode P y \<and> P y = x \<and> K y = K x \<and> h y < h x"
    and "\<And>y. isNode P y \<Longrightarrow> isVert P (P y) \<and> kid L R (P y) y"
    and "\<And>x. isNode P x \<Longrightarrow> L x = R x \<Longrightarrow> L x = NIL"
  shows "tree_ok L R P K h"
  unfolding tree_ok_def using assms by blast

lemma tree_ok_kid: "tree_ok L R P K h \<Longrightarrow> isVert P x \<Longrightarrow> kid L R x y \<Longrightarrow> isNode P y \<and> P y = x \<and> K y = K x \<and> h y < h x"
  by (simp add: tree_ok_def)

lemma tree_ok_up: "tree_ok L R P K h \<Longrightarrow> isNode P y \<Longrightarrow> isVert P (P y) \<and> kid L R (P y) y"
  by (simp add: tree_ok_def)

lemma tree_ok_two: "tree_ok L R P K h \<Longrightarrow> isNode P x \<Longrightarrow> L x = R x \<Longrightarrow> L x = NIL"
  by (simp add: tree_ok_def)

text \<open>Only the entries of nodes and roots matter.\<close>

lemma tree_ok_cong:
  assumes t: "tree_ok L R P K h" and P: "\<And>x. x < 4096 \<Longrightarrow> P' x = P x"
    and L: "\<And>x. isNode P x \<Longrightarrow> L' x = L x" and R: "\<And>x. isVert P x \<Longrightarrow> R' x = R x" and K: "\<And>x. isVert P x \<Longrightarrow> K' x = K x"
  shows "tree_ok L' R' P' K' h"
proof -
  have n: "isNode P' x = isNode P x" "isVert P' x = isVert P x" for x using P by (auto simp: isNode_def isVert_def)
  have k: "kid L' R' x y = kid L R x y" if "isVert P x" for x y using that L R by (auto simp: kid_def isVert_def)
  show ?thesis
  proof (rule tree_okI)
    fix x y assume "isVert P' x" "kid L' R' x y"
    then have "isVert P x" "kid L R x y" using n k by auto
    with tree_ok_kid [OF t] have "isNode P y \<and> P y = x \<and> K y = K x \<and> h y < h x" by blast
    with P K n \<open>isVert P x\<close> show "isNode P' y \<and> P' y = x \<and> K' y = K' x \<and> h y < h x" by (auto simp: isNode_def isVert_def)
  next
    fix y assume "isNode P' y"
    then have "isNode P y" "P' y = P y" using n P by (auto simp: isNode_def)
    with tree_ok_up [OF t] n k show "isVert P' (P' y) \<and> kid L' R' (P' y) y" by auto
  next
    fix x assume "isNode P' x" "L' x = R' x"
    with tree_ok_two [OF t, of x] n L R show "L' x = NIL" by (auto simp: isVert_def)
  qed
qed

lemma isNode_upd: "isNode (P(a := b)) x \<longleftrightarrow> (if x = a then a < 4096 \<and> b \<noteq> NIL else isNode P x)"
  by (simp add: isNode_def)

lemma isVert_NIL: "\<not> isVert P 4096" "\<not> isNode P 4096"
  by (simp_all add: isVert_def isNode_def)

text \<open>A new leaf below \<open>p\<close>.\<close>

lemma tree_ok_hang:
  assumes t: "tree_ok L R P K h" and r: "r < 4096" "P r = NIL" "\<And>y. \<not> kid L' R' r y" and p: "isVert P p" "K r = K p"
    and k: "\<And>x y. isVert P x \<Longrightarrow> kid L' R' x y \<longleftrightarrow> kid L R x y \<or> x = p \<and> y = r"
    and two: "\<And>x. isNode P x \<or> x = r \<Longrightarrow> L' x = R' x \<Longrightarrow> L' x = NIL"
  shows "tree_ok L' R' (P(r := p)) K (\<lambda>x. if x = r then 0 else Suc (h x))"
proof -
  have p': "p \<noteq> NIL" "p \<noteq> r" using p(1) r by (auto simp: isVert_def isNode_def)
  have n: "isNode (P(r := p)) x \<longleftrightarrow> x = r \<or> isNode P x" for x using r p' by (auto simp: isNode_def)
  have v: "isVert (P(r := p)) x \<longleftrightarrow> x = r \<or> isVert P x" for x using n by (auto simp: isVert_def)
  have nr: "\<not> isNode P r" "\<not> isVert P r" using r by (auto simp: isNode_def isVert_def)
  show ?thesis
  proof (rule tree_okI)
    fix x y assume "isVert (P(r := p)) x" "kid L' R' x y"
    then have x: "isVert P x" using v r(3) by auto
    with \<open>kid L' R' x y\<close> k consider "kid L R x y" | "x = p" "y = r" by blast
    then show "isNode (P(r := p)) y \<and> (P(r := p)) y = x \<and> K y = K x \<and> (if y = r then 0 else Suc (h y)) < (if x = r then 0 else Suc (h x))"
    proof cases
      case 1
      from tree_ok_kid [OF t x 1] nr x show ?thesis by (auto simp: n)
    next
      case 2
      then show ?thesis using p' p(2) by (auto simp: n)
    qed
  next
    fix y assume "isNode (P(r := p)) y"
    then show "isVert (P(r := p)) ((P(r := p)) y) \<and> kid L' R' ((P(r := p)) y) y"
      using tree_ok_up [OF t, of y] p(1) r p' k by (cases "y = r") (auto simp: n v)
  next
    fix x assume "isNode (P(r := p)) x" "L' x = R' x"
    then show "L' x = NIL" using two [of x] n [of x] by auto
  qed
qed

text \<open>A place \<open>r\<close> outside the forest takes over the parent and the children of \<open>p\<close>.\<close>

lemma tree_ok_replace:
  assumes t: "tree_ok L R P K h" and r: "r < 4096" "P r = NIL" "K r = K p" and p: "isNode P p"
    and k: "\<And>x y. isVert P x \<Longrightarrow> x \<noteq> p \<Longrightarrow> kid L' R' x y \<longleftrightarrow> (if y = r then kid L R x p else y \<noteq> p \<and> kid L R x y)"
    and kr: "\<And>y. kid L' R' r y \<longleftrightarrow> kid L R p y"
    and P: "P' r = P p" "P' p = NIL" "\<And>y. kid L R p y \<Longrightarrow> P' y = r" "\<And>y. y < 4096 \<Longrightarrow> y \<noteq> r \<Longrightarrow> y \<noteq> p \<Longrightarrow> \<not> kid L R p y \<Longrightarrow> P' y = P y"
    and two: "\<And>x. isNode P x \<or> x = r \<Longrightarrow> x \<noteq> p \<Longrightarrow> L' x = R' x \<Longrightarrow> L' x = NIL"
  shows "tree_ok L' R' P' K (h(r := h p))"
proof -
  have nr: "\<not> isNode P r" "\<not> isVert P r" "p \<noteq> r" using r p by (auto simp: isNode_def isVert_def)
  have pv: "isVert P p" using p by (simp add: isVert_def)
  have kp: "\<not> kid L R x r" if "isVert P x" for x using tree_ok_kid [OF t that] nr by blast
  have pp: "\<not> kid L R p p" using tree_ok_kid [OF t pv, of p] by auto
  have n: "isNode P' x \<longleftrightarrow> x = r \<or> isNode P x \<and> x \<noteq> p" for x
  proof (cases "kid L R p x")
    case True
    then have "x \<noteq> r" "x \<noteq> p" "isNode P x" using kp [OF pv] pp tree_ok_kid [OF t pv] by blast+
    with P(3) [OF True] r show ?thesis by (simp add: isNode_def)
  next
    case False
    then show ?thesis using P(1,2) P(4) [of x] r(1) nr p tree_ok_up [OF t p]
      by (cases "x = r"; cases "x = p") (auto simp: isNode_def isVert_def)
  qed
  have v: "isVert P' x \<longleftrightarrow> x = r \<or> isVert P x \<and> x \<noteq> p" for x unfolding isVert_def n using p by (auto simp: isNode_def)
  show ?thesis
  proof (rule tree_okI)
    fix x y assume x: "isVert P' x" and y: "kid L' R' x y"
    consider "x = r" "kid L R p y" | "isVert P x" "x \<noteq> p" "y = r" "kid L R x p" | "isVert P x" "x \<noteq> p" "y \<noteq> r" "y \<noteq> p" "kid L R x y"
      using x y v [of x] k [of x y] kr [of y] by (cases "x = r"; cases "y = r") auto
    then show "isNode P' y \<and> P' y = x \<and> K y = K x \<and> (h(r := h p)) y < (h(r := h p)) x"
    proof cases
      case 1
      then have "y \<noteq> r" "y \<noteq> p" using kp [OF pv] pp by blast+
      with tree_ok_kid [OF t pv 1(2)] P(3) [OF 1(2)] r(3) 1(1) show ?thesis by (simp add: n)
    next
      case 2
      with tree_ok_kid [OF t 2(1,4)] nr P(1) r(3) show ?thesis by (auto simp: n)
    next
      case 3
      note a = tree_ok_kid [OF t 3(1,5)]
      then have "\<not> kid L R p y" using 3 tree_ok_kid [OF t pv, of y] by auto
      moreover have "x \<noteq> r" using 3(1) nr by blast
      ultimately show ?thesis using a 3 P(4) [of y] by (auto simp: n isNode_def)
    qed
  next
    fix y assume "isNode P' y"
    then consider "y = r" | "y \<noteq> r" "isNode P y" "y \<noteq> p" "kid L R p y" | "y \<noteq> r" "isNode P y" "y \<noteq> p" "\<not> kid L R p y" using n by blast
    then show "isVert P' (P' y) \<and> kid L' R' (P' y) y"
    proof cases
      case 1
      have "P p \<noteq> p" using tree_ok_up [OF t p] tree_ok_kid [OF t, of "P p" p] by (metis less_irrefl)
      with 1 P(1) tree_ok_up [OF t p] k [of "P p" r] show ?thesis by (auto simp: v)
    next
      case 2
      with P(3) [OF 2(4)] kr [of y] show ?thesis by (auto simp: v)
    next
      case 3
      then have "P' y = P y" "P y \<noteq> p" using P(4) [of y] tree_ok_up [OF t 3(2)] by (auto simp: isNode_def)
      with tree_ok_up [OF t 3(2)] k [of "P y" y] 3 show ?thesis by (auto simp: v)
    qed
  next
    fix x assume "isNode P' x" "L' x = R' x"
    then show "L' x = NIL" using two [of x] n [of x] nr(3) by auto
  qed
qed

text \<open>A node \<open>p\<close> with at most the child \<open>c\<close> goes, and \<open>c\<close>, unless it is \<open>NIL\<close>, takes its place.\<close>

lemma tree_ok_unlink:
  assumes t: "tree_ok L R P K h" and p: "isNode P p" and c: "\<And>y. kid L R p y \<longleftrightarrow> y = c \<and> c \<noteq> NIL"
    and k: "\<And>x y. isVert P x \<Longrightarrow> x \<noteq> p \<Longrightarrow> kid L' R' x y \<longleftrightarrow> (y \<noteq> p \<and> kid L R x y) \<or> (x = P p \<and> y = c \<and> c \<noteq> NIL)"
    and P: "P' p = NIL" "c \<noteq> NIL \<Longrightarrow> P' c = P p" "\<And>y. y < 4096 \<Longrightarrow> y \<noteq> p \<Longrightarrow> y \<noteq> c \<Longrightarrow> P' y = P y"
    and two: "\<And>x. isNode P x \<Longrightarrow> x \<noteq> p \<Longrightarrow> L' x = R' x \<Longrightarrow> L' x = NIL"
  shows "tree_ok L' R' P' K h"
proof -
  have pv: "isVert P p" using p by (simp add: isVert_def)
  note up = tree_ok_up [OF t p]
  note hp = tree_ok_kid [OF t conjunct1 [OF up] conjunct2 [OF up]]
  have cn: "isNode P c \<and> P c = p \<and> K c = K p \<and> h c < h p" if "c \<noteq> NIL" using tree_ok_kid [OF t pv, of c] c that by blast
  have n: "isNode P' x \<longleftrightarrow> isNode P x \<and> x \<noteq> p" for x
    using P(1,2) P(3) [of x] cn up by (cases "x = p"; cases "x = c") (auto simp: isNode_def isVert_def)
  have v: "isVert P' x \<longleftrightarrow> isVert P x \<and> x \<noteq> p" for x unfolding isVert_def n using p by (auto simp: isNode_def)
  show ?thesis
  proof (rule tree_okI)
    fix x y assume "isVert P' x" and y: "kid L' R' x y"
    then have x: "isVert P x" "x \<noteq> p" using v by auto
    with y k [of x y] consider "y \<noteq> p" "kid L R x y" | "x = P p" "y = c" "c \<noteq> NIL" by blast
    then show "isNode P' y \<and> P' y = x \<and> K y = K x \<and> h y < h x"
    proof cases
      case 1
      note a = tree_ok_kid [OF t x(1) 1(2)]
      have "y \<noteq> c"
      proof
        assume "y = c"
        then have "c \<noteq> NIL" using a isVert_NIL(2) by metis
        from cn [OF this] \<open>y = c\<close> a x(2) show False by simp
      qed
      then have "P' y = P y" using P(3) [of y] a 1(1) by (simp add: isNode_def)
      with a 1(1) show ?thesis by (simp add: n)
    next
      case 2
      have "c \<noteq> p" using cn [OF 2(3)] by auto
      moreover have "h c < h (P p)" using cn [OF 2(3)] hp by linarith
      ultimately show ?thesis unfolding 2(1,2) n using cn [OF 2(3)] P(2) [OF 2(3)] hp by simp
    qed
  next
    fix y assume "isNode P' y"
    then have y: "isNode P y" "y \<noteq> p" using n by auto
    show "isVert P' (P' y) \<and> kid L' R' (P' y) y"
    proof (cases "y = c")
      case True
      then have "c \<noteq> NIL" using y(1) by (auto simp: isNode_def)
      moreover have "P p \<noteq> p" using hp by auto
      ultimately show ?thesis using True P(2) up k [of "P p" y] by (auto simp: v)
    next
      case False
      then have "P' y = P y" "P y \<noteq> p" using y P(3) [of y] tree_ok_up [OF t y(1)] c [of y] by (auto simp: isNode_def)
      with tree_ok_up [OF t y(1)] k [of "P y" y] y show ?thesis by (auto simp: v)
    qed
  next
    fix x assume "isNode P' x" "L' x = R' x"
    then show "L' x = NIL" using two [of x] n [of x] by auto
  qed
qed

lemma node_kids:
  assumes "tree_ok L R P K h" and "isNode P p"
  shows "p < 4096" and "L p \<noteq> NIL \<Longrightarrow> isNode P (L p) \<and> P (L p) = p" and "R p \<noteq> NIL \<Longrightarrow> isNode P (R p) \<and> P (R p) = p"
    and "L p \<noteq> p" and "R p \<noteq> p" and "L p \<le> 4096" and "R p \<le> 4096"
proof -
  have p: "p < 4096" "isVert P p" using assms(2) by (auto simp: isNode_def isVert_def)
  have L: "isNode P (L p) \<and> P (L p) = p \<and> h (L p) < h p" if "L p \<noteq> NIL"
    using tree_ok_kid [OF assms(1) p(2), of "L p"] that p(1) by (simp add: kid_def)
  have R: "isNode P (R p) \<and> P (R p) = p \<and> h (R p) < h p" if "R p \<noteq> NIL"
    using tree_ok_kid [OF assms(1) p(2), of "R p"] that by (simp add: kid_def)
  show "p < 4096" by (fact p(1))
  show "L p \<noteq> NIL \<Longrightarrow> isNode P (L p) \<and> P (L p) = p" using L by blast
  show "R p \<noteq> NIL \<Longrightarrow> isNode P (R p) \<and> P (R p) = p" using R by blast
  show "L p \<noteq> p" using L p(1) by (metis less_irrefl)
  show "R p \<noteq> p" using R p(1) by (metis less_irrefl)
  show "L p \<le> 4096" using L by (cases "L p = NIL") (auto simp: isNode_def)
  show "R p \<le> 4096" using R by (cases "R p = NIL") (auto simp: isNode_def)
qed

lemma node_parent:
  assumes "tree_ok L R P K h" and "isNode P p"
  shows "isVert P (P p)" and "P p < 4353" and "P p \<noteq> p" and "R (P p) = p \<or> P p < 4096 \<and> L (P p) = p"
proof -
  note up = tree_ok_up [OF assms]
  note k = tree_ok_kid [OF assms(1) conjunct1 [OF up] conjunct2 [OF up]]
  show "isVert P (P p)" using up by blast
  then show "P p < 4353" by (auto simp: isVert_def isNode_def)
  show "P p \<noteq> p" using k by auto
  show "R (P p) = p \<or> P p < 4096 \<and> L (P p) = p" using up by (auto simp: kid_def)
qed

text \<open>The link from the parent of \<open>p\<close> turned to \<open>v\<close>.\<close>

definition relL :: "(nat \<Rightarrow> nat) \<Rightarrow> (nat \<Rightarrow> nat) \<Rightarrow> nat \<Rightarrow> nat \<Rightarrow> nat \<Rightarrow> nat \<Rightarrow> nat" where
  "relL L R q p v = (if R q = p then L else L(q := v))"

definition relR :: "(nat \<Rightarrow> nat) \<Rightarrow> nat \<Rightarrow> nat \<Rightarrow> nat \<Rightarrow> nat \<Rightarrow> nat" where
  "relR R q p v = (if R q = p then R(q := v) else R)"

lemma kid_relink:
  assumes t: "tree_ok L R P K h" and p: "isNode P p" and x: "isVert P x"
  shows "kid (relL L R (P p) p v) (relR R (P p) p v) x y \<longleftrightarrow> (y \<noteq> p \<and> kid L R x y) \<or> (x = P p \<and> y = v \<and> v \<noteq> NIL)"
proof (cases "x = P p")
  case False
  then have "\<not> kid L R x p" using tree_ok_kid [OF t x, of p] by blast
  with False show ?thesis by (auto simp: relL_def relR_def kid_def)
next
  case True
  have two: "L x \<noteq> p \<or> \<not> x < 4096 \<or> R x \<noteq> p"
    using tree_ok_two [OF t, of x] x node_kids(1) [OF t p] by (auto simp: isVert_def)
  with True node_parent(4) [OF t p] show ?thesis by (auto simp: relL_def relR_def kid_def)
qed

lemma two_relink:
  assumes t: "tree_ok L R P K h" and p: "isNode P p" and x: "isNode P x" and v: "v \<noteq> NIL \<Longrightarrow> \<not> kid L R (P p) v"
    and e: "relL L R (P p) p v x = relR R (P p) p v x"
  shows "relL L R (P p) p v x = NIL"
proof (cases "x = P p \<and> v \<noteq> NIL")
  case True
  with v x have "L x \<noteq> v" "R x \<noteq> v" by (auto simp: kid_def isNode_def)
  with True e show ?thesis by (auto simp: relL_def relR_def split: if_split_asm)
next
  case False
  with e tree_ok_two [OF t x] show ?thesis by (auto simp: relL_def relR_def split: if_split_asm)
qed

lemmas accesses = getL_def getR_def getP_def getT_def setL_def setR_def setP_def setT_def

definition keyOf :: "(nat \<Rightarrow> byte) \<Rightarrow> nat \<Rightarrow> nat" where
  "keyOf tb x = (if x < 4096 then unat (tb x) else x - 4097)"

abbreviation forest :: "encode_state \<Rightarrow> (nat \<Rightarrow> nat) \<Rightarrow> bool" where
  "forest sp \<equiv> tree_ok (lchild sp) (rchild sp) (parent sp) (keyOf (text_buf sp))"

lemma replaceNode_eq:
  assumes t: "forest sp h" and p: "isNode (parent sp) p" and r: "r < 4096" "parent sp r = NIL"
  defines "q \<equiv> parent sp p" and "L1 \<equiv> (lchild sp)(r := lchild sp p)" and "R1 \<equiv> (rchild sp)(r := rchild sp p)"
  shows "replaceNode r p sp = Some (sp\<lparr>lchild := relL L1 R1 q p r, rchild := relR R1 q p r,
    parent := (parent sp)(r := q, lchild sp p := r, rchild sp p := r, p := NIL)\<rparr>)"
proof -
  note a = node_kids [OF t p] and b = node_parent [OF t p]
  have rp: "r \<noteq> p" using p r by (auto simp: isNode_def)
  have rq: "r \<noteq> q" "q < 4353" "rchild sp q = p \<or> q < 4097" using b r by (auto simp: isVert_def isNode_def q_def)
  have q: "parent sp p = q" by (simp add: q_def)
  show ?thesis
    using a(1,4-7) rp rq r(1)
    by (auto simp: replaceNode_def relink_def accesses q relL_def relR_def L1_def R1_def fun_upd_twist)
qed

lemma tree_ok_replaced:
  assumes t: "tree_ok L R P K h" and p: "isNode P p" and r: "r < 4096" "P r = NIL" "K r = K p"
  shows "tree_ok (relL (L(r := L p)) (R(r := R p)) (P p) p r) (relR (R(r := R p)) (P p) p r)
    (P(r := P p, L p := r, R p := r, p := NIL)) K (h(r := h p))"
proof -
  let ?L1 = "L(r := L p)" and ?R1 = "R(r := R p)"
  let ?L' = "relL ?L1 ?R1 (P p) p r" and ?R' = "relR ?R1 (P p) p r" and ?P' = "P(r := P p, L p := r, R p := r, p := NIL)"
  note a = node_kids [OF t p] and b = node_parent [OF t p]
  have pv: "isVert P p" using p by (simp add: isVert_def)
  have nr: "\<not> isNode P r" "\<not> isVert P r" "r \<noteq> p" "P p \<noteq> r" using p r b(1) by (auto simp: isNode_def isVert_def)
  have kr: "\<not> kid L R x r" if "isVert P x" for x using tree_ok_kid [OF t that] nr by blast
  have rel: "?L' x = relL L R (P p) p r x" "?R' x = relR R (P p) p r x" if "x \<noteq> r" for x
    using that nr by (auto simp: relL_def relR_def)
  have rr: "?L' r = L p" "?R' r = R p" using nr by (auto simp: relL_def relR_def)
  show ?thesis
  proof (rule tree_ok_replace [OF t r p])
    show "kid ?L' ?R' r y \<longleftrightarrow> kid L R p y" for y using rr a(1) r(1) by (simp add: kid_def)
    show "?P' r = P p" using nr kr [OF pv] a(1) r(1) by (auto simp: kid_def)
    show "?P' p = NIL" by simp
    show "?P' y = r" if "kid L R p y" for y using that a(4,5) by (auto simp: kid_def)
    show "?P' y = P y" if "y < 4096" "y \<noteq> r" "y \<noteq> p" "\<not> kid L R p y" for y
      using that by (auto simp: kid_def a(1))
    show "?L' x = NIL" if "isNode P x \<or> x = r" "x \<noteq> p" "?L' x = ?R' x" for x
    proof (cases "x = r")
      case True
      with that(3) rr tree_ok_two [OF t p] show ?thesis by simp
    next
      case False
      with that(1) have "isNode P x" by simp
      from two_relink [OF t p this, of r] kr [OF b(1)] that(3) rel [OF False] show ?thesis by simp
    qed
    show "kid ?L' ?R' x y \<longleftrightarrow> (if y = r then kid L R x p else y \<noteq> p \<and> kid L R x y)" if "isVert P x" "x \<noteq> p" for x y
    proof -
      have "x \<noteq> r" using that(1) nr by blast
      then have "kid ?L' ?R' x y \<longleftrightarrow> kid (relL L R (P p) p r) (relR R (P p) p r) x y" by (simp add: kid_def rel)
      also have "\<dots> \<longleftrightarrow> (y \<noteq> p \<and> kid L R x y) \<or> (x = P p \<and> y = r \<and> r \<noteq> NIL)" by (rule kid_relink [OF t p that(1)])
      also have "x = P p \<longleftrightarrow> kid L R x p" using tree_ok_kid [OF t that(1), of p] tree_ok_up [OF t p] by blast
      finally have e: "kid ?L' ?R' x y \<longleftrightarrow> (y \<noteq> p \<and> kid L R x y) \<or> (kid L R x p \<and> y = r \<and> r \<noteq> NIL)" .
      show ?thesis unfolding e using nr(3) r(1) kr [OF that(1)] by (cases "y = r") auto
    qed
  qed
qed

lemma isNode_replaced:
  assumes "tree_ok L R P K h" and "isNode P p" and "isNode (P(r := P p, L p := r, R p := r, p := NIL)) x"
  shows "x = r \<or> isNode P x \<and> x \<noteq> p"
  using assms(3) node_kids(2,3) [OF assms(1,2)] by (auto simp: isNode_def split: if_split_asm)

lemma replaceNode_forest:
  assumes t: "forest sp h" and p: "isNode (parent sp) p" and r: "r < 4096" "parent sp r = NIL" "text_buf sp r = text_buf sp p"
  shows "\<exists>sp' h'. replaceNode r p sp = Some sp' \<and> forest sp' h' \<and> text_buf sp' = text_buf sp
    \<and> match_position sp' = match_position sp \<and> match_length sp' = match_length sp
    \<and> (\<forall>x. isNode (parent sp') x \<longrightarrow> x = r \<or> isNode (parent sp) x)"
proof -
  have "keyOf (text_buf sp) r = keyOf (text_buf sp) p" using r node_kids(1) [OF t p] by (simp add: keyOf_def)
  from tree_ok_replaced [OF t p r(1,2) this] isNode_replaced [OF t p] show ?thesis
    unfolding replaceNode_eq [OF t p r(1,2)] by auto
qed

text \<open>A node with at most one child is taken out.\<close>

lemma tree_ok_unlinked:
  assumes t: "tree_ok L R P K h" and p: "isNode P p" and c: "R p = NIL \<and> c = L p \<or> L p = NIL \<and> c = R p"
  shows "tree_ok (relL L R (P p) p c) (relR R (P p) p c) (P(c := P p, p := NIL)) K h"
proof -
  have kc: "kid L R p y \<longleftrightarrow> y = c \<and> c \<noteq> NIL" for y using c node_kids(1) [OF t p] by (auto simp: kid_def)
  have pv: "isVert P p" using p by (simp add: isVert_def)
  have cq: "\<not> kid L R (P p) c" if "c \<noteq> NIL"
    using tree_ok_kid [OF t pv, of c] tree_ok_kid [OF t node_parent(1) [OF t p], of c] node_parent(3) [OF t p] kc that by metis
  show ?thesis
  proof (rule tree_ok_unlink [OF t p kc])
    show "kid (relL L R (P p) p c) (relR R (P p) p c) x y \<longleftrightarrow> y \<noteq> p \<and> kid L R x y \<or> x = P p \<and> y = c \<and> c \<noteq> NIL"
      if "isVert P x" "x \<noteq> p" for x y by (rule kid_relink [OF t p that(1)])
    show "relL L R (P p) p c x = NIL" if "isNode P x" "x \<noteq> p" "relL L R (P p) p c x = relR R (P p) p c x" for x
      by (rule two_relink [OF t p that(1) cq that(3)])
  qed (use c node_kids(4,5) [OF t p] in auto)
qed

lemma keyOf_eq: "x < 4096 \<Longrightarrow> y < 4096 \<Longrightarrow> keyOf tb x = keyOf tb y \<longleftrightarrow> tb x = tb y"
  by (simp add: keyOf_def word_unat_eq_iff)

lemma rightmost_last:
  assumes t: "forest sp h"
  shows "isNode (parent sp) q0 \<Longrightarrow> \<exists>q. rightmost q0 sp = Some q \<and> isNode (parent sp) q \<and> rchild sp q = NIL
    \<and> text_buf sp q = text_buf sp q0 \<and> h q \<le> h q0 \<and> (q = q0 \<or> rchild sp (parent sp q) = q \<and> h (parent sp q) \<le> h q0)"
proof (induction "h q0" arbitrary: q0 rule: less_induct)
  case less
  note a = node_kids [OF t less.prems]
  have v: "isVert (parent sp) q0" using less.prems by (simp add: isVert_def)
  show ?case
  proof (cases "rchild sp q0 = NIL")
    case True
    then show ?thesis using less.prems a(1) by (subst rightmost.simps) (simp add: getR_def)
  next
    case False
    then have k: "kid (lchild sp) (rchild sp) q0 (rchild sp q0)" by (simp add: kid_def)
    from tree_ok_kid [OF t v this] have y: "isNode (parent sp) (rchild sp q0)" "h (rchild sp q0) < h q0"
      "parent sp (rchild sp q0) = q0" "text_buf sp (rchild sp q0) = text_buf sp q0"
      using a(1) by (auto simp: keyOf_eq isNode_def)
    have e: "rightmost q0 sp = rightmost (rchild sp q0) sp" using False a(1) by (subst rightmost.simps) (simp add: getR_def)
    from less.hyps [OF y(2,1)] y show ?thesis unfolding e by fastforce
  qed
qed

text \<open>The last node of the left subtree takes the place of \<open>p\<close>.\<close>

lemma takeLast_ok:
  assumes t: "forest sp h" and p: "isNode (parent sp) p" and two: "lchild sp p \<noteq> NIL" "rchild sp p \<noteq> NIL"
  shows "\<exists>q sp1. takeLast p sp = Some (q, sp1) \<and> isNode (parent sp) q \<and> q \<noteq> p \<and> text_buf sp q = text_buf sp p
    \<and> parent sp1 p = parent sp p \<and> h q < h p
    \<and> sp1 = (let w = parent sp q; c = lchild sp q
       in if q = lchild sp p then sp\<lparr>rchild := (rchild sp)(q := rchild sp p), parent := (parent sp)(rchild sp p := q)\<rparr>
          else sp\<lparr>rchild := (rchild sp)(w := c, q := rchild sp p), lchild := (lchild sp)(q := lchild sp p),
            parent := (parent sp)(c := w, lchild sp p := q, rchild sp p := q)\<rparr>)
    \<and> rchild sp q = NIL \<and> (q = lchild sp p \<or> rchild sp (parent sp q) = q \<and> parent sp q \<noteq> p)"
proof -
  note a = node_kids [OF t p]
  have pv: "isVert (parent sp) p" using p by (simp add: isVert_def)
  let ?q0 = "lchild sp p"
  have q0: "isNode (parent sp) ?q0" "h ?q0 < h p" "text_buf sp ?q0 = text_buf sp p"
    using tree_ok_kid [OF t pv, of ?q0] two a(1) by (auto simp: kid_def keyOf_eq isNode_def)
  from rightmost_last [OF t q0(1)] obtain q where q: "rightmost ?q0 sp = Some q" "isNode (parent sp) q" "rchild sp q = NIL"
    "text_buf sp q = text_buf sp p" "h q \<le> h ?q0" "q = ?q0 \<or> rchild sp (parent sp q) = q \<and> h (parent sp q) \<le> h ?q0"
    using q0(3) by auto
  have q0l: "?q0 < 4096" using q0(1) by (simp add: isNode_def)
  note b = node_kids [OF t q(2)] and c = node_parent [OF t q(2)]
  have qp: "q \<noteq> p" and hq: "h q < h p" using q(5) q0(2) by auto
  show ?thesis
  proof (cases "rchild sp ?q0 = NIL")
    case True
    then have "q = ?q0" using q(1) q0l by (subst (asm) rightmost.simps) (simp add: getR_def)
    with q qp hq True a q0l show ?thesis by (auto simp: takeLast_def accesses Let_def)
  next
    case False
    then have ne: "q \<noteq> ?q0" using q(3) by auto
    with q(6) q0(2) have w: "rchild sp (parent sp q) = q" "parent sp q \<noteq> p" by auto
    have wl: "parent sp q < 4353" "parent sp q \<noteq> q" by (fact c)+
    have "isVert (parent sp) q" using q(2) by (simp add: isVert_def)
    from tree_ok_kid [OF t this, of "lchild sp q"] have lq: "lchild sp q \<noteq> p"
      using q(5) q0(2) b(1) a(1) by (auto simp: kid_def)
    have "takeLast p sp = Some (q, sp\<lparr>rchild := (rchild sp)(parent sp q := lchild sp q, q := rchild sp p),
        lchild := (lchild sp)(q := lchild sp p),
        parent := (parent sp)(lchild sp q := parent sp q, lchild sp p := q, rchild sp p := q)\<rparr>)"
      using False q(1) qp w(2) wl a(1,4-7) b(1,4,6) q0l lq by (simp add: takeLast_def accesses)
    with q qp hq ne w a(4,5) lq show ?thesis by (simp add: Let_def)
  qed
qed

lemma relink_eq:
  "parent sp p = u \<Longrightarrow> p < 4097 \<Longrightarrow> u < 4353 \<Longrightarrow> rchild sp u = p \<or> u < 4097
    \<Longrightarrow> relink p v sp = Some (sp\<lparr>lchild := relL (lchild sp) (rchild sp) u p v, rchild := relR (rchild sp) u p v\<rparr>)"
  by (auto simp: relink_def accesses relL_def relR_def)

text \<open>Taking \<open>q\<close> out and putting it in the place of \<open>p\<close>, on the arrays.\<close>

lemma tree_ok_moved:
  assumes t: "tree_ok L R P K h" and p: "isNode P p" and q: "isNode P q" "q \<noteq> p" "R q = NIL" "L q \<noteq> p" "K q = K p"
  defines "L1 \<equiv> relL L R (P q) q (L q)" and "R1 \<equiv> relR R (P q) q (L q)" and "P1 \<equiv> P(L q := P q, q := NIL)"
  shows "tree_ok (relL (L1(q := L1 p)) (R1(q := R1 p)) (P p) p q) (relR (R1(q := R1 p)) (P p) p q)
      (P1(q := P p, L1 p := q, R1 p := q, p := NIL)) K (h(q := h p))"
    and "isNode (P1(q := P p, L1 p := q, R1 p := q, p := NIL)) x \<Longrightarrow> isNode P x \<and> x \<noteq> p"
proof -
  have t1: "tree_ok L1 R1 P1 K h" unfolding L1_def R1_def P1_def using tree_ok_unlinked [OF t q(1), of "L q"] q(3) by blast
  have p1: "P1 p = P p" "P1 q = NIL" using q by (simp_all add: P1_def)
  then have n1: "isNode P1 p" "q < 4096" using p q(1) by (simp_all add: isNode_def)
  from tree_ok_replaced [OF t1 n1 p1(2) q(5)] show "tree_ok (relL (L1(q := L1 p)) (R1(q := R1 p)) (P p) p q) (relR (R1(q := R1 p)) (P p) p q)
      (P1(q := P p, L1 p := q, R1 p := q, p := NIL)) K (h(q := h p))" by (simp only: p1(1))
  assume "isNode (P1(q := P p, L1 p := q, R1 p := q, p := NIL)) x"
  with isNode_replaced [OF t1 n1(1), of q x] p1(1) have "x = q \<or> isNode P1 x \<and> x \<noteq> p" by simp
  with q(1,2) node_kids(2) [OF t q(1)] show "isNode P x \<and> x \<noteq> p" by (auto simp: P1_def isNode_def split: if_split_asm)
qed

definition deleted :: "nat \<Rightarrow> encode_state \<Rightarrow> encode_state \<Rightarrow> bool" where
  "deleted p sp sp' \<longleftrightarrow> (\<exists>h. forest sp' h) \<and> text_buf sp' = text_buf sp
     \<and> (\<forall>x. isNode (parent sp') x \<longrightarrow> isNode (parent sp) x \<and> x \<noteq> p)"

lemma delete_single:
  assumes t: "forest sp h" and p: "isNode (parent sp) p" and c: "rchild sp p = NIL \<and> c = lchild sp p \<or> lchild sp p = NIL \<and> c = rchild sp p"
  shows "\<exists>sp'. do { u \<leftarrow> getP p sp; sp \<leftarrow> setP c u sp; sp \<leftarrow> relink p c sp; setP p NIL sp } = Some sp' \<and> deleted p sp sp'"
proof -
  note a = node_kids [OF t p] and b = node_parent [OF t p]
  let ?u = "parent sp p"
  have cl: "c \<noteq> p" "c \<le> 4096" using c a by auto
  have r: "relink p c (sp\<lparr>parent := (parent sp)(c := ?u)\<rparr>)
    = Some (sp\<lparr>parent := (parent sp)(c := ?u), lchild := relL (lchild sp) (rchild sp) ?u p c, rchild := relR (rchild sp) ?u p c\<rparr>)"
    using cl a(1) b by (subst relink_eq) auto
  have "isNode ((parent sp)(c := ?u, p := NIL)) x \<Longrightarrow> isNode (parent sp) x \<and> x \<noteq> p" for x
    using c a(2,3) by (auto simp: isNode_def split: if_split_asm)
  with tree_ok_unlinked [OF t p c] r cl a(1) show ?thesis by (auto simp: accesses deleted_def)
qed

text \<open>The code does the same to the arrays as taking \<open>q\<close> out and putting it in the place of \<open>p\<close>.\<close>

lemma takeLast_links:
  assumes t: "forest sp h" and p: "isNode (parent sp) p" and two: "lchild sp p \<noteq> NIL" "rchild sp p \<noteq> NIL"
    and q: "isNode (parent sp) q" "q = lchild sp p \<or> rchild sp (parent sp q) = q \<and> parent sp q \<noteq> p" "lchild sp q \<noteq> p" "parent sp p \<noteq> q"
    and sp1: "sp1 = (let w = parent sp q; c = lchild sp q
       in if q = lchild sp p then sp\<lparr>rchild := (rchild sp)(q := rchild sp p), parent := (parent sp)(rchild sp p := q)\<rparr>
          else sp\<lparr>rchild := (rchild sp)(w := c, q := rchild sp p), lchild := (lchild sp)(q := lchild sp p),
            parent := (parent sp)(c := w, lchild sp p := q, rchild sp p := q)\<rparr>)"
  defines "u \<equiv> parent sp p" and "L1 \<equiv> relL (lchild sp) (rchild sp) (parent sp q) q (lchild sp q)"
    and "R1 \<equiv> relR (rchild sp) (parent sp q) q (lchild sp q)"
  shows "x < 4096 \<Longrightarrow> ((parent sp1)(q := u, p := NIL)) x
      = ((parent sp)(lchild sp q := parent sp q, q := NIL, q := u, L1 p := q, R1 p := q, p := NIL)) x"
    and "x \<noteq> p \<Longrightarrow> relL (lchild sp1) (rchild sp1) u p q x = relL (L1(q := L1 p)) (R1(q := R1 p)) u p q x"
    and "x \<noteq> p \<Longrightarrow> relR (rchild sp1) u p q x = relR (R1(q := R1 p)) u p q x"
proof -
  note a = node_kids [OF t p] and b = node_parent [OF t p] and c = node_kids [OF t q(1)]
  have two': "rchild sp p \<noteq> lchild sp p" using tree_ok_two [OF t p] two by auto
  consider (left) "q = lchild sp p" "parent sp q = p"
    | (right) "q \<noteq> lchild sp p" "rchild sp (parent sp q) = q" "parent sp q \<noteq> p" "rchild sp p \<noteq> q"
    using q(2) a(2,3) two by metis
  note cases = this
  show "x < 4096 \<Longrightarrow> ((parent sp1)(q := u, p := NIL)) x
      = ((parent sp)(lchild sp q := parent sp q, q := NIL, q := u, L1 p := q, R1 p := q, p := NIL)) x"
    by (cases rule: cases) (use two' c(2) q(3) in \<open>auto simp: sp1 relL_def relR_def L1_def R1_def Let_def\<close>)
  show "x \<noteq> p \<Longrightarrow> relL (lchild sp1) (rchild sp1) u p q x = relL (L1(q := L1 p)) (R1(q := R1 p)) u p q x"
    by (cases rule: cases) (use two' q(4) b(3) in \<open>auto simp: sp1 relL_def relR_def L1_def R1_def u_def Let_def\<close>)
  show "x \<noteq> p \<Longrightarrow> relR (rchild sp1) u p q x = relR (R1(q := R1 p)) u p q x"
    by (cases rule: cases) (use two' q(4) b(3) in \<open>auto simp: sp1 relL_def relR_def L1_def R1_def u_def Let_def\<close>)
qed

lemma delete_double:
  assumes t: "forest sp h" and p: "isNode (parent sp) p" and two: "lchild sp p \<noteq> NIL" "rchild sp p \<noteq> NIL"
  shows "\<exists>sp'. do { (c, sp) \<leftarrow> takeLast p sp; u \<leftarrow> getP p sp; sp \<leftarrow> setP c u sp; sp \<leftarrow> relink p c sp; setP p NIL sp } = Some sp'
    \<and> deleted p sp sp'"
proof -
  let ?L = "lchild sp" and ?R = "rchild sp" and ?P = "parent sp" and ?u = "parent sp p"
  note a = node_kids [OF t p] and b = node_parent [OF t p]
  from takeLast_ok [OF t p two] obtain q sp1 where tl: "takeLast p sp = Some (q, sp1)"
    and q: "isNode ?P q" "q \<noteq> p" "text_buf sp q = text_buf sp p" "?R q = NIL" "q = ?L p \<or> ?R (?P q) = q \<and> ?P q \<noteq> p"
    and pp: "parent sp1 p = ?u" and hq: "h q < h p"
    and sp1: "sp1 = (let w = ?P q; c = ?L q
       in if q = ?L p then sp\<lparr>rchild := ?R(q := ?R p), parent := ?P(?R p := q)\<rparr>
          else sp\<lparr>rchild := ?R(w := c, q := ?R p), lchild := ?L(q := ?L p), parent := ?P(c := w, ?L p := q, ?R p := q)\<rparr>)"
    by blast
  note c = node_kids [OF t q(1)] and d = node_parent [OF t q(1)]
  have qv: "isVert ?P q" using q(1) by (simp add: isVert_def)
  have lq: "?L q \<noteq> p" using tree_ok_kid [OF t qv, of p] hq c(1) a(1) by (auto simp: kid_def)
  have key: "keyOf (text_buf sp) q = keyOf (text_buf sp) p" using q(3) c(1) a(1) by (simp add: keyOf_def)
  note M = tree_ok_moved [OF t p q(1,2,4) lq key]
  have uq: "?u \<noteq> q" using tree_ok_up [OF t p] tree_ok_kid [OF t qv, of p] hq by auto
  have r: "relink p q (sp1\<lparr>parent := (parent sp1)(q := ?u)\<rparr>)
    = Some (sp1\<lparr>parent := (parent sp1)(q := ?u), lchild := relL (lchild sp1) (rchild sp1) ?u p q, rchild := relR (rchild sp1) ?u p q\<rparr>)"
  proof (rule trans [OF relink_eq])
    show "rchild (sp1\<lparr>parent := (parent sp1)(q := ?u)\<rparr>) ?u = p \<or> ?u < 4097" using sp1 uq b(4) q(2,5) by (auto simp: Let_def)
  qed (use pp q(2) a(1) b(2) in auto)
  let ?sp' = "sp1\<lparr>parent := (parent sp1)(q := ?u, p := NIL), lchild := relL (lchild sp1) (rchild sp1) ?u p q, rchild := relR (rchild sp1) ?u p q\<rparr>"
  let ?L1 = "relL ?L ?R (?P q) q (?L q)" and ?R1 = "relR ?R (?P q) q (?L q)" and ?P1 = "?P(?L q := ?P q, q := NIL)"
  let ?P2 = "?P1(q := ?u, ?L1 p := q, ?R1 p := q, p := NIL)"
  note E = takeLast_links [OF t p two q(1,5) lq uq sp1]
  have P: "parent ?sp' x = ?P2 x" if "x < 4096" for x using E(1) [OF that] by simp
  have tb: "text_buf ?sp' = text_buf sp" using sp1 by (auto simp: Let_def)
  have np: "x \<noteq> p" if "isVert ?P2 x" for x using that M(2) [of x] a(1) by (auto simp: isVert_def)
  have "forest ?sp' (h(q := h p))"
  proof (rule tree_ok_cong [OF M(1) P])
    fix x
    show "isNode ?P2 x \<Longrightarrow> lchild ?sp' x = relL (?L1(q := ?L1 p)) (?R1(q := ?R1 p)) ?u p q x" using E(2) [of x] M(2) [of x] by simp
    show "isVert ?P2 x \<Longrightarrow> rchild ?sp' x = relR (?R1(q := ?R1 p)) ?u p q x" using E(3) [of x] np [of x] by simp
    show "keyOf (text_buf ?sp') x = keyOf (text_buf sp) x" by (simp only: tb)
  qed
  moreover have "isNode (parent ?sp') x \<longrightarrow> isNode ?P x \<and> x \<noteq> p" for x
  proof
    assume n: "isNode (parent ?sp') x"
    then have x: "x < 4096" by (simp only: isNode_def)
    have "isNode ?P2 x" using n unfolding isNode_def P [OF x] .
    then show "isNode ?P x \<and> x \<noteq> p" by (rule M(2))
  qed
  ultimately have "deleted p sp ?sp'" using tb unfolding deleted_def by blast
  moreover have "do { (c, sp) \<leftarrow> takeLast p sp; u \<leftarrow> getP p sp; sp \<leftarrow> setP c u sp; sp \<leftarrow> relink p c sp; setP p NIL sp } = Some ?sp'"
    using tl pp r a(1) c(1) by (simp add: getP_def setP_def)
  ultimately show ?thesis by blast
qed

lemma delete_node_forest:
  assumes t: "forest sp h" and p: "p < 4096"
  shows "\<exists>sp'. delete_node p sp = Some sp' \<and> deleted p sp sp'"
proof (cases "isNode (parent sp) p")
  case False
  with p t show ?thesis by (auto simp: delete_node_def accesses deleted_def isNode_def)
next
  case True
  note a = node_kids [OF t True]
  have n: "parent sp p \<noteq> NIL" using True by (simp add: isNode_def)
  consider "rchild sp p = NIL" | "rchild sp p \<noteq> NIL" "lchild sp p = NIL" | "rchild sp p \<noteq> NIL" "lchild sp p \<noteq> NIL" by blast
  then show ?thesis
  proof cases
    case 1
    with delete_single [OF t True, of "lchild sp p"] a(1) n show ?thesis by (simp add: delete_node_def getP_def getL_def getR_def)
  next
    case 2
    with delete_single [OF t True, of "rchild sp p"] a(1) n show ?thesis by (simp add: delete_node_def getP_def getL_def getR_def)
  next
    case 3
    with delete_double [OF t True] a(1) n show ?thesis by (simp add: delete_node_def getP_def getL_def getR_def)
  qed
qed

lemma compareLoop_equal:
  assumes "r < 4096" and "p < 4096"
  shows "i \<le> 18 \<Longrightarrow> \<exists>j c. compareLoop sp r p i cmp = Some (j, c) \<and> i \<le> j \<and> j \<le> 18
    \<and> (\<forall>k. i \<le> k \<and> k < j \<longrightarrow> text_buf sp (p + k) = text_buf sp (r + k))"
proof (induction "18 - i" arbitrary: i cmp)
  case 0
  then show ?case by (subst compareLoop.simps) auto
next
  case (Suc n)
  then have i: "i < 18" by simp
  show ?case
  proof (cases "text_buf sp (r + i) = text_buf sp (p + i)")
    case False
    then have "uint (text_buf sp (r + i)) - uint (text_buf sp (p + i)) \<noteq> 0" by (simp add: word_uint_eq_iff)
    then show ?thesis using i assms by (subst compareLoop.simps) (auto simp: getT_def)
  next
    case True
    then have e: "compareLoop sp r p i cmp = compareLoop sp r p (i + 1) 0"
      using i assms by (subst compareLoop.simps) (simp add: getT_def)
    have n: "n = 18 - (i + 1)" using Suc.hyps(2) by simp
    from Suc.hyps(1) [OF n, of 0] i obtain j c where
      j: "compareLoop sp r p (i + 1) 0 = Some (j, c)" "i + 1 \<le> j" "j \<le> 18"
        "\<forall>k. i + 1 \<le> k \<and> k < j \<longrightarrow> text_buf sp (p + k) = text_buf sp (r + k)" by auto
    have "text_buf sp (p + k) = text_buf sp (r + k)" if "i \<le> k" "k < j" for k
      using j(4) that True by (cases "k = i") auto
    with j e show ?thesis by auto
  qed
qed

text \<open>The longest match found so far is a node whose string begins as the one at \<open>r\<close>.\<close>

definition matched :: "(nat \<Rightarrow> nat) \<Rightarrow> nat \<Rightarrow> encode_state \<Rightarrow> bool" where
  "matched P r sp \<longleftrightarrow> match_length sp \<le> 18 \<and> (match_length sp > 0 \<longrightarrow> isNode P (match_position sp)
     \<and> (\<forall>k < match_length sp. text_buf sp (match_position sp + k) = text_buf sp (r + k)))"

definition inserted :: "nat \<Rightarrow> encode_state \<Rightarrow> encode_state \<Rightarrow> bool" where
  "inserted r sp sp' \<longleftrightarrow> (\<exists>h. forest sp' h) \<and> text_buf sp' = text_buf sp \<and> matched (parent sp) r sp'
     \<and> (\<forall>x. isNode (parent sp') x \<longrightarrow> x = r \<or> isNode (parent sp) x)"

lemma insert_leaf:
  assumes t: "forest sp h" and r: "r < 4096" "parent sp r = NIL" "lchild sp r = NIL" "rchild sp r = NIL"
    and p: "isVert (parent sp) p" "keyOf (text_buf sp) r = keyOf (text_buf sp) p" and m: "matched (parent sp) r sp"
    and free: "if cmp \<ge> 0 then rchild sp p = NIL else p < 4096 \<and> lchild sp p = NIL"
  shows "\<exists>sp'. do { sp \<leftarrow> (if (cmp :: int) \<ge> 0 then setR p r sp else setL p r sp); setP r p sp } = Some sp' \<and> inserted r sp sp'"
proof -
  have pr: "p < 4353" "p \<noteq> r" using p(1) r by (auto simp: isVert_def isNode_def)
  have nr: "\<not> kid (lchild sp) (rchild sp) x r" if "isVert (parent sp) x" for x
    using tree_ok_kid [OF t that, of r] r by (auto simp: isNode_def)
  have n: "isNode ((parent sp)(r := p)) x \<longrightarrow> x = r \<or> isNode (parent sp) x" for x by (auto simp: isNode_def)
  let ?L = "if cmp \<ge> 0 then lchild sp else (lchild sp)(p := r)" and ?R = "if cmp \<ge> 0 then (rchild sp)(p := r) else rchild sp"
  have "tree_ok ?L ?R ((parent sp)(r := p)) (keyOf (text_buf sp)) (\<lambda>x. if x = r then 0 else Suc (h x))"
  proof (rule tree_ok_hang [OF t r(1,2) _ p])
    show "\<not> kid ?L ?R r y" for y using r pr by (auto simp: kid_def)
    show "kid ?L ?R x y \<longleftrightarrow> kid (lchild sp) (rchild sp) x y \<or> x = p \<and> y = r" if "isVert (parent sp) x" for x y
      using free r(1) by (auto simp: kid_def)
    show "?L x = NIL" if "isNode (parent sp) x \<or> x = r" "?L x = ?R x" for x
    proof (cases "x = p \<or> x = r")
      case True
      have "lchild sp p \<noteq> r \<or> \<not> p < 4096" "rchild sp p \<noteq> r" using nr [OF p(1)] r(1) by (auto simp: kid_def)
      with True that r pr show ?thesis by (auto simp: isNode_def split: if_split_asm)
    next
      case False
      with that tree_ok_two [OF t, of x] show ?thesis by (auto split: if_split_asm)
    qed
  qed
  with m n r pr free show ?thesis by (cases "cmp \<ge> 0") (auto simp: setL_def setR_def setP_def inserted_def matched_def)
qed

lemma matched_longer:
  assumes m: "matched P r sp" and c: "isNode P c" "text_buf sp c = text_buf sp r" "1 \<le> i" "i \<le> 18"
    and e: "\<forall>k. 1 \<le> k \<and> k < i \<longrightarrow> text_buf sp (c + k) = text_buf sp (r + k)"
  shows "matched P r (sp\<lparr>match_position := c, match_length := i\<rparr>)"
proof -
  have "text_buf sp (c + k) = text_buf sp (r + k)" if "k < i" for k using that e c(2) by (cases "k = 0") auto
  with c show ?thesis by (simp add: matched_def)
qed

lemma insertLoop_inserted:
  assumes r: "r < 4096"
  shows "forest sp h \<Longrightarrow> parent sp r = NIL \<Longrightarrow> lchild sp r = NIL \<Longrightarrow> rchild sp r = NIL \<Longrightarrow> isVert (parent sp) p
    \<Longrightarrow> keyOf (text_buf sp) r = keyOf (text_buf sp) p \<Longrightarrow> matched (parent sp) r sp \<Longrightarrow> cmp \<ge> 0 \<or> p < 4096
    \<Longrightarrow> \<exists>sp'. insertLoop r cmp p sp = Some sp' \<and> inserted r sp sp'"
proof (induction "h p" arbitrary: p cmp sp rule: less_induct)
  case less
  note t = less.prems(1) and p = less.prems(5)
  define c where "c = (if cmp \<ge> 0 then rchild sp p else lchild sp p)"
  have pl: "p < 4353" using p by (auto simp: isVert_def isNode_def)
  have get: "(if cmp \<ge> 0 then getR p sp else getL p sp) = Some c" using pl less.prems(8) by (auto simp: accesses c_def)
  show ?case
  proof (cases "c = NIL")
    case True
    have "if cmp \<ge> 0 then rchild sp p = NIL else p < 4096 \<and> lchild sp p = NIL" using True less.prems(8) by (auto simp: c_def)
    from insert_leaf [OF t r less.prems(2-7) this] True get show ?thesis by (subst insertLoop.simps) simp
  next
    case False
    then have "kid (lchild sp) (rchild sp) p c" using less.prems(8) by (auto simp: kid_def c_def)
    from tree_ok_kid [OF t p this] have c: "isNode (parent sp) c" "keyOf (text_buf sp) c = keyOf (text_buf sp) p" "h c < h p" by auto
    have cl: "c < 4096" "isVert (parent sp) c" using c(1) by (auto simp: isNode_def isVert_def)
    have cr: "text_buf sp c = text_buf sp r" using c(2) less.prems(6) keyOf_eq [OF cl(1) r, of "text_buf sp"] by simp
    from compareLoop_equal [OF r cl(1), of 1 sp cmp] obtain i cmp' where
      i: "compareLoop sp r c 1 cmp = Some (i, cmp')" "1 \<le> i" "i \<le> 18" "\<forall>k. 1 \<le> k \<and> k < i \<longrightarrow> text_buf sp (c + k) = text_buf sp (r + k)" by auto
    let ?sp = "sp\<lparr>match_position := c, match_length := i\<rparr>"
    have m: "matched (parent ?sp) r ?sp" using matched_longer [OF less.prems(7) c(1) cr i(2-4)] by simp
    have step: "insertLoop r cmp p sp = (if i > match_length sp then (if i \<ge> 18 then replaceNode r c ?sp else insertLoop r cmp' c ?sp)
        else insertLoop r cmp' c sp)"
      using get False i(1) by (subst insertLoop.simps) (simp add: Let_def)
    have t': "forest ?sp h" using t by simp
    consider "i > match_length sp" "i \<ge> 18" | "i > match_length sp" "i < 18" | "i \<le> match_length sp" by linarith
    then show ?thesis
    proof cases
      case 1
      from replaceNode_forest [OF t', of c r] c(1) r less.prems(2) cr m 1 step show ?thesis
        by (auto simp: inserted_def matched_def)
    next
      case 2
      from less.hyps [OF c(3) t' _ _ _ _ _ m, of cmp'] less.prems(2-6) c cl 2 step show ?thesis by (auto simp: inserted_def)
    next
      case 3
      from less.hyps [OF c(3) t less.prems(2-4) cl(2) _ less.prems(7), of cmp'] less.prems(6) c cl 3 step show ?thesis by auto
    qed
  qed
qed

lemma insert_node_inserted:
  assumes t: "forest sp h" and r: "r < 4096" "parent sp r = NIL"
  shows "\<exists>sp'. insert_node r sp = Some sp' \<and> inserted r sp sp'"
proof -
  let ?sp = "sp\<lparr>lchild := (lchild sp)(r := NIL), rchild := (rchild sp)(r := NIL), match_length := 0\<rparr>"
  let ?p = "RBSIZE + 1 + unat (text_buf sp r)"
  have t': "forest ?sp h" using t by (rule tree_ok_cong) (use r in \<open>auto simp: isNode_def isVert_def\<close>)
  have "isVert (parent ?sp) ?p" using unat_byte [of "text_buf sp r"] by (simp add: isVert_def)
  moreover have "keyOf (text_buf ?sp) r = keyOf (text_buf ?sp) ?p" using r(1) by (simp add: keyOf_def)
  moreover have "matched (parent ?sp) r ?sp" by (simp add: matched_def)
  ultimately have "\<exists>sp'. insertLoop r 1 ?p ?sp = Some sp' \<and> inserted r ?sp sp'"
    using insertLoop_inserted [OF r(1) t', of ?p 1] r(2) by simp
  moreover have "insert_node r sp = insertLoop r 1 ?p ?sp" using r(1) by (simp add: insert_node_def accesses)
  ultimately show ?thesis by (simp add: inserted_def)
qed

section \<open>The encoder's window\<close>

text \<open>
  \<open>e\<close> bytes are encoded and \<open>n\<close> are read. The ring holds the last 4096 places, the bytes behind it
  repeat its beginning as far as it was read, and the nodes are the places from \<open>e\<close> on.
\<close>

definition textOK :: "byte list \<Rightarrow> nat \<Rightarrow> (nat \<Rightarrow> byte) \<Rightarrow> bool" where
  "textOK src n tb \<longleftrightarrow> (\<forall>a. a < 4078 + n \<and> 4078 + n \<le> a + 4096 \<longrightarrow> tb (a mod 4096) = place src a)
     \<and> (\<forall>q < 17. 18 + q < n \<longrightarrow> tb (q + 4096) = tb q)"

definition nodesPlaced :: "nat \<Rightarrow> nat \<Rightarrow> encode_state \<Rightarrow> bool" where
  "nodesPlaced e lim sp \<longleftrightarrow> (\<exists>h. forest sp h) \<and> (\<forall>x. isNode (parent sp) x \<longrightarrow> (\<exists>P. x = P mod 4096 \<and> e \<le> P \<and> P < lim))"

definition matchOK :: "byte list \<Rightarrow> nat \<Rightarrow> nat \<Rightarrow> encode_state \<Rightarrow> bool" where
  "matchOK src e len sp \<longleftrightarrow> match_length sp \<le> 18
     \<and> (match_length sp > 0 \<longrightarrow> occurs src e (match_position sp) (min (match_length sp) len))"

lemma text_at:
  assumes t: "textOK src n tb" and a: "4078 + n \<le> a + 4096" "a + k < 4078 + n" "k < 18"
  shows "tb (a mod 4096 + k) = place src (a + k)"
proof -
  have W: "tb ((a + k) mod 4096) = place src (a + k)" using t a by (auto simp: textOK_def)
  show ?thesis
  proof (cases "a mod 4096 + k < 4096")
    case True
    then have "(a + k) mod 4096 = a mod 4096 + k" by (metis mod_add_left_eq mod_less)
    with W show ?thesis by simp
  next
    case False
    define q where "q = a mod 4096 + k - 4096"
    have "a mod 4096 < 4096" by simp
    with False a(3) have q: "a mod 4096 + k = q + 4096" "q < 17" by (auto simp: q_def)
    have "(a + k) mod 4096 = (a mod 4096 + k) mod 4096" by (simp only: mod_add_left_eq)
    then have m: "(a + k) mod 4096 = q" unfolding q(1) using q(2) by simp
    have "q + 4096 \<le> a + k" using q(1) mod_less_eq_dividend [of a 4096] by linarith
    then have "18 + q < n" using a(2) by linarith
    with t q W m show ?thesis by (simp add: textOK_def)
  qed
qed

lemma insert_placed:
  assumes p: "nodesPlaced e (4078 + e) sp" and t: "textOK src (e + len) (text_buf sp)" and len: "1 \<le> len" "len \<le> 18"
  shows "\<exists>sp'. insert_node ((4078 + e) mod 4096) sp = Some sp' \<and> nodesPlaced e (4078 + e + 1) sp' \<and> matchOK src e len sp'
    \<and> text_buf sp' = text_buf sp"
proof -
  let ?r = "(4078 + e) mod 4096"
  obtain h where h: "forest sp h" using p by (auto simp: nodesPlaced_def)
  have nodes: "\<exists>P. x = P mod 4096 \<and> e \<le> P \<and> P < 4078 + e" if "isNode (parent sp) x" for x using p that by (auto simp: nodesPlaced_def)
  have "\<not> isNode (parent sp) ?r" using nodes [of ?r] mod_ring_eq [of _ "4078 + e"] by fastforce
  then have "parent sp ?r = NIL" by (simp add: isNode_def)
  from insert_node_inserted [OF h _ this] obtain sp' where sp': "insert_node ?r sp = Some sp'" "inserted ?r sp sp'" by auto
  have I: "text_buf sp' = text_buf sp" "matched (parent sp) ?r sp'" "\<And>x. isNode (parent sp') x \<Longrightarrow> x = ?r \<or> isNode (parent sp) x"
    "\<exists>h. forest sp' h" using sp'(2) by (auto simp: inserted_def)
  have "\<exists>P. x = P mod 4096 \<and> e \<le> P \<and> P < 4078 + e + 1" if "isNode (parent sp') x" for x
    using I(3) [OF that] nodes [of x] by (force intro: exI [of _ "4078 + e"])
  then have "nodesPlaced e (4078 + e + 1) sp'" using I(4) by (auto simp: nodesPlaced_def)
  moreover have "matchOK src e len sp'"
  proof -
    have "occurs src e (match_position sp') (min (match_length sp') len)" if "match_length sp' > 0"
    proof -
      have m: "isNode (parent sp) (match_position sp')"
        "\<And>k. k < match_length sp' \<Longrightarrow> text_buf sp (match_position sp' + k) = text_buf sp (?r + k)"
        using I(1,2) that by (auto simp: matched_def)
      from nodes [OF m(1)] obtain P where P: "match_position sp' = P mod 4096" "e \<le> P" "P < 4078 + e" by auto
      have "place src (P + k) = place src (4078 + e + k)" if "k < min (match_length sp') len" for k
        using m(2) [of k] text_at [OF t, of P k] text_at [OF t, of "4078 + e" k] that P len by simp
      with P show ?thesis by (auto simp: occurs_def)
    qed
    with I(2) show ?thesis by (simp add: matchOK_def matched_def)
  qed
  ultimately show ?thesis using sp'(1) I(1) by blast
qed

lemma delete_placed:
  assumes p: "nodesPlaced e (4078 + e + 1) sp"
  shows "\<exists>sp'. delete_node (e mod 4096) sp = Some sp' \<and> nodesPlaced (e + 1) (4078 + (e + 1)) sp' \<and> text_buf sp' = text_buf sp
    \<and> \<not> isNode (parent sp') (e mod 4096)"
proof -
  obtain h where h: "forest sp h" using p by (auto simp: nodesPlaced_def)
  from delete_node_forest [OF h, of "e mod 4096"] obtain sp' where
    sp': "delete_node (e mod 4096) sp = Some sp'" "deleted (e mod 4096) sp sp'" by auto
  have "\<exists>P. x = P mod 4096 \<and> e + 1 \<le> P \<and> P < 4078 + (e + 1)" if "isNode (parent sp') x" for x
  proof -
    have x: "isNode (parent sp) x" "x \<noteq> e mod 4096" using sp'(2) that by (auto simp: deleted_def)
    from x(1) p obtain P where P: "x = P mod 4096" "e \<le> P" "P < 4078 + e + 1" by (auto simp: nodesPlaced_def)
    with x(2) have "P \<noteq> e" by auto
    with P show ?thesis by (intro exI [of _ P]) simp
  qed
  with sp' show ?thesis by (auto simp: nodesPlaced_def deleted_def)
qed

lemma read_text:
  assumes t: "textOK src (e + 18) tb" and n: "e + 18 < length src"
  defines "s \<equiv> e mod 4096" and "c \<equiv> src ! (e + 18)"
  shows "textOK src (e + 1 + 18) (if s < 17 then tb(s := c, s + 4096 := c) else tb(s := c))"
proof -
  let ?tb = "if s < 17 then tb(s := c, s + 4096 := c) else tb(s := c)"
  have s: "s = (4078 + (e + 18)) mod 4096" "s < 4096" by (simp_all add: s_def)
  have "?tb (a mod 4096) = place src a" if "a < 4078 + (e + 1 + 18)" "4078 + (e + 1 + 18) \<le> a + 4096" for a
  proof (cases "a = 4078 + (e + 18)")
    case True
    then show ?thesis using s by (simp add: place_def c_def add.commute)
  next
    case False
    then have "a mod 4096 \<noteq> s" using that s(1) mod_ring_eq [of a "4078 + (e + 18)"] by auto
    moreover have "a mod 4096 \<noteq> s + 4096" by (metis add_lessD1 mod_less_divisor not_add_less2 zero_less_numeral)
    moreover have "tb (a mod 4096) = place src a" using t that False by (simp add: textOK_def)
    ultimately show ?thesis by simp
  qed
  moreover have "?tb (q + 4096) = ?tb q" if "q < 17" "18 + q < e + 1 + 18" for q
  proof (cases "q = s")
    case False
    then have "q < e" using that s_def by (cases "q = e") auto
    then show ?thesis using t that False s(2) by (simp add: textOK_def)
  qed (use that in simp)
  ultimately show ?thesis by (simp add: textOK_def)
qed

definition encInv :: "byte list \<Rightarrow> nat \<Rightarrow> encoder \<Rightarrow> bool" where
  "encInv src e x \<longleftrightarrow> e + e_len x \<le> length src \<and> e_len x \<le> 18 \<and> e_src x = drop (e + e_len x) src
     \<and> (e_len x = 18 \<or> e_src x = []) \<and> e_r x = (4078 + e) mod 4096 \<and> e_s x = e mod 4096
     \<and> nodesPlaced e (4078 + e + 1) (e_sp x) \<and> textOK src (e + e_len x) (text_buf (e_sp x))"

definition sameCode :: "encoder \<Rightarrow> encoder \<Rightarrow> bool" where
  "sameCode x y \<longleftrightarrow> code_buf y = code_buf x \<and> code_buf_ptr y = code_buf_ptr x \<and> e_mask y = e_mask x \<and> e_dst y = e_dst x"

text \<open>After a step the match belongs to the new position, unless nothing is left to encode.\<close>

definition moved :: "byte list \<Rightarrow> nat \<Rightarrow> encoder \<Rightarrow> encoder \<Rightarrow> bool" where
  "moved src e x y \<longleftrightarrow> encInv src e y \<and> sameCode x y \<and> (e_len y > 0 \<longrightarrow> matchOK src e (e_len y) (e_sp y))"

lemma moved_trans: "sameCode x y \<Longrightarrow> moved src e y z \<Longrightarrow> moved src e x z"
  by (auto simp: moved_def sameCode_def)

lemma nodesPlaced_later: "nodesPlaced e lim sp \<Longrightarrow> lim \<le> lim' \<Longrightarrow> nodesPlaced e lim' sp"
  unfolding nodesPlaced_def by (meson less_le_trans)

lemma ring_next: "((a mod 4096) + 1) AND 4095 = Suc a mod 4096" for a :: nat
  by (simp add: and_ring mod_Suc_eq)

lemma forest_text:
  assumes "forest sp h" and "\<And>x. x < 4096 \<Longrightarrow> isNode (parent sp) x \<Longrightarrow> tb x = text_buf sp x"
  shows "forest (sp\<lparr>text_buf := tb\<rparr>) h"
proof -
  have "keyOf tb x = keyOf (text_buf sp) x" if "isVert (parent sp) x" for x
    using assms(2) that by (auto simp: keyOf_def isVert_def)
  from tree_ok_cong [OF assms(1) _ _ _ this] show ?thesis by simp
qed

lemma nodesPlaced_text:
  assumes "nodesPlaced e lim sp" and "\<And>x. x < 4096 \<Longrightarrow> isNode (parent sp) x \<Longrightarrow> tb x = text_buf sp x"
  shows "nodesPlaced e lim (sp\<lparr>text_buf := tb\<rparr>)"
  using assms(1) forest_text [OF _ assms(2)] by (auto simp: nodesPlaced_def)

lemma readByte_inv:
  assumes i: "encInv src e x" and x: "e_len x = 18" "e_src x = c # rest"
  shows "\<exists>y. readByte c rest x = Some y \<and> moved src (e + 1) x y \<and> e_len y = 18 \<and> e_src y = rest"
proof -
  let ?s = "e mod 4096"
  have I: "e_r x = (4078 + e) mod 4096" "e_s x = ?s" "nodesPlaced e (4078 + e + 1) (e_sp x)" "textOK src (e + 18) (text_buf (e_sp x))"
    "drop (e + 18) src = c # rest" using i x by (auto simp: encInv_def)
  have n: "e + 18 < length src" using I(5) by (metis drop_all linorder_not_le list.distinct(1))
  with I(5) have c: "c = src ! (e + 18)" and rest: "rest = drop (e + 1 + 18) src"
    using Cons_nth_drop_Suc [OF n] by auto
  from delete_placed [OF I(3)] obtain sp1 where sp1: "delete_node ?s (e_sp x) = Some sp1" "nodesPlaced (e + 1) (4078 + (e + 1)) sp1"
    "text_buf sp1 = text_buf (e_sp x)" "\<not> isNode (parent sp1) ?s" by auto
  let ?tb = "if ?s < 17 then (text_buf sp1)(?s := c, ?s + 4096 := c) else (text_buf sp1)(?s := c)"
  let ?sp2 = "sp1\<lparr>text_buf := ?tb\<rparr>"
  have t2: "textOK src (e + 1 + 18) ?tb" using read_text [OF I(4) n] unfolding sp1(3) c .
  have "nodesPlaced (e + 1) (4078 + (e + 1)) ?sp2" by (rule nodesPlaced_text [OF sp1(2)]) (use sp1(4) in auto)
  from insert_placed [OF this, of src 18] t2 obtain sp3 where
    sp3: "insert_node ((4078 + (e + 1)) mod 4096) ?sp2 = Some sp3" "nodesPlaced (e + 1) (4078 + (e + 1) + 1) sp3" "matchOK src (e + 1) 18 sp3"
      "text_buf sp3 = ?tb" by auto
  let ?y = "x\<lparr>e_sp := sp3, e_src := rest, e_s := Suc e mod 4096, e_r := Suc (4078 + e) mod 4096\<rparr>"
  have "readByte c rest x = Some ?y"
    using sp1(1) sp3(1) I(1,2) by (auto simp: readByte_def setT_def Let_def ring_next [simplified])
  moreover have "moved src (e + 1) x ?y"
    using n x sp3 t2 rest by (simp add: moved_def encInv_def sameCode_def)
  ultimately show ?thesis using x(1) by simp
qed

lemma skipByte_inv:
  assumes i: "encInv src e x" and x: "e_src x = []" "1 \<le> e_len x"
  shows "\<exists>y. skipByte x = Some y \<and> moved src (e + 1) x y \<and> e_len y = e_len x - 1 \<and> e_src y = []"
proof -
  let ?s = "e mod 4096" and ?len = "e_len x - 1"
  have I: "e_r x = (4078 + e) mod 4096" "e_s x = ?s" "nodesPlaced e (4078 + e + 1) (e_sp x)" "textOK src (e + 1 + ?len) (text_buf (e_sp x))"
    "length src = e + 1 + ?len" "?len < 18" using i x by (auto simp: encInv_def)
  from delete_placed [OF I(3)] obtain sp1 where sp1: "delete_node ?s (e_sp x) = Some sp1" "nodesPlaced (e + 1) (4078 + (e + 1)) sp1"
    "text_buf sp1 = text_buf (e_sp x)" by auto
  have "\<exists>sp2. (if ?len \<noteq> 0 then insert_node ((4078 + (e + 1)) mod 4096) sp1 else Some sp1) = Some sp2
      \<and> nodesPlaced (e + 1) (4078 + (e + 1) + 1) sp2 \<and> text_buf sp2 = text_buf (e_sp x) \<and> (?len > 0 \<longrightarrow> matchOK src (e + 1) ?len sp2)"
  proof (cases "?len = 0")
    case True
    with sp1 nodesPlaced_later [OF sp1(2)] show ?thesis by simp
  next
    case False
    then have l: "1 \<le> ?len" "?len \<le> 18" using I(6) by simp_all
    from insert_placed [OF sp1(2) _ l, of src] I(4) sp1(3) False show ?thesis by auto
  qed
  then obtain sp2 where q: "(if ?len \<noteq> 0 then insert_node ((4078 + (e + 1)) mod 4096) sp1 else Some sp1) = Some sp2
      \<and> nodesPlaced (e + 1) (4078 + (e + 1) + 1) sp2 \<and> text_buf sp2 = text_buf (e_sp x) \<and> (?len > 0 \<longrightarrow> matchOK src (e + 1) ?len sp2)" ..
  note sp2 = q [THEN conjunct1] q [THEN conjunct2, THEN conjunct1] q [THEN conjunct2, THEN conjunct2]
  let ?y = "x\<lparr>e_sp := sp2, e_s := Suc e mod 4096, e_r := Suc (4078 + e) mod 4096, e_len := ?len\<rparr>"
  have "skipByte x = Some ?y"
    using sp1(1) sp2(1) I(1,2) by (auto simp: skipByte_def Let_def ring_next [simplified] split: if_split_asm)
  moreover have "moved src (e + 1) x ?y" using x sp2 I by (simp add: moved_def encInv_def sameCode_def)
  ultimately show ?thesis using x by simp
qed

lemma sameCode_refl: "sameCode x x" by (simp add: sameCode_def)

lemma sameCode_trans: "sameCode x y \<Longrightarrow> sameCode y z \<Longrightarrow> sameCode x z" by (simp add: sameCode_def)

lemma readLoop_inv:
  assumes "encInv src e x"
  shows "\<exists>j y. readLoop m x = Some (m - j, y) \<and> j \<le> m \<and> encInv src (e + j) y \<and> sameCode x y \<and> e_len y = e_len x
    \<and> (j < m \<longrightarrow> e_src y = []) \<and> (0 < j \<longrightarrow> moved src (e + j) x y) \<and> (j = 0 \<longrightarrow> y = x)"
  using assms
proof (induction m arbitrary: e x)
  case 0
  then show ?case by (auto simp: sameCode_refl)
next
  case (Suc m)
  show ?case
  proof (cases "e_src x")
    case Nil
    with Suc.prems show ?thesis by (intro exI [of _ 0]) (simp add: sameCode_refl)
  next
    case (Cons c rest)
    then have "e_len x = 18" using Suc.prems by (auto simp: encInv_def)
    from readByte_inv [OF Suc.prems this Cons] obtain y where
      y: "readByte c rest x = Some y" "moved src (e + 1) x y" "e_len y = e_len x" using \<open>e_len x = 18\<close> by auto
    then have "encInv src (e + 1) y" "sameCode x y" by (auto simp: moved_def)
    from Suc.IH [OF this(1)] obtain j z where
      z: "readLoop m y = Some (m - j, z)" "j \<le> m" "encInv src (e + 1 + j) z" "sameCode y z" "e_len z = e_len y"
        "j < m \<longrightarrow> e_src z = []" "0 < j \<longrightarrow> moved src (e + 1 + j) y z" "j = 0 \<longrightarrow> z = y" by auto
    have "moved src (e + 1 + j) x z" using z y moved_trans [OF \<open>sameCode x y\<close>] by (cases "j = 0") auto
    with z y Cons sameCode_trans [OF \<open>sameCode x y\<close> z(4)] show ?thesis by (intro exI [of _ "Suc j"]) simp
  qed
qed

lemma skipLoop_inv:
  assumes "encInv src e x" and "e_src x = []" and "m \<le> e_len x"
  shows "\<exists>y. skipLoop m x = Some y \<and> encInv src (e + m) y \<and> (0 < m \<longrightarrow> moved src (e + m) x y) \<and> (m = 0 \<longrightarrow> y = x)"
  using assms
proof (induction m arbitrary: e x)
  case (Suc m)
  from skipByte_inv [OF Suc.prems(1,2)] Suc.prems(3) obtain y where
    y: "skipByte x = Some y" "moved src (e + 1) x y" "e_len y = e_len x - 1" "e_src y = []" by auto
  then have i: "encInv src (e + 1) y" "sameCode x y" by (auto simp: moved_def)
  have "m \<le> e_len y" using y(3) Suc.prems(3) by simp
  from Suc.IH [OF i(1) y(4) this] obtain z where
    z: "skipLoop m y = Some z" "encInv src (e + 1 + m) z" "0 < m \<longrightarrow> moved src (e + 1 + m) y z" "m = 0 \<longrightarrow> z = y" by auto
  have "moved src (e + 1 + m) x z" using z(3,4) y(2) moved_trans [OF i(2)] by (cases "m = 0") auto
  with y z show ?case by simp
qed simp

lemma advance_inv:
  assumes i: "encInv src e x" and m: "1 \<le> match_length (e_sp x)" "match_length (e_sp x) \<le> e_len x"
  shows "\<exists>y. advance x = Some y \<and> moved src (e + match_length (e_sp x)) x y"
proof -
  let ?m = "match_length (e_sp x)"
  from readLoop_inv [OF i, of ?m] obtain j y where
    y: "readLoop ?m x = Some (?m - j, y)" "j \<le> ?m" "encInv src (e + j) y" "sameCode x y" "e_len y = e_len x"
      "j < ?m \<longrightarrow> e_src y = []" "0 < j \<longrightarrow> moved src (e + j) x y" by auto
  show ?thesis
  proof (cases "j = ?m")
    case True
    with y m(1) show ?thesis by (simp add: advance_def)
  next
    case False
    with y(2,5,6) m(2) have n: "e_src y = []" "?m - j \<le> e_len y" "0 < ?m - j" by auto
    from skipLoop_inv [OF y(3) n(1,2)] n(3) y(2) obtain z where
      z: "skipLoop (?m - j) y = Some z" "moved src (e + ?m) y z" by auto
    with y(1) moved_trans [OF y(4) z(2)] show ?thesis by (simp add: advance_def)
  qed
qed

section \<open>The encoder's code\<close>

text \<open>The code written so far: full groups in the destination and a last group in the code buffer.\<close>

definition codeInv :: "byte list \<Rightarrow> nat \<Rightarrow> (byte \<times> token list) list \<Rightarrow> token list \<Rightarrow> encoder \<Rightarrow> bool" where
  "codeInv src e gs ts x \<longleftrightarrow> full gs \<and> flagged (code_buf x ! 0) 0 ts \<and> (\<forall>i. bit (code_buf x ! 0) i \<longrightarrow> i < length ts)
     \<and> length (code_buf x) = 17 \<and> code_buf_ptr x \<le> 17 \<and> take (code_buf_ptr x) (code_buf x) = groupBytes (code_buf x ! 0, ts)
     \<and> e_dst x = concat (map groupBytes gs) \<and> describes src 0 (tokensOf gs @ ts) \<and> aheadAll (tokensOf gs @ ts) = e"

lemma length_tokBytes: "length (tokBytes t) \<le> 2"
  by (cases t) auto

lemma groupBytes_length: "length (groupBytes (f, ts)) \<le> 1 + 2 * length ts"
proof (induction ts)
  case (Cons t ts)
  with length_tokBytes [of t] show ?case by (simp add: groupBytes_def)
qed (simp add: groupBytes_def)

lemma code_ptr:
  assumes "codeInv src e gs ts x"
  shows "1 \<le> code_buf_ptr x" and "code_buf_ptr x = length (groupBytes (code_buf x ! 0, ts))" and "code_buf_ptr x \<le> 1 + 2 * length ts"
proof -
  have t: "take (code_buf_ptr x) (code_buf x) = groupBytes (code_buf x ! 0, ts)" using assms unfolding codeInv_def by blast
  have "length (code_buf x) = 17" "code_buf_ptr x \<le> 17" using assms unfolding codeInv_def by blast+
  then have "length (take (code_buf_ptr x) (code_buf x)) = code_buf_ptr x" by simp
  then show l: "code_buf_ptr x = length (groupBytes (code_buf x ! 0, ts))" by (simp only: t)
  then show "1 \<le> code_buf_ptr x" by (simp add: groupBytes_def)
  show "code_buf_ptr x \<le> 1 + 2 * length ts" using l groupBytes_length [of "code_buf x ! 0" ts] by simp
qed

lemma putCode_eq:
  assumes "code_buf_ptr x < 17" and "length (code_buf x) = 17"
  shows "\<exists>y. putCode b x = Some y \<and> y = x\<lparr>code_buf := (code_buf x)[code_buf_ptr x := b], code_buf_ptr := code_buf_ptr x + 1\<rparr>
    \<and> take (code_buf_ptr y) (code_buf y) = take (code_buf_ptr x) (code_buf x) @ [b]"
  using assms by (simp add: putCode_def take_Suc_conv_app_nth)

lemma groupBytes_snoc: "groupBytes (f, ts @ [t]) = groupBytes (f, ts) @ tokBytes t"
  by (simp add: groupBytes_def)

lemma flagged_snoc:
  assumes "flagged f 0 ts" and "length ts < 8" and "\<forall>i. bit f i \<longrightarrow> i < length ts"
  shows "flagged (f OR push_bit (length ts) 1) 0 (ts @ [Letter c])" and "flagged f 0 (ts @ [Pair p n])"
    and "\<forall>i. bit (f OR push_bit (length ts) 1) i \<longrightarrow> i < Suc (length ts)"
proof -
  have b: "bit (f OR push_bit (length ts) 1) i \<longleftrightarrow> bit f i \<or> i = length ts" for i
    using assms(2) by (simp only: bit_or_iff bit_push_bit_iff bit_1_iff) auto
  show "flagged (f OR push_bit (length ts) 1) 0 (ts @ [Letter c])"
    using assms unfolding flagged_def b by (auto simp: nth_append)
  show "flagged f 0 (ts @ [Pair p n])" using assms by (auto simp: flagged_def nth_append)
  show "\<forall>i. bit (f OR push_bit (length ts) 1) i \<longrightarrow> i < Suc (length ts)" unfolding b using assms(3) less_SucI by blast
qed

text \<open>One unit is added to the code.\<close>

definition emitted :: "byte list \<Rightarrow> nat \<Rightarrow> (byte \<times> token list) list \<Rightarrow> token list \<Rightarrow> token \<Rightarrow> encoder \<Rightarrow> encoder \<Rightarrow> bool" where
  "emitted src e gs ts t x y \<longleftrightarrow> codeInv src (e + ahead t) gs (ts @ [t]) y \<and> encInv src e y \<and> e_mask y = e_mask x
     \<and> e_len y = e_len x \<and> match_length (e_sp y) = ahead t \<and> 1 \<le> ahead t \<and> ahead t \<le> e_len x"

lemma encInv_code: "encInv src e (x\<lparr>e_sp := (e_sp x)\<lparr>match_length := k\<rparr>, code_buf := cb, code_buf_ptr := n\<rparr>) \<longleftrightarrow> encInv src e x"
  by (simp add: encInv_def nodesPlaced_def)

lemma emit_letter:
  assumes c: "codeInv src e gs ts x" and l: "length ts < 8" and m: "e_mask x = push_bit (length ts) 1"
    and i: "encInv src e x" "e_len x > 0" and s: "min (match_length (e_sp x)) (e_len x) \<le> 2"
  shows "\<exists>t y. emitUnit x = Some y \<and> emitted src e gs ts t x y"
proof -
  let ?f = "code_buf x ! 0 OR e_mask x" and ?c = "src ! e"
  note C = c [unfolded codeInv_def]
  have r: "text_buf (e_sp x) (e_r x) = ?c" "e_r x < 4096"
    using text_at [of src "e + e_len x" "text_buf (e_sp x)" "4078 + e" 0] i by (auto simp: encInv_def place_def)
  let ?x = "x\<lparr>e_sp := (e_sp x)\<lparr>match_length := 1\<rparr>, code_buf := (code_buf x)[0 := ?f]\<rparr>"
  obtain y where y: "putCode ?c ?x = Some y" "y = ?x\<lparr>code_buf := (code_buf ?x)[code_buf_ptr x := ?c], code_buf_ptr := code_buf_ptr x + 1\<rparr>"
    "take (code_buf_ptr y) (code_buf y) = take (code_buf_ptr x) ((code_buf x)[0 := ?f]) @ [?c]"
    using putCode_eq [of ?x ?c] C code_ptr(3) [OF c] l by auto
  have f: "code_buf y ! 0 = ?f" using y(2) C code_ptr(1) [OF c] by simp
  have "take (code_buf_ptr x) ((code_buf x)[0 := ?f]) = (take (code_buf_ptr x) (code_buf x))[0 := ?f]" by (rule take_update_swap)
  also have "\<dots> = groupBytes (?f, ts)" using C by (simp add: groupBytes_def)
  finally have t: "take (code_buf_ptr y) (code_buf y) = groupBytes (?f, ts @ [Letter ?c])" using y(3) by (simp add: groupBytes_snoc)
  have "codeInv src (e + 1) gs (ts @ [Letter ?c]) y"
    using C t y(2) f flagged_snoc(1,3) [of "code_buf x ! 0" ts] m l code_ptr(3) [OF c] i
    by (auto simp: codeInv_def describes_append encInv_def)
  moreover have "encInv src e y" using i(1) encInv_code by (simp add: y(2))
  ultimately have "emitted src e gs ts (Letter ?c) x y" using i(2) by (simp add: emitted_def y(2))
  moreover have "emitUnit x = Some y" using s r y(1) by (auto simp: emitUnit_def Let_def getT_def min_def)
  ultimately show ?thesis by blast
qed

lemma emit_pair:
  assumes c: "codeInv src e gs ts x" and l: "length ts < 8"
    and i: "encInv src e x" "matchOK src e (e_len x) (e_sp x)" and s: "2 < min (match_length (e_sp x)) (e_len x)"
  shows "\<exists>t y. emitUnit x = Some y \<and> emitted src e gs ts t x y"
proof -
  let ?m = "min (match_length (e_sp x)) (e_len x)" and ?p = "match_position (e_sp x)"
  let ?b = "of_nat ((drop_bit 4 ?p AND 0xF0) OR (?m - 3)) :: byte"
  note C = c [unfolded codeInv_def]
  have o: "occurs src e ?p ?m" "?m \<le> 18" using i(2) s by (auto simp: matchOK_def)
  let ?x = "x\<lparr>e_sp := (e_sp x)\<lparr>match_length := ?m\<rparr>\<rparr>"
  obtain y where y: "putCode (of_nat ?p) ?x = Some y"
    "y = ?x\<lparr>code_buf := (code_buf x)[code_buf_ptr x := of_nat ?p], code_buf_ptr := code_buf_ptr x + 1\<rparr>"
    "take (code_buf_ptr y) (code_buf y) = take (code_buf_ptr x) (code_buf x) @ [of_nat ?p]"
    using putCode_eq [of ?x "of_nat ?p"] C code_ptr(3) [OF c] l by auto
  obtain z where z: "putCode ?b y = Some z"
    "z = y\<lparr>code_buf := (code_buf y)[code_buf_ptr y := ?b], code_buf_ptr := code_buf_ptr y + 1\<rparr>"
    "take (code_buf_ptr z) (code_buf z) = take (code_buf_ptr y) (code_buf y) @ [?b]"
    using putCode_eq [of y ?b] C code_ptr(3) [OF c] l y(2) by auto
  have f: "code_buf z ! 0 = code_buf x ! 0" using y(2) z(2) C code_ptr(1) [OF c] by simp
  have t: "take (code_buf_ptr z) (code_buf z) = groupBytes (code_buf x ! 0, ts @ [Pair ?p ?m])"
    using y(3) z(3) C by (simp add: groupBytes_snoc)
  have "e + ?m \<le> length src" using i(1) by (simp add: encInv_def min_def)
  then have "codeInv src (e + ?m) gs (ts @ [Pair ?p ?m]) z"
    using C t y(2) z(2) f flagged_snoc(2) [of "code_buf x ! 0" ts ?p ?m] l code_ptr(3) [OF c] s o less_SucI
    by (auto simp: codeInv_def describes_append)
  moreover have "encInv src e z" using i(1) encInv_code by (simp add: y(2) z(2))
  ultimately have "emitted src e gs ts (Pair ?p ?m) x z" using s by (simp add: emitted_def y(2) z(2))
  moreover have "emitUnit x = Some z"
  proof -
    have m: "(if match_length (e_sp x) > e_len x then e_len x else match_length (e_sp x)) = ?m" by (simp add: min_def)
    have "match_position (e_sp y) = ?p" "THRESHOLD + 1 = 3" by (simp_all add: y(2))
    then show ?thesis unfolding emitUnit_def Let_def m using s y(1) z(1)
      by (simp only: not_le [symmetric] if_False bind.bind_lunit)
  qed
  ultimately show ?thesis by blast
qed

lemma emitUnit_emitted:
  assumes "codeInv src e gs ts x" and "length ts < 8" and "e_mask x = push_bit (length ts) 1"
    and "moved src e w x" and "e_len x > 0"
  shows "\<exists>t y. emitUnit x = Some y \<and> emitted src e gs ts t x y"
  using emit_letter [OF assms(1-3)] emit_pair [OF assms(1,2)] assms(4,5) unfolding moved_def by (meson not_less)

lemma sendCode_eq:
  "length dst \<le> dstlen \<Longrightarrow> sendCode dstlen cs dst
     = (length dst + length cs \<le> dstlen, dst @ take (dstlen - length dst) cs)"
proof (induction cs arbitrary: dst)
  case (Cons c cs)
  then show ?case by (cases "length dst < dstlen") (auto simp: take_Cons' Suc_diff_Suc)
qed simp

lemma push_bit_mask: "i < 8 \<Longrightarrow> push_bit 1 (push_bit i 1 :: byte) = 0 \<longleftrightarrow> i = 7"
proof -
  assume i: "i < 8"
  have b: "bit (push_bit (Suc i) 1 :: byte) k \<longleftrightarrow> k < 8 \<and> k = Suc i" for k by (simp only: bit_push_bit_iff bit_1_iff) auto
  have "push_bit 1 (push_bit i 1 :: byte) = push_bit (Suc i) 1" by (simp only: push_bit_push_bit) simp
  moreover have "(push_bit (Suc i) 1 :: byte) = 0 \<longleftrightarrow> i = 7" unfolding bit_eq_iff [of "push_bit (Suc i) 1 :: byte"] b using i by (auto dest!: spec [of _ "Suc i"])
  ultimately show ?thesis by (simp only:)
qed

text \<open>Eight flags fill a group: it goes to the destination.\<close>

definition sameText :: "encoder \<Rightarrow> encoder \<Rightarrow> bool" where
  "sameText x y \<longleftrightarrow> e_sp y = e_sp x \<and> e_src y = e_src x \<and> e_len y = e_len x \<and> e_r y = e_r x \<and> e_s y = e_s x"

definition shifted :: "byte list \<Rightarrow> nat \<Rightarrow> token list \<Rightarrow> nat \<Rightarrow> encoder \<Rightarrow> bool \<Rightarrow> encoder \<Rightarrow> bool" where
  "shifted src e ts dstlen y ok z \<longleftrightarrow> length (e_dst z) \<le> dstlen \<and> sameText y z
     \<and> (ok \<longrightarrow> (\<exists>gs' ts'. codeInv src e gs' ts' z \<and> length ts' < 8 \<and> e_mask z = push_bit (length ts') 1))
     \<and> (length (e_dst y) + length (groupBytes (code_buf y ! 0, ts)) \<le> dstlen \<longrightarrow> ok)"

lemma shiftMask_inv:
  assumes c: "codeInv src e gs ts y" and l: "length ts \<le> 8" "ts \<noteq> []" and m: "e_mask y = push_bit (length ts - 1) 1"
    and d: "length (e_dst y) \<le> dstlen"
  shows "\<exists>ok z. shiftMask dstlen y = (ok, z) \<and> shifted src e ts dstlen y ok z"
proof (cases "length ts = 8")
  case False
  then have "push_bit 1 (e_mask y) \<noteq> 0" using push_bit_mask [of "length ts - 1"] l m by auto
  moreover have "push_bit 1 (e_mask y) = push_bit (length ts) 1" using l(2) unfolding m push_bit_push_bit by (cases ts) simp_all
  ultimately have e: "shiftMask dstlen y = (True, y\<lparr>e_mask := push_bit (length ts) 1\<rparr>)"
    unfolding shiftMask_def Let_def by (simp only: if_False)
  have "codeInv src e gs ts (y\<lparr>e_mask := k\<rparr>)" for k using c by (simp add: codeInv_def)
  moreover have "length ts < 8" using l(1) False by simp
  ultimately show ?thesis unfolding e shifted_def using d
    by (intro exI [of _ True] exI [of _ "y\<lparr>e_mask := push_bit (length ts) 1\<rparr>"] conjI impI exI [of _ gs] exI [of _ ts])
      (simp_all add: sameText_def)
next
  case True
  then have z: "push_bit 1 (e_mask y) = 0" using push_bit_mask [of 7] m by simp
  let ?g = "(code_buf y ! 0, ts)"
  have C: "full gs" "flagged (code_buf y ! 0) 0 ts" "length (code_buf y) = 17" "take (code_buf_ptr y) (code_buf y) = groupBytes ?g"
    "e_dst y = concat (map groupBytes gs)" "describes src 0 (tokensOf gs @ ts)" "aheadAll (tokensOf gs @ ts) = e"
    using c unfolding codeInv_def by blast+
  let ?z = "y\<lparr>e_dst := e_dst y @ groupBytes ?g, code_buf := (code_buf y)[0 := 0], code_buf_ptr := 1, e_mask := 1\<rparr>"
  have "full (gs @ [?g])" using C(1,2) True by (auto simp: full_def)
  moreover have "take 1 ((code_buf y)[0 := 0]) = groupBytes (0, [])" using C(3) by (cases "code_buf y") (simp_all add: groupBytes_def)
  ultimately have "codeInv src e (gs @ [?g]) [] ?z" using C by (simp add: codeInv_def flagged_def)
  then have ok: "codeInv src e (gs @ [?g]) [] ?z \<and> length [] < (8 :: nat) \<and> e_mask ?z = push_bit (length []) 1" by simp
  have e: "shiftMask dstlen y = (if length (e_dst y) + length (groupBytes ?g) \<le> dstlen then (True, ?z)
      else (False, y\<lparr>e_dst := e_dst y @ take (dstlen - length (e_dst y)) (groupBytes ?g), e_mask := 0\<rparr>))"
    unfolding shiftMask_def Let_def z C(4) sendCode_eq [OF d] by simp
  show ?thesis
  proof (cases "length (e_dst y) + length (groupBytes ?g) \<le> dstlen")
    case True
    then show ?thesis unfolding e shifted_def using ok
      by (intro exI [of _ True] exI [of _ ?z] conjI impI exI [of _ "gs @ [?g]"] exI [of _ "[]"]) (simp_all add: sameText_def)
  next
    case False
    then show ?thesis unfolding e shifted_def using d by (intro exI [of _ False]) (simp add: sameText_def)
  qed
qed

lemma describes_sizes:
  "describes src e ts \<Longrightarrow> length (concat (map tokBytes ts)) \<le> aheadAll ts \<and> length ts \<le> aheadAll ts"
proof (induction ts arbitrary: e)
  case (Cons t ts)
  then have "length (tokBytes t) \<le> ahead t" "1 \<le> ahead t" by (cases t; simp)+
  with Cons.IH [of "e + ahead t"] Cons.prems show ?case by simp
qed simp

lemma groups_sizes:
  "full gs \<Longrightarrow> length (concat (map groupBytes gs)) = length gs + length (concat (map tokBytes (tokensOf gs)))
     \<and> length (tokensOf gs) = 8 * length gs"
  by (induction gs) (auto simp: full_def groupBytes_def)

text \<open>The code is at most an eighth longer than the text.\<close>

lemma code_size:
  assumes "full gs" and "describes src 0 (tokensOf gs @ ts)" and "aheadAll (tokensOf gs @ ts) = e"
  shows "length (concat (map groupBytes gs)) + (if ts = [] then 0 else length (groupBytes (f, ts))) \<le> e + (e + 7) div 8"
proof -
  note g = groups_sizes [OF assms(1)] and d = describes_sizes [OF assms(2)]
  have n: "8 * length gs + length ts \<le> e" using g d assms(3) by simp
  have "length gs + (if ts = [] then 0 else 1) \<le> (e + 7) div 8"
  proof (cases "ts = []")
    case False
    then have "1 \<le> length ts" by (cases ts) simp_all
    with n have "8 * (length gs + 1) \<le> e + 7" by simp
    then show ?thesis using False by simp
  qed (use n in simp)
  moreover have "length (groupBytes (f, ts)) = 1 + length (concat (map tokBytes ts))" by (simp add: groupBytes_def)
  ultimately show ?thesis using g d assms(3) by auto
qed

section \<open>The encoder describes the text\<close>

text \<open>A code that describes the whole text.\<close>

definition codeOf :: "byte list \<Rightarrow> byte list \<Rightarrow> bool" where
  "codeOf src out \<longleftrightarrow> (\<exists>gs f ts. full gs \<and> flagged f 0 ts \<and> describes src 0 (tokensOf gs @ ts)
     \<and> aheadAll (tokensOf gs @ ts) = length src \<and> out = concat (map groupBytes gs) @ (if ts = [] then [] else groupBytes (f, ts)))"

abbreviation worst :: "byte list \<Rightarrow> nat" where
  "worst src \<equiv> length src + (length src + 7) div 8"

definition encoded :: "byte list \<Rightarrow> nat \<Rightarrow> bool \<times> byte list \<Rightarrow> bool" where
  "encoded src dstlen = (\<lambda>(ok, out). length out \<le> dstlen \<and> (ok \<longrightarrow> codeOf src out) \<and> (worst src \<le> dstlen \<longrightarrow> ok))"

lemma code_fits:
  assumes "codeInv src e gs ts x" and "e \<le> length src"
  shows "length (e_dst x) + (if ts = [] then 0 else length (groupBytes (code_buf x ! 0, ts))) \<le> worst src"
proof -
  have "full gs" "describes src 0 (tokensOf gs @ ts)" "aheadAll (tokensOf gs @ ts) = e" "e_dst x = concat (map groupBytes gs)"
    using assms(1) unfolding codeInv_def by blast+
  with code_size [OF this(1-3), of "code_buf x ! 0"] have
    "length (e_dst x) + (if ts = [] then 0 else length (groupBytes (code_buf x ! 0, ts))) \<le> e + (e + 7) div 8" by simp
  also have "\<dots> \<le> worst src" using assms(2) by (intro add_mono div_le_mono) simp_all
  finally show ?thesis .
qed

lemma finishCode_encoded:
  assumes c: "codeInv src (length src) gs ts x" and d: "length (e_dst x) \<le> dstlen"
  shows "encoded src dstlen (finishCode dstlen x)"
proof -
  have C: "full gs" "flagged (code_buf x ! 0) 0 ts" "describes src 0 (tokensOf gs @ ts)" "aheadAll (tokensOf gs @ ts) = length src"
    "e_dst x = concat (map groupBytes gs)" "take (code_buf_ptr x) (code_buf x) = groupBytes (code_buf x ! 0, ts)"
    using c unfolding codeInv_def by blast+
  have n: "code_buf_ptr x > 1 \<longleftrightarrow> ts \<noteq> []"
  proof -
    have "length (tokBytes t) > 0" for t by (cases t) simp_all
    then show ?thesis unfolding code_ptr(2) [OF c] by (cases ts) (auto simp: groupBytes_def)
  qed
  have "codeOf src (e_dst x @ (if ts = [] then [] else groupBytes (code_buf x ! 0, ts)))"
    using C(1-5) unfolding codeOf_def by blast
  with code_fits [OF c] d n show ?thesis
    unfolding finishCode_def C(6) sendCode_eq [OF d] by (cases "ts = []") (auto simp: encoded_def)
qed

text \<open>The loop ends, with every access inside its array, and what it writes describes the text.\<close>

lemma encodeLoop_encoded:
  assumes "codeInv src e gs ts x" and "length ts < 8" and "e_mask x = push_bit (length ts) 1" and "moved src e w x"
    and "e_len x > 0" and "length (e_dst x) \<le> dstlen"
  shows "\<exists>res. encodeLoop dstlen x = Some res \<and> encoded src dstlen res"
  using assms
proof (induction "length src - e" arbitrary: e gs ts x w rule: less_induct)
  case less
  from emitUnit_emitted [OF less.prems(1-5)] obtain t y where
    y: "emitUnit x = Some y" "emitted src e gs ts t x y" by blast
  have Y: "codeInv src (e + ahead t) gs (ts @ [t]) y" "encInv src e y" "e_mask y = e_mask x" "e_len y = e_len x"
    "match_length (e_sp y) = ahead t" "1 \<le> ahead t" "ahead t \<le> e_len y" using y(2) unfolding emitted_def by auto
  have dst: "e_dst y = e_dst x" using Y(1) less.prems(1) unfolding codeInv_def by simp
  have n: "e + ahead t \<le> length src" using Y(2,7) by (simp add: encInv_def)
  have l: "length (ts @ [t]) \<le> 8" "ts @ [t] \<noteq> []" "e_mask y = push_bit (length (ts @ [t]) - 1) 1"
    using less.prems(2,3) Y(3) by simp_all
  from shiftMask_inv [OF Y(1) l, of dstlen] less.prems(6) dst obtain ok z where
    z0: "shiftMask dstlen y = (ok, z)" "shifted src (e + ahead t) (ts @ [t]) dstlen y ok z" by auto
  note z = z0(1) z0(2) [unfolded shifted_def, THEN conjunct1] z0(2) [unfolded shifted_def, THEN conjunct2, THEN conjunct1]
    z0(2) [unfolded shifted_def, THEN conjunct2, THEN conjunct2, THEN conjunct1]
    z0(2) [unfolded shifted_def, THEN conjunct2, THEN conjunct2, THEN conjunct2]
  show ?case
  proof (cases ok)
    case False
    have "\<not> worst src \<le> dstlen" using z(5) False code_fits [OF Y(1) n] by simp
    with y(1) z(1,2) False show ?thesis by (subst encodeLoop.simps) (simp add: encoded_def)
  next
    case True
    with z(4) obtain gs' ts' where g: "codeInv src (e + ahead t) gs' ts' z" "length ts' < 8" "e_mask z = push_bit (length ts') 1" by blast
    have i: "encInv src e z" "match_length (e_sp z) = ahead t" "e_len z = e_len y" using Y z(3) by (auto simp: encInv_def sameText_def)
    from advance_inv [OF i(1)] i(2,3) Y(6,7) obtain v where v: "advance z = Some v" "moved src (e + ahead t) z v" by auto
    have same: "sameCode z v" and iv: "encInv src (e + ahead t) v" using v(2) by (auto simp: moved_def)
    have gv: "codeInv src (e + ahead t) gs' ts' v" "e_mask v = push_bit (length ts') 1" "length (e_dst v) \<le> dstlen"
      using g same z(2) by (auto simp: codeInv_def sameCode_def)
    have step: "encodeLoop dstlen x = (if e_len v > 0 then encodeLoop dstlen v else Some (finishCode dstlen v))"
      using y(1) z(1) True v(1) by (subst encodeLoop.simps) simp
    show ?thesis
    proof (cases "e_len v > 0")
      case True
      have "length src - (e + ahead t) < length src - e" using n Y(6) by linarith
      from less.hyps [OF this gv(1) g(2) gv(2) v(2) True gv(3)] step True show ?thesis by simp
    next
      case False
      then have "e + ahead t = length src" using iv by (auto simp: encInv_def)
      with finishCode_encoded gv step False show ?thesis by simp
    qed
  qed
qed

section \<open>The start of the encoder\<close>

definition filled :: "byte list \<Rightarrow> nat \<Rightarrow> encode_state" where
  "filled src len = init_state\<lparr>text_buf := \<lambda>i. if i < 4078 then 0x20 else if i < 4078 + len then src ! (i - 4078) else 0\<rparr>"

lemma fillLoop_eq:
  "len \<le> 18 \<Longrightarrow> len \<le> length src \<Longrightarrow> fillLoop len (drop len src) (filled src len)
     = Some (min 18 (length src), drop (min 18 (length src)) src, filled src (min 18 (length src)))"
proof (induction "18 - len" arbitrary: len)
  case 0
  then show ?case by (subst fillLoop.simps) simp
next
  case (Suc k)
  show ?case
  proof (cases "len < length src")
    case False
    with Suc.prems have e: "len = length src" "min 18 (length src) = len" by auto
    show ?thesis unfolding e(2) by (subst fillLoop.simps) (simp add: e(1))
  next
    case True
    have k: "k = 18 - (len + 1)" "len < 18" using Suc.hyps(2) by simp_all
    have s: "setT (RBSIZE - UPLIM + len) (src ! len) (filled src len) = Some (filled src (len + 1))"
      using k(2) by (auto simp: setT_def filled_def init_state_def)
    have "fillLoop len (drop len src) (filled src len) = fillLoop (len + 1) (drop (len + 1) src) (filled src (len + 1))"
      using True k(2) s by (subst fillLoop.simps) (simp add: hd_drop_conv_nth drop_Suc tl_drop)
    with Suc.hyps(1) [OF k(1)] k(2) True show ?thesis by simp
  qed
qed

lemma forest_filled: "forest (filled src len) h"
  by (rule tree_okI) (auto simp: filled_def init_state_def isNode_def isVert_def kid_def)

lemma insertAhead_nodes:
  assumes "1 \<le> i" and "forest sp h" and "\<forall>x. isNode (parent sp) x \<longrightarrow> 4078 - i < x \<and> x < 4078" and "i \<le> 19"
  shows "\<exists>sp' h'. insertAhead i sp = Some sp' \<and> forest sp' h' \<and> text_buf sp' = text_buf sp \<and> (\<forall>x. isNode (parent sp') x \<longrightarrow> x < 4078)"
  using assms
proof (induction "19 - i" arbitrary: i sp h)
  case 0
  then show ?case by (subst insertAhead.simps) auto
next
  case (Suc k)
  then have k: "k = 19 - (i + 1)" "i \<le> 18" by simp_all
  have "parent sp (4078 - i) = NIL" using Suc.prems(1,3) k(2) by (auto simp: isNode_def dest!: spec [of _ "4078 - i"])
  moreover have "4078 - i < 4096" by linarith
  ultimately obtain sp1 h1 where
    sp1: "insert_node (4078 - i) sp = Some sp1" "forest sp1 h1" "text_buf sp1 = text_buf sp"
      "\<forall>x. isNode (parent sp1) x \<longrightarrow> x = 4078 - i \<or> isNode (parent sp) x"
    using insert_node_inserted [OF Suc.prems(2)] unfolding inserted_def by metis
  have n: "\<forall>x. isNode (parent sp1) x \<longrightarrow> 4078 - (i + 1) < x \<and> x < 4078" using sp1(4) Suc.prems(1,3) k(2) by fastforce
  from Suc.hyps(1) [OF k(1) _ sp1(2) n] k(2) sp1(1,3) show ?case by (subst insertAhead.simps) simp
qed

lemma compress_lzss_encoded:
  assumes f: "length fresh = 17" and s: "src \<noteq> []"
  shows "\<exists>res. compress_lzss True fresh dstlen src = Some res \<and> encoded src dstlen res"
proof -
  let ?n = "min 18 (length src)"
  have n: "1 \<le> ?n" using s by (cases src) simp_all
  have "filled src 0 = init_state" by (auto simp: filled_def init_state_def)
  then have "fillLoop 0 src init_state = fillLoop 0 (drop 0 src) (filled src 0)" by simp
  also have "\<dots> = Some (?n, drop ?n src, filled src ?n)" using fillLoop_eq [of 0 src] by simp
  finally have fill: "fillLoop 0 src init_state = Some (?n, drop ?n src, filled src ?n)" .
  have "\<forall>x. \<not> isNode (parent (filled src ?n)) x" by (auto simp: filled_def init_state_def isNode_def)
  with insertAhead_nodes [OF _ forest_filled, of 1 src ?n] obtain sp1 h1 where
    sp1: "insertAhead 1 (filled src ?n) = Some sp1" "forest sp1 h1" "text_buf sp1 = text_buf (filled src ?n)"
      "\<forall>x. isNode (parent sp1) x \<longrightarrow> x < 4078" by auto
  have "textOK src (0 + ?n) (text_buf sp1)" unfolding sp1(3) by (auto simp: textOK_def filled_def place_def)
  moreover have "nodesPlaced 0 (4078 + 0) sp1" 
  proof -
    have "\<exists>P. x = P mod 4096 \<and> 0 \<le> P \<and> P < 4078 + 0" if "isNode (parent sp1) x" for x
      using sp1(4) that by (intro exI [of _ x]) auto
    then show ?thesis using sp1(2) by (auto simp: nodesPlaced_def)
  qed
  ultimately obtain sp2 where sp2: "insert_node 4078 sp1 = Some sp2" "nodesPlaced 0 (4078 + 0 + 1) sp2" "matchOK src 0 ?n sp2"
      "text_buf sp2 = text_buf sp1" "textOK src (0 + ?n) (text_buf sp2)"
    using insert_placed [of 0 sp1 src ?n] n by auto
  let ?x = "\<lparr>e_sp = sp2, e_src = drop ?n src, e_len = ?n, e_r = RBSIZE - UPLIM, e_s = 0,
     code_buf = fresh[0 := 0], code_buf_ptr = 1, e_mask = 1, e_dst = []\<rparr>"
  have "moved src 0 ?x ?x" using sp2 by (auto simp: moved_def encInv_def sameCode_def)
  moreover have "codeInv src 0 [] [] ?x" using f by (cases fresh) (auto simp: codeInv_def full_def flagged_def groupBytes_def)
  ultimately have "\<exists>res. encodeLoop dstlen ?x = Some res \<and> encoded src dstlen res"
    using encodeLoop_encoded [of src 0 "[]" "[]" ?x ?x dstlen] s by simp
  moreover have "compress_lzss True fresh dstlen src = encodeLoop dstlen ?x" using fill sp1(1) sp2(1) n by (auto simp: compress_lzss_def)
  ultimately show ?thesis by simp
qed

lemma codeOf_decoded: "codeOf src out \<Longrightarrow> length src \<le> n \<Longrightarrow> decompress_lzss fresh n out = src"
  using decompress_described unfolding codeOf_def by blast

lemma compress_lzss_codeOf:
  assumes "length fresh = 17" and "compress_lzss alloc fresh dstlen src = Some (True, out)"
  shows "codeOf src out"
proof -
  have "alloc \<and> src \<noteq> []" using assms(2) by (auto simp: compress_lzss_def fillLoop.simps split: if_split_asm)
  with compress_lzss_encoded [OF assms(1), of src dstlen] assms(2) show ?thesis by (auto simp: encoded_def)
qed

text \<open>A unit stands for at most eighteen bytes, so the code cannot be much shorter than the text.\<close>

lemma codeOf_length: "codeOf src out \<Longrightarrow> length src \<le> 18 * length out"
proof -
  have t: "aheadAll ts \<le> 18 * length (concat (map tokBytes ts))" if "describes src e ts" for e ts
    using that
  proof (induction ts arbitrary: e)
    case (Cons t ts)
    have "ahead t \<le> 18 * length (tokBytes t)" using Cons.prems by (cases t) auto
    with Cons.IH [of "e + ahead t"] Cons.prems show ?case by simp
  qed simp
  assume "codeOf src out"
  then obtain gs f ts where g: "full gs" "describes src 0 (tokensOf gs @ ts)" "aheadAll (tokensOf gs @ ts) = length src"
    "out = concat (map groupBytes gs) @ (if ts = [] then [] else groupBytes (f, ts))" by (auto simp: codeOf_def)
  have "length (concat (map tokBytes (tokensOf gs @ ts))) \<le> length out"
    unfolding g(4) using groups_sizes [OF g(1)] by (auto simp: groupBytes_def)
  with t [OF g(2)] g(3) show ?thesis by linarith
qed

text \<open>C11: whatever the text, the encoder ends with every access inside its array; it stays inside the destination, and
  it succeeds if the state is allocated, the text is not empty and the destination has room for an eighth more
  than the text.\<close>

theorem compress_lzss_returns:
  assumes "length fresh = 17"
  shows "\<exists>ok out. compress_lzss alloc fresh dstlen src = Some (ok, out) \<and> length out \<le> dstlen
    \<and> (alloc \<and> src \<noteq> [] \<and> length src + (length src + 7) div 8 \<le> dstlen \<longrightarrow> ok)"
proof (cases "alloc \<and> src \<noteq> []")
  case True
  with compress_lzss_encoded [OF assms, of src dstlen] show ?thesis by (auto simp: encoded_def)
next
  case False
  then have "compress_lzss alloc fresh dstlen src = Some (False, [])"
    by (auto simp: compress_lzss_def fillLoop.simps)
  with False show ?thesis by auto
qed

text \<open>C10: decoding what the encoder wrote gives the text back, whatever the decoder's ring buffer held before.\<close>

theorem lzss_roundtrip:
  assumes "length fresh = 17" and "compress_lzss alloc fresh dstlen src = Some (True, out)" and "length src \<le> n"
  shows "decompress_lzss fresh' n out = src"
  by (rule codeOf_decoded [OF compress_lzss_codeOf [OF assms(1,2)] assms(3)])

definition demo_text :: "byte list" where
  "demo_text = [0x61, 0x62, 0x63, 0x61, 0x62, 0x63, 0x61, 0x62, 0x63, 0x64]"

theorem compress_lzss_returns_witness:
  "\<exists>out. compress_lzss True (replicate 17 0) 12 demo_text = Some (True, out) \<and> length out \<le> 12"
  using compress_lzss_returns [of "replicate 17 0" True 12 demo_text] by (auto simp: demo_text_def)

theorem lzss_roundtrip_witness:
  "\<exists>out. compress_lzss True (replicate 17 0) 12 demo_text = Some (True, out) \<and> decompress_lzss (\<lambda>i. 0) 10 out = demo_text"
proof -
  from compress_lzss_encoded [of "replicate 17 0" demo_text 12] obtain out where
    "compress_lzss True (replicate 17 0) 12 demo_text = Some (True, out)" by (auto simp: encoded_def demo_text_def)
  with lzss_roundtrip [of "replicate 17 0" True 12 demo_text out 10] show ?thesis by (auto simp: demo_text_def)
qed

end
