(* ===== verification/Lilu_Nvram.thy ===== *)
theory Lilu_Nvram
  imports Lilu_Crypto Lilu_Lzss
begin

text \<open>
  \<^verbatim>\<open>kern_nvram.cpp\<close>: values in the variables of the firmware, raw or with a header, compressed, encrypted and with a
  checksum, over the entry points of \<^verbatim>\<open>kern_compression.cpp\<close>.  The cipher, the checksum, the two other
  decompressors and the registry's decisions are parameters, collected with the outcomes of the allocations in
  a record; a write outside a buffer is \<open>None\<close>.
\<close>

section \<open>Parameters and state\<close>

datatype nvProp = PData "byte list" | POther

record ('e, 'd) world =
  w_aes :: "('e, 'd) aes"
  w_iv :: "byte list"
  w_crc :: "byte list \<Rightarrow> u32"
  w_alloc :: "nat \<Rightarrow> bool"
  w_code :: "byte list"
  w_ring :: "nat \<Rightarrow> byte"
  w_lzvn :: "nat \<Rightarrow> byte list \<Rightarrow> byte list"
  w_zlib :: "nat \<Rightarrow> byte list \<Rightarrow> byte list"
  w_withBytes :: "byte list \<Rightarrow> bool"
  w_accepts :: "string \<Rightarrow> byte list \<Rightarrow> bool"

text \<open>The entry of the device tree, and what was written back to the chip so far.\<close>

record nvram =
  props :: "string \<Rightarrow> nvProp option"
  synced :: "(string \<Rightarrow> nvProp option) list"

section \<open>Compression\<close>

abbreviation ModeLZVN :: u32 where "ModeLZVN \<equiv> 0x6E767A6C"
abbreviation ModeLZSS :: u32 where "ModeLZSS \<equiv> 0x73737A6C"
abbreviation ModeZLIB :: u32 where "ModeZLIB \<equiv> 0x9C787A6C"

text \<open>The outcome of an allocation inside is \<open>ok\<close>; \<open>have\<close> says that the caller gives a buffer.\<close>

definition decompressInternal :: "('e, 'd) world \<Rightarrow> bool \<Rightarrow> u32 \<Rightarrow> u32 \<Rightarrow> byte list \<Rightarrow> bool \<Rightarrow> bool \<Rightarrow> byte list option \<times> u32" where
  "decompressInternal w ok compression dstlen src given checkResult =
     (if given \<or> bufferCreate ok (unat dstlen)
      then (let out = (if compression = ModeLZSS then decompress_lzss (w_ring w) (unat dstlen) src
                       else if compression = ModeLZVN then w_lzvn w (unat dstlen) src
                       else if compression = ModeZLIB then w_zlib w (unat dstlen) src
                       else [])
            in if \<not> checkResult \<or> length out = unat dstlen then (Some out, of_nat (length out)) else (None, dstlen))
      else (None, dstlen))"

definition decompress :: "('e, 'd) world \<Rightarrow> bool \<Rightarrow> u32 \<Rightarrow> u32 \<Rightarrow> byte list \<Rightarrow> bool \<Rightarrow> byte list option" where
  "decompress w ok compression dstlen src given = fst (decompressInternal w ok compression dstlen src given True)"

text \<open>Whether the result is a buffer, its size, and what was written to it.\<close>

definition compress :: "('e, 'd) world \<Rightarrow> bool \<Rightarrow> u32 \<Rightarrow> u32 \<Rightarrow> byte list \<Rightarrow> bool \<Rightarrow> (bool \<times> u32 \<times> byte list) option" where
  "compress w ok compression dstlen src given =
     (if given \<or> bufferCreate ok (unat dstlen)
      then if compression = ModeLZSS
           then do { (endptr, out) \<leftarrow> compress_lzss (w_alloc w 1) (w_code w) (unat dstlen) src;
                     Some (if endptr then (True, of_nat (length out), out) else (False, dstlen, out)) }
           else Some (False, dstlen, [])
      else Some (False, dstlen, []))"

definition nv_compress :: "('e, 'd) world \<Rightarrow> byte list \<Rightarrow> u32 \<Rightarrow> (byte list option \<times> u32) option" where
  "nv_compress w src sz =
     (let dstSize = sz + 1024
      in if \<not> bufferCreate (w_alloc w 0) (unat dstSize) then Some (None, sz)
         else if unat dstSize < 4 then None
         else do { (ok, dstSize', out) \<leftarrow> compress w True ModeLZSS dstSize (take (unat sz) src) True;
                   if 4 + length out > unat dstSize then None
                   else if ok then Some (Some (nat_le 4 (unat sz) @ out), dstSize' + 4)
                   else Some (None, sz) })"

definition nv_decompress :: "('e, 'd) world \<Rightarrow> byte list \<Rightarrow> u32 \<Rightarrow> byte list option \<times> u32" where
  "nv_decompress w src sz =
     (if sz \<le> 4 then (None, sz)
      else let dstSize = of_nat (le_nat (take 4 src))
           in if \<not> bufferCreate (w_alloc w 6) (unat dstSize) then (None, sz)
              else case decompress w True ModeLZSS dstSize (take (unat (sz - 4)) (drop 4 src)) True of
                     Some buf \<Rightarrow> (Some buf, dstSize)
                   | None \<Rightarrow> (None, sz - 4))"

section \<open>Reading and writing\<close>

abbreviation OptRaw :: byte where "OptRaw \<equiv> 1"
abbreviation OptCompressed :: byte where "OptCompressed \<equiv> 2"
abbreviation OptEncrypted :: byte where "OptEncrypted \<equiv> 4"
abbreviation OptChecksum :: byte where "OptChecksum \<equiv> 8"
abbreviation OptSensitive :: byte where "OptSensitive \<equiv> 16"

definition hasOpt :: "byte \<Rightarrow> byte \<Rightarrow> bool" where
  "hasOpt opts opt \<longleftrightarrow> opts AND opt \<noteq> 0"

definition nvHeader :: "byte \<Rightarrow> byte list" where
  "nvHeader opts = nat_le 2 0xC717 @ [1, opts]"

text \<open>The payload with its size; \<open>None\<close> inside where the function returns false.\<close>

definition pack :: "('e, 'd) world \<Rightarrow> byte \<Rightarrow> byte list option \<Rightarrow> byte list \<Rightarrow> u32 \<Rightarrow> (byte list option \<times> u32) option" where
  "pack w opts enckey src sz =
     do { (p1, n1) \<leftarrow> (if hasOpt opts OptCompressed then nv_compress w src sz else Some (Some src, sz));
          if p1 = None then Some (None, n1)
          else do { (p2, n2) \<leftarrow> (if hasOpt opts OptEncrypted
                      then encrypt (w_aes w) (w_iv w) (w_alloc w 2) (w_alloc w 3) enckey p1 n1 else Some (p1, n1));
                    case p2 of None \<Rightarrow> Some (None, n2)
                    | Some p \<Rightarrow>
                        (let crc = hasOpt opts OptChecksum;
                             sz' = 4 + n2 + (if crc then 4 else 0)
                         in if \<not> bufferCreate (w_alloc w 4) (unat sz') then Some (None, sz')
                            else if 4 + unat n2 + (if crc then 4 else 0) > unat sz' then None
                            else let buf = nvHeader (opts AND NOT OptSensitive) @ take (unat n2) p
                                 in Some (Some (if crc then buf @ nat_le 4 (unat (w_crc w buf)) else buf), sz')) } }"

definition storeData :: "('e, 'd) world \<Rightarrow> string \<Rightarrow> byte list \<Rightarrow> nvram \<Rightarrow> bool \<times> nvram" where
  "storeData w key buf st =
     (if w_withBytes w buf \<and> w_accepts w key buf then (True, st\<lparr>props := (props st)(key \<mapsto> PData buf)\<rparr>) else (False, st))"

definition nv_write :: "('e, 'd) world \<Rightarrow> string \<Rightarrow> byte list option \<Rightarrow> u32 \<Rightarrow> byte \<Rightarrow> byte list option \<Rightarrow> nvram \<Rightarrow> (bool \<times> nvram) option" where
  "nv_write w key src sz opts enckey st =
     (case src of None \<Rightarrow> Some (False, st)
      | Some s \<Rightarrow>
          if sz = 0 then Some (False, st)
          else do { (p, n) \<leftarrow> (if hasOpt opts OptRaw then Some (Some s, sz) else pack w opts enckey s sz);
                    Some (case p of None \<Rightarrow> (False, st) | Some buf \<Rightarrow> storeData w key (take (unat n) buf) st) })"

definition getData :: "nvram \<Rightarrow> string \<Rightarrow> byte list option" where
  "getData st key = (case props st key of Some (PData d) \<Rightarrow> Some d | _ \<Rightarrow> None)"

text \<open>The header and the checksum: the options of the header and the payload behind it.\<close>

definition unpack :: "('e, 'd) world \<Rightarrow> byte \<Rightarrow> byte list \<Rightarrow> (byte \<times> byte list) option" where
  "unpack w opts d =
     (let n = length d; payload = drop 4 d; hopts = d ! 3
      in if n < 4 then None
         else if le_nat (take 2 d) \<noteq> 0xC717 \<or> d ! 2 > 1 \<or> hopts AND opts \<noteq> opts then None
         else if \<not> hasOpt hopts OptChecksum then Some (hopts, payload)
         else if length payload < 4 then None
         else if of_nat (le_nat (take 4 (drop (length payload - 4) payload))) \<noteq> w_crc w (take (n - 4) d) then None
         else Some (hopts, take (length payload - 4) payload))"

text \<open>The result and the size, which the caller passes in as \<open>sz\<close>.\<close>

definition nv_read :: "('e, 'd) world \<Rightarrow> string \<Rightarrow> u32 \<Rightarrow> byte \<Rightarrow> byte list option \<Rightarrow> nvram \<Rightarrow> byte list option \<times> u32" where
  "nv_read w key sz opts enckey st =
     (case getData st key of None \<Rightarrow> (None, sz)
      | Some d \<Rightarrow>
          if d = [] then (None, sz)
          else case (if hasOpt opts OptRaw then Some (0, d) else unpack w opts d) of None \<Rightarrow> (None, of_nat (length d))
            | Some (hopts, p0) \<Rightarrow>
                (let (p1, n1) = (if hasOpt hopts OptEncrypted then decrypt (w_aes w) (w_alloc w 5) enckey (Some p0) (of_nat (length p0))
                                 else (Some p0, of_nat (length p0)))
                 in case p1 of None \<Rightarrow> (None, of_nat (length d))
                    | Some b1 \<Rightarrow>
                        (let (p2, n2) = (if hasOpt hopts OptCompressed then nv_decompress w b1 n1 else (Some b1, n1))
                         in case p2 of None \<Rightarrow> (None, of_nat (length d))
                            | Some b2 \<Rightarrow>
                                if hasOpt hopts OptEncrypted \<or> hasOpt hopts OptCompressed \<or> bufferCreate (w_alloc w 7) (unat n2)
                                then (Some b2, n2) else (None, n2))))"

section \<open>Compressed values\<close>

lemma decompress_lzss_Nil: "decompress_lzss fresh n [] = []"
  by (simp add: decompress_lzss_def decodeLoop_end)

lemma nv_compress_some:
  assumes c: "nv_compress w src sz = Some (Some buf, n)" and s: "length src = unat sz" and w: "length (w_code w) = 17"
  obtains out where "buf = nat_le 4 (unat sz) @ out" and "n = of_nat (length out) + 4" and "unat n = length buf" and "codeOf src out"
    and "unat sz \<le> BufferMax" and "out \<noteq> []"
proof -
  let ?d = "sz + 1024"
  from c s obtain out where o: "compress_lzss (w_alloc w 1) (w_code w) (unat ?d) src = Some (True, out)" "4 + length out \<le> unat ?d"
    "buf = nat_le 4 (unat sz) @ out" "n = of_nat (length out) + 4" "unat ?d \<le> BufferMax"
    by (auto simp: nv_compress_def compress_def Let_def bufferCreate_def not_less bind_eq_Some_conv split: if_split_asm)
  note C = compress_lzss_codeOf [OF w o(1)]
  have "src \<noteq> []" using o(1) by (auto simp: compress_lzss_def fillLoop.simps split: if_split_asm)
  then have ne: "out \<noteq> []" using codeOf_decoded [OF C, of "length src"] decompress_lzss_Nil by auto
  have u: "unat n = length buf"
  proof -
    have "4 + length out < 2 ^ 32" using o(2) unat_u32 [of ?d] by linarith
    then show ?thesis unfolding o(3,4) by (simp add: unat_word_ariths unsigned_of_nat take_bit_nat_eq_self)
  qed
  have "unat sz \<le> BufferMax"
  proof (cases "unat sz + 1024 < 2 ^ 32")
    case True
    then show ?thesis using o(5) by (simp add: unat_word_ariths)
  next
    case False
    have "unat ?d < 1024" using False unat_u32 [of sz] by (simp add: unat_word_ariths mod_if) linarith
    then have "unat sz \<le> 18 * 1020" using codeOf_length [OF C] o(2) s by linarith
    then show ?thesis by (simp add: BufferMax_def)
  qed
  with that o ne u C show ?thesis by blast
qed

lemma nv_compress_length:
  "nv_compress w src sz = Some (Some buf, n) \<Longrightarrow> length src = unat sz \<Longrightarrow> length (w_code w) = 17 \<Longrightarrow> length buf = unat n"
  by (erule nv_compress_some) auto

lemma nv_decompress_compress:
  assumes "nv_compress w src sz = Some (Some buf, n)" and "length src = unat sz" and "length (w_code w) = 17" and "w_alloc w' 6"
  shows "nv_decompress w' buf n = (Some src, sz) \<and> unat n = length buf"
proof -
  from nv_compress_some [OF assms(1-3)] obtain out where o: "buf = nat_le 4 (unat sz) @ out" "n = of_nat (length out) + 4"
    "unat n = length buf" "codeOf src out" "unat sz \<le> BufferMax" "out \<noteq> []" by blast
  have "unat n = length out + 4" "0 < length out" using o(1,3,6) by simp_all
  then have n: "\<not> n \<le> 4" "unat (n - 4) = length out" by (simp_all add: word_le_nat_alt unat_sub)
  have "decompress_lzss (w_ring w') (unat sz) out = src" using codeOf_decoded [OF o(4)] assms(2) by simp
  then show ?thesis using o n assms(2,4) by (simp add: nv_decompress_def decompress_def decompressInternal_def Let_def of_nat_le32 bufferCreate_def)
qed

section \<open>Packed values\<close>

text \<open>The stages of a packed value: compressed, encrypted, framed.\<close>

definition stages :: "('e, 'd) world \<Rightarrow> byte \<Rightarrow> byte list option \<Rightarrow> byte list \<Rightarrow> u32 \<Rightarrow> byte list \<Rightarrow> u32 \<Rightarrow> byte list \<Rightarrow> u32 \<Rightarrow> bool" where
  "stages w opts enckey src sz c n1 p n2 \<longleftrightarrow>
     (if hasOpt opts OptCompressed then nv_compress w src sz = Some (Some c, n1) else c = src \<and> n1 = sz)
   \<and> (if hasOpt opts OptEncrypted
      then (\<exists>key. enckey = Some key \<and> encrypt (w_aes w) (w_iv w) (w_alloc w 2) (w_alloc w 3) (Some key) (Some c) n1 = Some (Some p, n2))
      else p = c \<and> n2 = n1)"

definition framed :: "('e, 'd) world \<Rightarrow> byte \<Rightarrow> byte list \<Rightarrow> byte list" where
  "framed w opts p =
     (let buf = nvHeader (opts AND NOT OptSensitive) @ p
      in if hasOpt opts OptChecksum then buf @ nat_le 4 (unat (w_crc w buf)) else buf)"

lemma encrypt_key: "encrypt A iv ok1 ok2 key src sz = Some (Some enc, sz') \<Longrightarrow> key \<noteq> None \<and> src \<noteq> None"
  by (auto simp: encrypt_def split: option.split_asm)

lemma pack_some:
  assumes "pack w opts enckey src sz = Some (Some buf, n)"
  obtains c n1 p n2 where "stages w opts enckey src sz c n1 p n2" and "buf = framed w opts (take (unat n2) p)"
    and "unat n = 4 + unat n2 + (if hasOpt opts OptChecksum then 4 else 0)" and "unat n \<le> BufferMax"
proof -
  from assms obtain c n1 where c: "if hasOpt opts OptCompressed then nv_compress w src sz = Some (Some c, n1) else c = src \<and> n1 = sz"
    "(do { (p2, n2) \<leftarrow> (if hasOpt opts OptEncrypted
           then encrypt (w_aes w) (w_iv w) (w_alloc w 2) (w_alloc w 3) enckey (Some c) n1 else Some (Some c, n1));
         case p2 of None \<Rightarrow> Some (None, n2)
         | Some p \<Rightarrow>
             (let crc = hasOpt opts OptChecksum; sz' = 4 + n2 + (if crc then 4 else 0)
              in if \<not> bufferCreate (w_alloc w 4) (unat sz') then Some (None, sz')
                 else if 4 + unat n2 + (if crc then 4 else 0) > unat sz' then None
                 else let buf = nvHeader (opts AND NOT OptSensitive) @ take (unat n2) p
                      in Some (Some (if crc then buf @ nat_le 4 (unat (w_crc w buf)) else buf), sz')) }) = Some (Some buf, n)"
    by (auto simp: pack_def bind_eq_Some_conv split: if_split_asm)
  from c(2) obtain p n2 where p: "if hasOpt opts OptEncrypted
      then encrypt (w_aes w) (w_iv w) (w_alloc w 2) (w_alloc w 3) enckey (Some c) n1 = Some (Some p, n2) else p = c \<and> n2 = n1"
    "n = 4 + n2 + (if hasOpt opts OptChecksum then 4 else 0)" "unat n \<le> BufferMax" "4 + unat n2 + (if hasOpt opts OptChecksum then 4 else 0) \<le> unat n"
    "buf = framed w opts (take (unat n2) p)"
    by (auto simp: bind_eq_Some_conv framed_def Let_def bufferCreate_def not_less split: if_split_asm option.split_asm)
  have "stages w opts enckey src sz c n1 p n2" using c(1) p(1) encrypt_key by (fastforce simp: stages_def split: if_split_asm)
  moreover have "unat n = 4 + unat n2 + (if hasOpt opts OptChecksum then 4 else 0)"
  proof (rule antisym)
    show "unat n \<le> 4 + unat n2 + (if hasOpt opts OptChecksum then 4 else 0)"
      unfolding p(2) by (simp add: unat_word_ariths mod_simps)
  qed (rule p(4))
  ultimately show ?thesis using that p by blast
qed

lemma stage_lengths:
  assumes "stages w opts enckey src sz c n1 p n2" and "length src = unat sz" and "length (w_code w) = 17"
    and "aes_inverts (w_aes w)" and "length (w_iv w) = 16"
  shows "length c = unat n1" and "length p = unat n2"
proof -
  show c: "length c = unat n1"
    using assms(1,2) nv_compress_length [OF _ assms(2,3)] by (auto simp: stages_def split: if_split_asm)
  show "length p = unat n2"
    using assms(1) c decrypt_encrypt [OF assms(4,5) c] by (auto simp: stages_def split: if_split_asm)
qed

lemma insensitive: "\<not> hasOpt opts OptSensitive \<Longrightarrow> opts AND NOT OptSensitive = opts"
proof -
  assume "\<not> hasOpt opts OptSensitive"
  then have "opts AND OptSensitive = 0" by (simp add: hasOpt_def)
  then have "opts AND NOT OptSensitive = (opts AND OptSensitive) OR (opts AND NOT OptSensitive)" by simp
  also have "\<dots> = opts AND (OptSensitive OR NOT OptSensitive)" by (simp only: bit.conj_disj_distrib)
  also have "\<dots> = opts" by (simp only: bit.disj_cancel_right bit.conj_one_right)
  finally show ?thesis .
qed

lemma nat_le_2: "nat_le 2 x = [of_nat x, of_nat (x div 256)]"
  by (simp add: numeral_2_eq_2)

lemma take_header: "take (4 + n) (a # b # c # d # xs) = a # b # c # d # take n xs"
  by (simp add: eval_nat_numeral)

lemma unpack_framed:
  assumes "\<not> hasOpt opts OptSensitive"
  shows "unpack w opts (framed w opts p) = Some (opts, p)"
proof -
  have h: "nvHeader opts = [0x17, 0xC7, 1, opts]" by (simp add: nvHeader_def nat_le_2)
  have m: "le_nat [0x17, 0xC7] = 0xC717" by simp
  note f = framed_def [of w opts p, unfolded insensitive [OF assms] h]
  show ?thesis
  proof (cases "hasOpt opts OptChecksum")
    case True
    then show ?thesis using m by (simp add: unpack_def f Let_def of_nat_le32 take_header del: le_nat.simps)
  next
    case False
    then show ?thesis using m by (simp add: unpack_def f Let_def del: le_nat.simps)
  qed
qed

lemma nv_write_true:
  assumes "nv_write w key (Some src) sz opts enckey st = Some (True, st')"
  obtains buf n where "if hasOpt opts OptRaw then buf = src \<and> n = sz else pack w opts enckey src sz = Some (Some buf, n)"
    and "getData st' key = Some (take (unat n) buf)" and "sz \<noteq> 0"
  using assms
  by (auto simp: nv_write_def storeData_def getData_def bind_eq_Some_conv split: if_split_asm option.split_asm)

text \<open>The stages are undone in the opposite order.\<close>

lemma unstage:
  assumes s: "stages w opts enckey src sz c n1 p n2" and src: "length src = unat sz" "sz \<noteq> 0"
    and w: "length (w_code w) = 17" "aes_inverts (w_aes w)" "length (w_iv w) = 16" "w_alloc w 5" "w_alloc w 6"
  shows "(if hasOpt opts OptEncrypted then decrypt (w_aes w) (w_alloc w 5) enckey (Some p) n2 else (Some p, n2)) = (Some c, n1)"
    and "(if hasOpt opts OptCompressed then nv_decompress w c n1 else (Some c, n1)) = (Some src, sz)"
proof -
  note l = stage_lengths [OF s src(1) w(1-3)]
  show "(if hasOpt opts OptEncrypted then decrypt (w_aes w) (w_alloc w 5) enckey (Some p) n2 else (Some p, n2)) = (Some c, n1)"
    using s w(4) decrypt_encrypt [OF w(2,3) l(1)] by (auto simp: stages_def split: if_split_asm)
  show "(if hasOpt opts OptCompressed then nv_decompress w c n1 else (Some c, n1)) = (Some src, sz)"
    using s nv_decompress_compress [OF _ src(1) w(1,5)] by (auto simp: stages_def split: if_split_asm)
qed

lemma length_framed: "length (framed w opts p) = 4 + length p + (if hasOpt opts OptChecksum then 4 else 0)"
  by (simp add: framed_def nvHeader_def Let_def)

text \<open>C12: a value written without the option for sensitive data reads back under the same options and key, whether it is
  raw or compressed, encrypted or with a checksum.\<close>

theorem nvram_roundtrip:
  assumes w: "aes_inverts (w_aes w)" "length (w_iv w) = 16" "length (w_code w) = 17" "w_alloc w 5" "w_alloc w 6" "w_alloc w 7"
    and src: "length src = unat sz" "unat sz \<le> BufferMax" and opts: "\<not> hasOpt opts OptSensitive"
    and wr: "nv_write w key (Some src) sz opts enckey st = Some (True, st')"
  shows "nv_read w key sz0 opts enckey st' = (Some src, sz)"
proof -
  obtain buf n where W: "if hasOpt opts OptRaw then buf = src \<and> n = sz else pack w opts enckey src sz = Some (Some buf, n)"
    "getData st' key = Some (take (unat n) buf)" "sz \<noteq> 0" by (rule nv_write_true [OF wr])
  show ?thesis
  proof (cases "hasOpt opts OptRaw")
    case True
    have "src \<noteq> []" using W(3) src(1) unat_eq_zero [of sz] by auto
    then show ?thesis using W(1,2) True src w(6) by (simp add: nv_read_def hasOpt_def bufferCreate_def)
  next
    case False
    then have p: "pack w opts enckey src sz = Some (Some buf, n)" "getData st' key = Some (take (unat n) buf)" "sz \<noteq> 0" using W by simp_all
    from pack_some [OF p(1)] obtain c n1 p n2 where
      s: "stages w opts enckey src sz c n1 p n2" "buf = framed w opts (take (unat n2) p)"
        "unat n = 4 + unat n2 + (if hasOpt opts OptChecksum then 4 else 0)" "unat n \<le> BufferMax" by blast
    note l = stage_lengths [OF s(1) src(1) w(3,1,2)]
    have buf: "buf = framed w opts p" "length buf = unat n" using s(2,3) l(2) by (simp_all add: length_framed)
    have d: "getData st' key = Some (framed w opts p)" using p(2) buf by simp
    have n2: "of_nat (length p) = n2" unfolding l(2) by simp
    have b: "bufferCreate (w_alloc w 7) (unat sz)" using src(2) w(6) by (simp add: bufferCreate_def)
    have "framed w opts p \<noteq> []" using length_framed [of w opts p] by auto
    then show ?thesis
      using d unpack_framed [OF opts, of w p] unstage [OF s(1) src(1) p(3) w(3,1,2,4,5)] False b n2
      by (cases "hasOpt opts OptEncrypted"; cases "hasOpt opts OptCompressed") (simp_all add: nv_read_def)
  qed
qed

section \<open>The room for compressed values\<close>

lemma codeOf_worst: "codeOf src out \<Longrightarrow> length out \<le> worst src"
  using code_size by (fastforce simp: codeOf_def)

lemma nv_compress_fits:
  assumes "length src = unat sz" and "sz \<noteq> 0" and "unat sz \<le> 8160" and "length (w_code w) = 17" and "w_alloc w 0" and "w_alloc w 1"
  shows "\<exists>buf n. nv_compress w src sz = Some (Some buf, n) \<and> n \<noteq> 0 \<and> unat n \<le> 4 + worst src"
proof -
  let ?d = "sz + 1024"
  have d: "unat ?d = unat sz + 1024" using assms(3) by (simp add: unat_word_ariths)
  have w: "worst src \<le> unat ?d - 4" using assms(1,3) d by simp
  have "src \<noteq> []" using assms(1,2) unat_eq_zero [of sz] by auto
  from compress_lzss_encoded [OF assms(4) this, of "unat ?d"] w obtain out where
    o: "compress_lzss True (w_code w) (unat ?d) src = Some (True, out)" "codeOf src out" by (auto simp: encoded_def)
  have l: "length out \<le> worst src" by (rule codeOf_worst [OF o(2)])
  then have n: "unat (of_nat (length out) + 4 :: u32) = length out + 4"
    using w d assms(3) by (simp add: unat_word_ariths unsigned_of_nat take_bit_nat_eq_self)
  have "nv_compress w src sz = Some (Some (nat_le 4 (unat sz) @ out), of_nat (length out) + 4)"
    using o(1) l w d assms(1,3,5,6) by (simp add: nv_compress_def compress_def Let_def bufferCreate_def BufferMax_def)
  moreover have "of_nat (length out) + 4 \<noteq> (0 :: u32)" using n by (metis add_is_0 unat_0 zero_neq_numeral)
  ultimately show ?thesis using n l by auto
qed

text \<open>A text in which no three bytes occur twice: places of even number hold small bytes, the others large ones.\<close>

definition hardByte :: "nat \<Rightarrow> byte" where
  "hardByte i = (if even i then of_nat (i div 2 mod 128) else of_nat (128 + i div 256))"

definition hardText :: "byte list" where
  "hardText = map hardByte [0..<8192]"

lemma unat_of_nat8: "n < 256 \<Longrightarrow> unat (of_nat n :: byte) = n"
  by (simp add: unsigned_of_nat take_bit_nat_eq_self)

lemma unat_hardByte: "i < 8192 \<Longrightarrow> unat (hardByte i) = (if even i then i div 2 mod 128 else 128 + i div 256)"
proof -
  assume "i < 8192"
  then have "i div 256 < 32" by (simp add: less_mult_imp_div_less)
  moreover have "i div 2 mod 128 < 128" by simp
  ultimately show ?thesis
    using unat_of_nat8 [of "128 + i div 256"] unat_of_nat8 [of "i div 2 mod 128"] by (simp add: hardByte_def)
qed

lemma hard_parity: "i < 8192 \<Longrightarrow> j < 8192 \<Longrightarrow> hardByte i = hardByte j \<Longrightarrow> even i \<longleftrightarrow> even j"
proof -
  assume a: "i < 8192" "j < 8192" "hardByte i = hardByte j"
  have m: "k div 2 mod 128 < 128" for k :: nat by simp
  from a(3) have "unat (hardByte i) = unat (hardByte j)" by simp
  with m [of i] m [of j] show ?thesis unfolding unat_hardByte [OF a(1)] unat_hardByte [OF a(2)]
    by (auto split: if_split_asm)
qed

text \<open>Two bytes, the first at an even place, determine the place.\<close>

lemma hard_pair:
  assumes "i + 1 < 8192" and "j + 1 < 8192" and "even i" and "even j" and "hardByte i = hardByte j" and "hardByte (i + 1) = hardByte (j + 1)"
  shows "i = j"
proof -
  obtain k l where kl: "i = 2 * k" "j = 2 * l" using assms(3,4) by (auto elim!: evenE)
  have m: "k mod 128 = l mod 128" 
    using assms(1,2) arg_cong [OF assms(5), of unat] unat_hardByte [of i] unat_hardByte [of j] by (simp add: kl)
  have "(2 * k + 1) div 256 = (2 * l + 1) div 256" 
    using assms(1,2) arg_cong [OF assms(6), of unat] unat_hardByte [of "i + 1"] unat_hardByte [of "j + 1"] by (simp add: kl)
  moreover have "(2 * m + 1) div 256 = m div 128" for m :: nat using div_mult2_eq [of "2 * m + 1" 2 128] by simp
  ultimately have "k div 128 = l div 128" by simp
  with m show ?thesis unfolding kl by (metis mult_div_mod_eq)
qed

lemma hard_no_occurs:
  assumes "e + 3 \<le> 8192"
  shows "\<not> occurs hardText e p 3"
proof
  assume "occurs hardText e p 3"
  then obtain P where P: "P < 4078 + e" "\<And>k. k < 3 \<Longrightarrow> place hardText (P + k) = place hardText (4078 + e + k)" by (auto simp: occurs_def)
  have s: "place hardText (4078 + i) = hardByte i" if "i < 8192" for i using that by (simp add: place_def hardText_def)
  have e: "place hardText (P + k) = hardByte (e + k)" if "k < 3" for k
    using P(2) [OF that] s [of "e + k"] that assms by (simp add: add.assoc)
  show False
  proof (cases "P < 4078")
    case False
    then obtain f where f: "P = 4078 + f" by (metis le_Suc_ex not_less)
    then have fe: "f < e" using P(1) by simp
    have h: "hardByte (f + k) = hardByte (e + k)" if "k < 3" for k
      using e [OF that] s [of "f + k"] fe that assms by (simp add: f add.assoc)
    have par: "even f \<longleftrightarrow> even e" using hard_parity [of f e] h [of 0] fe assms by simp
    show False
    proof (cases "even e")
      case True
      with par hard_pair [of f e] h [of 0] h [of 1] fe assms show False by simp
    next
      case False
      have "hardByte (f + 1 + 1) = hardByte (e + 1 + 1)" using h [of 2] by (simp add: numeral_2_eq_2)
      with False par hard_pair [of "f + 1" "e + 1"] h [of 1] fe assms show False by simp
    qed
  next
    case True
    have b: "hardByte i \<noteq> 0x20" if "odd i" "i < 8192" for i
    proof
      assume "hardByte i = 0x20"
      then have "unat (hardByte i) = 32" by simp
      with unat_hardByte [of i] that show False by simp
    qed
    have ev: "even e" using b [of e] e [of 0] True assms by (auto simp: place_def)
    show False
    proof (cases "P + 1 < 4078")
      case True
      then show False using b [of "e + 1"] e [of 1] ev assms by (simp add: place_def)
    next
      case False
      then have "P + 1 = 4078 + 0" using \<open>P < 4078\<close> by simp
      then have "hardByte 0 = hardByte (e + 1)" using e [of 1] s [of 0] by simp
      then show False using hard_parity [of 0 "e + 1"] ev assms by simp
    qed
  qed
qed

lemma hard_letters:
  assumes "describes hardText e ts"
  shows "length (concat (map tokBytes ts)) = aheadAll ts \<and> length ts = aheadAll ts"
  using assms
proof (induction ts arbitrary: e)
  case (Cons t ts)
  have "is_Letter t"
  proof (cases t)
    case (Pair p n)
    then have "3 \<le> n" "e + n \<le> 8192" "occurs hardText e p n" using Cons.prems by (auto simp: hardText_def)
    then have "occurs hardText e p 3" "e + 3 \<le> 8192" by (auto simp: occurs_def)
    with hard_no_occurs show ?thesis by blast
  qed simp
  then have "length (tokBytes t) = ahead t" "ahead t = 1" by (auto simp: is_Letter_def)
  with Cons.IH [of "e + ahead t"] Cons.prems show ?case by simp
qed simp

lemma hard_length:
  assumes "codeOf hardText out"
  shows "length out = 9216"
proof -
  from assms obtain gs f ts where g: "full gs" "flagged f 0 ts" "describes hardText 0 (tokensOf gs @ ts)" "aheadAll (tokensOf gs @ ts) = 8192"
    "out = concat (map groupBytes gs) @ (if ts = [] then [] else groupBytes (f, ts))" by (auto simp: codeOf_def hardText_def)
  note G = groups_sizes [OF g(1)] and h = hard_letters [OF g(3)]
  have l: "length ts \<le> 8" using g(2) by (simp add: flagged_def)
  have n: "8 * length gs + length ts = 8192" using G h g(4) by simp
  have "length (concat (map tokBytes (tokensOf gs @ ts))) = 8192" using h g(4) by simp
  then have "length out = 8192 + length gs + (if ts = [] then 0 else 1)" unfolding g(5) using G by (auto simp: groupBytes_def)
  moreover have "length gs + (if ts = [] then 0 else 1) = 1024"
  proof (cases "ts = []")
    case False
    then have "length ts \<noteq> 0" by simp
    with n l have "length ts = 8" by presburger
    with n False show ?thesis by simp
  qed (use n in simp)
  ultimately show ?thesis by simp
qed

text \<open>C13: the compressor is told the whole size of its buffer although the buffer starts with four other bytes. Texts up
  to 8160 bytes have room; for a text of 8192 bytes that does not shrink, the last four bytes of its code are
  written behind the buffer.\<close>

theorem nv_compress_overruns:
  assumes "length (w_code w) = 17" and "w_alloc w 0" and "w_alloc w 1"
  shows "nv_compress w hardText 8192 = None
    \<and> (\<forall>src sz. length src = unat sz \<and> sz \<noteq> 0 \<and> unat sz \<le> 8160 \<longrightarrow> (\<exists>buf n. nv_compress w src sz = Some (Some buf, n)))"
proof
  have l: "length hardText = 8192" by (simp add: hardText_def)
  then have "hardText \<noteq> []" by auto
  from compress_lzss_encoded [OF assms(1) this, of 9216] l obtain out where
    o: "compress_lzss True (w_code w) 9216 hardText = Some (True, out)" "codeOf hardText out" by (auto simp: encoded_def)
  have t: "take 8192 hardText = hardText" using l by simp
  show "nv_compress w hardText 8192 = None"
    using o hard_length [OF o(2)] t assms by (simp add: nv_compress_def compress_def bufferCreate_def BufferMax_def)
  show "\<forall>src sz. length src = unat sz \<and> sz \<noteq> 0 \<and> unat sz \<le> 8160 \<longrightarrow> (\<exists>buf n. nv_compress w src sz = Some (Some buf, n))"
    using nv_compress_fits [OF _ _ _ assms] by blast
qed

text \<open>A world for the examples: everything is allocated and accepted.\<close>

definition demo_world :: "(byte, byte) world" where
  "demo_world = \<lparr>w_aes = demo_aes, w_iv = replicate 16 7, w_crc = \<lambda>bs. of_nat (length bs), w_alloc = \<lambda>i. True, w_code = replicate 17 0,
     w_ring = \<lambda>i. 0, w_lzvn = \<lambda>n bs. [], w_zlib = \<lambda>n bs. [], w_withBytes = \<lambda>bs. True, w_accepts = \<lambda>key bs. True\<rparr>"

definition demo_nvram :: nvram where
  "demo_nvram = \<lparr>props = \<lambda>key. None, synced = []\<rparr>"

theorem nv_compress_overruns_witness:
  "nv_compress demo_world hardText 8192 = None \<and> (\<exists>buf n. nv_compress demo_world [1, 2, 3] 3 = Some (Some buf, n))"
  using nv_compress_overruns [of demo_world] by (simp add: demo_world_def)

section \<open>Writing succeeds\<close>

definition granted :: "('e, 'd) world \<Rightarrow> byte list option \<Rightarrow> bool" where
  "granted w enckey \<longleftrightarrow> (\<forall>i. w_alloc w i) \<and> length (w_code w) = 17 \<and> (\<forall>bs. w_withBytes w bs) \<and> (\<forall>key bs. w_accepts w key bs)
     \<and> (\<exists>k c. enckey = Some k \<and> aes_encrypt_key128 (w_aes w) k = Some c \<and> (\<forall>buf n. aes_encrypt_cbc (w_aes w) buf (w_iv w) n c \<noteq> None))"

lemma pack_succeeds:
  assumes g: "granted w enckey" and s: "length src = unat sz" "sz \<noteq> 0" "unat sz \<le> 8160"
  shows "\<exists>buf n. pack w opts enckey src sz = Some (Some buf, n)"
proof -
  from g obtain k c where k: "enckey = Some k" "aes_encrypt_key128 (w_aes w) k = Some c" "\<And>buf n. aes_encrypt_cbc (w_aes w) buf (w_iv w) n c \<noteq> None"
    and w: "\<And>i. w_alloc w i" "length (w_code w) = 17" by (auto simp: granted_def)
  obtain p1 n1 where p1: "(if hasOpt opts OptCompressed then nv_compress w src sz else Some (Some src, sz)) = Some (Some p1, n1)"
    "n1 \<noteq> 0" "unat n1 \<le> 9200"
  proof (cases "hasOpt opts OptCompressed")
    case True
    from nv_compress_fits [OF s w(2,1,1)] obtain b n where "nv_compress w src sz = Some (Some b, n)" "n \<noteq> 0" "unat n \<le> 4 + worst src" by blast
    with that True s(1,3) show ?thesis by simp
  qed (use that s in simp)
  obtain p2 n2 where p2: "(if hasOpt opts OptEncrypted then encrypt (w_aes w) (w_iv w) (w_alloc w 2) (w_alloc w 3) enckey (Some p1) n1 else Some (Some p1, n1))
      = Some (Some p2, n2)" "unat n2 \<le> 9300"
  proof (cases "hasOpt opts OptEncrypted")
    case True
    from encrypt_succeeds [OF p1(2) _ k(2,3), of p1] p1(3) obtain b n where
      "encrypt (w_aes w) (w_iv w) True True (Some k) (Some p1) n1 = Some (Some b, n)" "unat n \<le> unat n1 + 35" by (auto simp: BufferMax_def)
    with that True p1(3) w(1) k(1) show ?thesis by simp
  qed (use that p1 in simp)
  have n: "unat (4 + n2 + (if hasOpt opts OptChecksum then 4 else 0)) = 4 + unat n2 + (if hasOpt opts OptChecksum then 4 else 0)"
    using p2(2) by (simp add: unat_word_ariths)
  show ?thesis using p1(1) p2(1) n p2(2) w(1) by (simp add: pack_def Let_def bufferCreate_def BufferMax_def)
qed

lemma nv_write_succeeds:
  assumes g: "granted w enckey" and s: "length src = unat sz" "sz \<noteq> 0" "unat sz \<le> 8160"
  shows "\<exists>st'. nv_write w key (Some src) sz opts enckey st = Some (True, st')"
proof -
  from pack_succeeds [OF assms, of opts] obtain buf n where "pack w opts enckey src sz = Some (Some buf, n)" by blast
  with g s(2) show ?thesis by (simp add: nv_write_def storeData_def granted_def)
qed

lemma demo_granted: "granted demo_world (Some (replicate 16 0x5A))"
  by (simp add: granted_def demo_world_def demo_aes_def)

theorem nvram_roundtrip_witness:
  "\<exists>st'. nv_write demo_world ''boot'' (Some demo_text) 10 (OptCompressed OR OptEncrypted OR OptChecksum) (Some (replicate 16 0x5A)) demo_nvram = Some (True, st')
     \<and> nv_read demo_world ''boot'' 0 (OptCompressed OR OptEncrypted OR OptChecksum) (Some (replicate 16 0x5A)) st' = (Some demo_text, 10)"
proof -
  let ?o = "OptCompressed OR OptEncrypted OR OptChecksum" and ?k = "Some (replicate 16 0x5A)"
  have l: "length demo_text = unat (10 :: u32)" by (simp add: demo_text_def)
  from nv_write_succeeds [OF demo_granted l, of "''boot''" ?o demo_nvram] obtain st' where
    w: "nv_write demo_world ''boot'' (Some demo_text) 10 ?o ?k demo_nvram = Some (True, st')" by auto
  have "nv_read demo_world ''boot'' 0 ?o ?k st' = (Some demo_text, 10)"
    by (rule nvram_roundtrip [OF _ _ _ _ _ _ l _ _ w]) (simp_all add: demo_world_def demo_aes_inverts BufferMax_def hasOpt_def)
  with w show ?thesis by blast
qed

section \<open>Sensitive values\<close>

lemma unpack_options: "d ! 3 AND opts \<noteq> opts \<Longrightarrow> unpack w opts d = None"
  by (simp add: unpack_def Let_def)



section \<open>Removing and the other entry points\<close>

definition nv_exists :: "string \<Rightarrow> nvram \<Rightarrow> bool" where
  "nv_exists key st \<longleftrightarrow> getData st key \<noteq> None"

text \<open>\<open>safe\<close> is the answer of the firmware's interface whether it can be written now.\<close>

definition nv_sync :: "bool \<Rightarrow> nvram \<Rightarrow> bool \<times> nvram" where
  "nv_sync safe st = (if safe then (True, st\<lparr>synced := props st # synced st\<rparr>) else (False, st))"

definition nv_remove :: "bool \<Rightarrow> string \<Rightarrow> bool \<Rightarrow> nvram \<Rightarrow> bool \<times> nvram" where
  "nv_remove safe key sensitive st =
     (let st1 = (case getData st key of
            Some d \<Rightarrow> if sensitive \<and> length d > 0
                       then snd (nv_sync safe (st\<lparr>props := (props st)(key \<mapsto> PData (replicate (length d) 0))\<rparr>)) else st
          | None \<Rightarrow> st)
      in (True, st1\<lparr>props := (props st1)(key := None)\<rparr>))"

definition nv_readData :: "('e, 'd) world \<Rightarrow> string \<Rightarrow> byte \<Rightarrow> byte list option \<Rightarrow> nvram \<Rightarrow> byte list option" where
  "nv_readData w key opts enckey st =
     (case nv_read w key 0 opts enckey st of (Some buf, n) \<Rightarrow> if w_withBytes w (take (unat n) buf) then Some (take (unat n) buf) else None
      | (None, n) \<Rightarrow> None)"

definition nv_writeData :: "('e, 'd) world \<Rightarrow> string \<Rightarrow> byte list option \<Rightarrow> byte \<Rightarrow> byte list option \<Rightarrow> nvram \<Rightarrow> (bool \<times> nvram) option" where
  "nv_writeData w key buf opts enckey st =
     (case buf of None \<Rightarrow> Some (False, st) | Some d \<Rightarrow> nv_write w key (Some d) (of_nat (length d)) opts enckey st)"

text \<open>Removing a variable removes it and no other; if it is sensitive and the firmware can be written, zeros of
  its length were written back before.\<close>

theorem nv_remove_wipes:
  "let (ok, st') = nv_remove safe key sensitive st
   in ok \<and> \<not> nv_exists key st' \<and> (\<forall>k. k = key \<or> props st' k = props st k)
    \<and> (synced st' = synced st \<or> (\<exists>d. getData st key = Some d \<and> d \<noteq> [] \<and> sensitive \<and> safe
        \<and> synced st' = (props st)(key \<mapsto> PData (replicate (length d) 0)) # synced st))
    \<and> (nv_exists key st \<and> getData st key \<noteq> Some [] \<and> sensitive \<and> safe \<longrightarrow> length (synced st') = Suc (length (synced st)))"
  by (auto simp: nv_remove_def nv_sync_def nv_exists_def getData_def Let_def split: option.split nvProp.split)

end
