(* ===== verification/Lilu_Search.thy ===== *)
theory Lilu_Search
  imports Kern_Prelude
begin

text \<open>
  Searches of Lilu's own library: \<open>strstr\<close> and \<open>strrchr\<close> of \<^verbatim>\<open>Lilu/Lilu/Sources/kern_util.cpp\<close>, \<open>lilu_os_memchr\<close> and
  \<open>lilu_os_memmem\<close> of \<^verbatim>\<open>Lilu/Lilu/Sources/kern_memmem.cpp\<close>.  The search for needles of more than four bytes,
  \<open>twoway_memmem\<close>, is an argument of \<open>lilu_os_memmem\<close>.
\<close>

section \<open>Strings\<close>

text \<open>A string is the list of its bytes without the terminating zero.  The needle is read up to its
  zero, which no byte of the other string equals; the result is an offset.\<close>

fun strstrLoop :: "byte list \<Rightarrow> nat \<Rightarrow> nat \<Rightarrow> nat \<Rightarrow> byte list \<Rightarrow> nat option" where
  "strstrLoop needle len i k [] = None"
| "strstrLoop needle len i k (c # cs) =
     (if i < length needle \<and> c = needle ! i
      then if i + 1 = len then Some (k + 1 - len) else strstrLoop needle len (i + 1) (k + 1) cs
      else strstrLoop needle len 0 (k + 1) cs)"

definition strstr :: "byte list \<Rightarrow> byte list \<Rightarrow> nat \<Rightarrow> nat option" where
  "strstr stack needle len =
     (if len = 0 \<and> needle = [] then Some 0
      else strstrLoop needle (if len = 0 then length needle else len) 0 0 stack)"

fun strrchrLoop :: "int \<Rightarrow> nat \<Rightarrow> nat option \<Rightarrow> byte list \<Rightarrow> nat option" where
  "strrchrLoop ch k rtnval [] = rtnval"
| "strrchrLoop ch k rtnval (c # cs) = strrchrLoop ch (k + 1) (if sint c = ch then Some k else rtnval) cs"

definition strrchr :: "byte list option \<Rightarrow> int \<Rightarrow> nat option" where
  "strrchr stack ch = (case stack of None \<Rightarrow> None | Some s \<Rightarrow> strrchrLoop ch 0 None (s @ [0]))"

definition occursIn :: "byte list \<Rightarrow> byte list \<Rightarrow> nat \<Rightarrow> bool" where
  "occursIn s p j \<longleftrightarrow> j + length p \<le> length s \<and> take (length p) (drop j s) = p"

text \<open>The bytes compared last are the beginning of the needle.\<close>

lemma occursIn_nth: "occursIn s p j \<longleftrightarrow> j + length p \<le> length s \<and> (\<forall>i < length p. s ! (j + i) = p ! i)"
  by (auto simp: occursIn_def list_eq_iff_nth_eq)

lemma strstrLoop_sound:
  "strstrLoop needle len i (length u) cs = Some j \<Longrightarrow> i \<le> length u \<Longrightarrow> i < len
   \<Longrightarrow> (\<forall>q < i. u ! (length u - i + q) = needle ! q) \<Longrightarrow> i \<le> length needle
   \<Longrightarrow> len \<le> length needle \<and> occursIn (u @ cs) (take len needle) j"
proof (induction cs arbitrary: u i)
  case (Cons c cs)
  consider "i < length needle" "c = needle ! i" "i + 1 = len" | "i < length needle" "c = needle ! i" "i + 1 \<noteq> len"
    | "\<not> (i < length needle \<and> c = needle ! i)" by blast
  then show ?case
  proof cases
    case 1
    have "(u @ c # cs) ! (length u + 1 - len + q) = needle ! q" if "q < len" for q
      using that 1 Cons.prems(2,4) by (cases "q = i") (auto simp: nth_append)
    with 1 Cons.prems(1,2) show ?thesis by (auto simp: occursIn_nth)
  next
    case 2
    have "(u @ [c]) ! (length (u @ [c]) - (i + 1) + q) = needle ! q" if "q < i + 1" for q
      using that 2 Cons.prems(2,4) by (cases "q = i") (auto simp: nth_append)
    with Cons.IH [of "i + 1" "u @ [c]"] 2 Cons.prems show ?thesis by simp
  next
    case 3
    with Cons.IH [of 0 "u @ [c]"] Cons.prems show ?thesis by simp
  qed
qed simp

text \<open>An occurrence is not missed if the first byte of the needle does not occur again in it and no
  beginning of the needle ends where the occurrence starts: then no comparison is under way there.\<close>

definition fresh_start :: "byte list \<Rightarrow> byte list \<Rightarrow> nat \<Rightarrow> bool" where
  "fresh_start s p j \<longleftrightarrow> list_all (\<lambda>i. \<not> (i \<le> j \<and> take i (drop (j - i) s) = take i p)) [1..<length p]"

lemma strstrLoop_complete:
  assumes "length p = len" and "take len needle = p" and "hd p \<notin> set (tl p)"
  shows "occursIn (u @ cs) p j \<Longrightarrow> fresh_start (u @ cs) p j \<Longrightarrow> i \<le> length u \<Longrightarrow> i < len \<Longrightarrow> length u - i \<le> j
    \<Longrightarrow> take i (drop (length u - i) u) = take i p
    \<Longrightarrow> \<exists>j'\<le>j. strstrLoop needle len i (length u) cs = Some j'"
proof (induction cs arbitrary: u i)
  case Nil
  then have "j + len \<le> length u" using assms(1) by (simp add: occursIn_nth)
  with Nil.prems show ?case by simp
next
  case (Cons c cs)
  let ?s = "u @ c # cs"
  from arg_cong [OF assms(2), of length] assms(1) have l: "len \<le> length needle" by simp
  have p: "needle ! q = p ! q" if "q < len" for q using nth_take [OF that, of needle] unfolding assms(2) by simp
  from Cons.prems(1) assms(1) have o: "j + len \<le> length ?s" "?s ! (j + q) = p ! q" if "q < len" for q
    using that by (simp_all add: occursIn_nth)
  have seen: "u ! (length u - i + q) = p ! q" if "q < i" for q
    using that Cons.prems(3,4) arg_cong [OF Cons.prems(6), of "\<lambda>x. x ! q"] assms(1) by simp
  consider "c = p ! i" "i + 1 = len" | "c = p ! i" "i + 1 \<noteq> len" | "c \<noteq> p ! i" by blast
  then show ?case
  proof cases
    case 1
    with Cons.prems(3-5) l p [of i] show ?thesis by auto
  next
    case 2
    have "take (i + 1) (drop (length (u @ [c]) - (i + 1)) (u @ [c])) = take (i + 1) p"
      using 2 Cons.prems(3,4,6) assms(1) by (simp add: take_Suc_conv_app_nth)
    with Cons.IH [of "u @ [c]" "i + 1"] 2 Cons.prems(1-5) l p [of i] show ?thesis by simp
  next
    case 3
    have "j \<noteq> length u - i"
      using o(2) [of i] 3 Cons.prems(3,4) by (auto simp: nth_append)
    moreover have "\<not> (length u - i < j \<and> j < length u)"
    proof
      assume d: "length u - i < j \<and> j < length u"
      let ?q = "j - (length u - i)"
      have e: "length u - i + ?q = j" "?q < i" using d Cons.prems(3) by auto
      have "u ! j = p ! ?q" using seen [OF e(2)] unfolding e(1) .
      then have "p ! ?q = p ! 0" using o(2) [of 0] d Cons.prems(4) by (simp add: nth_append)
      moreover have "0 < ?q" "?q < length p" using d Cons.prems(3,4) assms(1) by auto
      ultimately have "hd p \<in> set (tl p)"
        by (cases p) (auto simp: nth_Cons split: nat.split_asm)
      with assms(3) show False by simp
    qed
    moreover have "\<not> (j = length u \<and> 0 < i)"
    proof
      assume a: "j = length u \<and> 0 < i"
      then have "\<not> (i \<le> j \<and> take i (drop (j - i) ?s) = take i p)"
        using Cons.prems(2,4) assms(1) by (simp add: fresh_start_def list_all_iff)
      with a Cons.prems(3,4,6) assms(1) show False by simp
    qed
    ultimately have "length u + 1 \<le> j" using Cons.prems(5) by auto
    with Cons.IH [of "u @ [c]" 0] 3 Cons.prems(1-5) p [of i] show ?thesis by simp
  qed
qed

text \<open>C20: what \<open>strstr\<close> returns is an occurrence of the needle, and an occurrence that no comparison runs into is
  found, itself or an earlier one; the comparison restarts behind a byte that does not match, so that the
  occurrence in a string that repeats the needle's first byte is missed.\<close>

theorem strstr_occurrence:
  "(strstr s needle len = Some j \<and> needle \<noteq> [] \<longrightarrow> occursIn s (take (if len = 0 then length needle else len) needle) j)
   \<and> (p \<noteq> [] \<and> hd p \<notin> set (tl p) \<and> occursIn s p j \<and> fresh_start s p j \<longrightarrow> (\<exists>j'\<le>j. strstr s p 0 = Some j'))
   \<and> (a \<noteq> b \<longrightarrow> occursIn [a, a, b] [a, b] 1 \<and> strstr [a, a, b] [a, b] 0 = None)"
proof (intro conjI impI)
  assume a: "strstr s needle len = Some j \<and> needle \<noteq> []"
  with strstrLoop_sound [of needle "if len = 0 then length needle else len" 0 "[]" s j]
  show "occursIn s (take (if len = 0 then length needle else len) needle) j" by (simp add: strstr_def split: if_splits)
next
  assume "p \<noteq> [] \<and> hd p \<notin> set (tl p) \<and> occursIn s p j \<and> fresh_start s p j"
  with strstrLoop_complete [of p "length p" p "[]" s j 0] show "\<exists>j'\<le>j. strstr s p 0 = Some j'" by (simp add: strstr_def)
qed (auto simp: strstr_def occursIn_def)

theorem strstr_occurrence_witness:
  "occursIn [1, 2, 1, 2, 3] [2, 3] 3 \<and> (\<exists>j'\<le>3. strstr [1, 2, 1, 2, 3] [2, 3] 0 = Some j')
   \<and> strstr [1, 1, 2] [1, 2] 0 = None"
proof -
  have "occursIn [1, 2, 1, 2, 3] [2, 3] 3" "fresh_start [1, 2, 1, 2, 3] [2, 3] 3"
    by (simp_all add: occursIn_def fresh_start_def)
  then have "[2, 3] \<noteq> [] \<and> hd [2, 3 :: byte] \<notin> set (tl [2, 3]) \<and> occursIn [1, 2, 1, 2, 3] [2, 3] 3 \<and> fresh_start [1, 2, 1, 2, 3] [2, 3] 3"
    by simp
  moreover have "(1 :: byte) \<noteq> 2" by simp
  ultimately show ?thesis
    using strstr_occurrence [of "[1, 2, 1, 2, 3]" "[]" 0 3 "[2, 3]" 1 2] by blast
qed

lemma strrchrLoop_snoc:
  "strrchrLoop ch k r (xs @ [x]) = (if sint x = ch then Some (k + length xs) else strrchrLoop ch k r xs)"
  by (induction xs arbitrary: k r) auto

lemma last_hit_snoc:
  "(i < length (xs @ [x]) \<and> f ((xs @ [x]) ! i) \<and> (\<forall>q. i < q \<and> q < length (xs @ [x]) \<longrightarrow> \<not> f ((xs @ [x]) ! q)))
   \<longleftrightarrow> (if f x then i = length xs else i < length xs \<and> f (xs ! i) \<and> (\<forall>q. i < q \<and> q < length xs \<longrightarrow> \<not> f (xs ! q)))"
  (is "?l \<longleftrightarrow> ?r")
proof
  assume l: ?l
  show ?r
  proof (cases "i = length xs")
    case False
    with l have "i < length xs" by simp
    with l have "\<not> f x" by (auto dest: spec [of _ "length xs"])
    moreover have "\<not> f (xs ! q)" if "i < q" "q < length xs" for q
      using l that by (auto simp: nth_append dest: spec [of _ q])
    ultimately show ?thesis using l \<open>i < length xs\<close> by (simp add: nth_append)
  qed (use l in simp)
next
  assume r: ?r
  show ?l
  proof (cases "f x")
    case False
    have "\<not> f ((xs @ [x]) ! q)" if "i < q" "q < length (xs @ [x])" for q
      using r False that by (cases "q = length xs") (auto simp: nth_append)
    with r False show ?thesis by (simp add: nth_append)
  qed (use r in auto)
qed

lemma strrchrLoop_last:
  "strrchrLoop ch 0 None xs = Some i \<longleftrightarrow>
     i < length xs \<and> sint (xs ! i) = ch \<and> (\<forall>q. i < q \<and> q < length xs \<longrightarrow> sint (xs ! q) \<noteq> ch)"
proof (induction xs rule: rev_induct)
  case (snoc x xs)
  then show ?case unfolding last_hit_snoc [where f = "\<lambda>c. sint c = ch"] strrchrLoop_snoc by auto
qed simp

text \<open>\<open>strrchr\<close> returns the last place of the character, the terminating zero counted.\<close>

theorem strrchr_last:
  "strrchr (Some s) ch = Some i \<longleftrightarrow>
     i \<le> length s \<and> sint ((s @ [0]) ! i) = ch \<and> \<not> (\<exists>q. i < q \<and> q \<le> length s \<and> sint ((s @ [0]) ! q) = ch)"
  by (simp add: strrchr_def strrchrLoop_last less_Suc_eq_le) blast

section \<open>Bytes in memory\<close>

unbundle bit_operations_syntax

definition ONES :: u64 where "ONES = 0x0101010101010101"
definition HIGHS :: u64 where "HIGHS = ONES * 0x80"
definition HASZERO :: "u64 \<Rightarrow> u64" where "HASZERO x = (x - ONES) AND NOT x AND HIGHS"

text \<open>The bytes up to an aligned address, whole words as long as no byte of the word can be the one searched, the
  rest.\<close>

fun alignLoop :: "mem \<Rightarrow> byte \<Rightarrow> addr \<Rightarrow> nat \<Rightarrow> addr \<times> nat" where
  "alignLoop m c s 0 = (s, 0)"
| "alignLoop m c s (Suc n) = (if s AND 7 \<noteq> 0 \<and> m s \<noteq> c then alignLoop m c (s + 1) n else (s, Suc n))"

function wordLoop :: "mem \<Rightarrow> u64 \<Rightarrow> addr \<Rightarrow> nat \<Rightarrow> addr \<times> nat" where
  "wordLoop m k w n = (if 8 \<le> n \<and> HASZERO (load64 m w XOR k) = 0 then wordLoop m k (w + 8) (n - 8) else (w, n))"
  by pat_completeness auto
termination by (relation "measure (\<lambda>(m, k, w, n). n)") auto

declare wordLoop.simps [simp del]

fun byteLoop :: "mem \<Rightarrow> byte \<Rightarrow> addr \<Rightarrow> nat \<Rightarrow> addr \<times> nat" where
  "byteLoop m c s 0 = (s, 0)"
| "byteLoop m c s (Suc n) = (if m s \<noteq> c then byteLoop m c (s + 1) n else (s, Suc n))"

definition lilu_os_memchr :: "mem \<Rightarrow> addr \<Rightarrow> u32 \<Rightarrow> nat \<Rightarrow> addr option" where
  "lilu_os_memchr m src c0 n0 =
     (let c = ucast c0;
          (s, n) = alignLoop m c src n0;
          (s, n) = (if n \<noteq> 0 \<and> m s \<noteq> c then wordLoop m (ONES * ucast c) s n else (s, n));
          (s, n) = byteLoop m c s n
      in if n \<noteq> 0 then Some s else None)"

text \<open>The reference: the first offset with a property, as an address.\<close>

fun firstAt :: "(addr \<Rightarrow> bool) \<Rightarrow> addr \<Rightarrow> nat \<Rightarrow> addr option" where
  "firstAt P s 0 = None"
| "firstAt P s (Suc n) = (if P s then Some s else firstAt P (s + 1) n)"

lemma firstAt_skip:
  "(\<forall>i < k. \<not> P (s + of_nat i)) \<Longrightarrow> k \<le> n \<Longrightarrow> firstAt P (s + of_nat k) (n - k) = firstAt P s n"
proof (induction k arbitrary: s n)
  case (Suc k)
  then obtain n' where n: "n = Suc n'" by (cases n) auto
  have "\<not> P s" using Suc.prems(1) [THEN spec [of _ 0]] by simp
  moreover have "\<forall>i < k. \<not> P (s + 1 + of_nat i)"
    using Suc.prems(1) by (auto simp: algebra_simps dest: spec [of _ "Suc i" for i])
  ultimately show ?case using Suc.IH [of "s + 1" n'] Suc.prems(2) n by (simp add: algebra_simps)
qed simp

lemma firstAt_SomeD:
  "firstAt P s n = Some a \<Longrightarrow> \<exists>i < n. a = s + of_nat i \<and> P a \<and> (\<forall>j < i. \<not> P (s + of_nat j))"
proof (induction n arbitrary: s)
  case (Suc n)
  show ?case
  proof (cases "P s")
    case True
    with Suc.prems show ?thesis by (intro exI [of _ 0]) simp
  next
    case False
    with Suc obtain i where i: "i < n" "a = s + 1 + of_nat i" "P a" "\<forall>j < i. \<not> P (s + 1 + of_nat j)" by auto
    have "\<not> P (s + of_nat j)" if "j < Suc i" for j
      using that False i(4) by (cases j) (auto simp: algebra_simps)
    with i show ?thesis by (intro exI [of _ "Suc i"]) (simp add: algebra_simps)
  qed
qed simp

lemma firstAt_None: "firstAt P s n = None \<longleftrightarrow> (\<forall>i < n. \<not> P (s + of_nat i))"
proof (induction n arbitrary: s)
  case (Suc n)
  have "(\<forall>i < Suc n. \<not> P (s + of_nat i)) \<longleftrightarrow> \<not> P s \<and> (\<forall>i < n. \<not> P (s + 1 + of_nat i))"
    by (simp add: All_less_Suc2 algebra_simps)
  with Suc show ?case by simp
qed simp

lemma firstAt_inside: "firstAt Q s k = Some h \<Longrightarrow> k < 2 ^ 64 \<Longrightarrow> unat (h - s) < k"
  using firstAt_SomeD [of Q s k h] by (auto simp: unat_of_nat_small64)

text \<open>A search for less can start where a search for more ended.\<close>

lemma firstAt_narrow:
  assumes pq: "\<And>a. P a \<Longrightarrow> Q a" and "n \<le> k"
  shows "firstAt Q s k = None \<Longrightarrow> firstAt P s n = None"
    and "firstAt Q s k = Some h \<Longrightarrow> k < 2 ^ 64 \<Longrightarrow> firstAt P h (n - unat (h - s)) = firstAt P s n"
proof -
  show "firstAt P s n = None" if "firstAt Q s k = None"
    using that assms(2) pq unfolding firstAt_None by (meson less_le_trans)
  assume a: "firstAt Q s k = Some h" "k < 2 ^ 64"
  obtain i where i: "i < k" "h = s + of_nat i" "\<forall>j < i. \<not> Q (s + of_nat j)" using firstAt_SomeD [OF a(1)] by blast
  have u: "unat (h - s) = i" using i(1,2) a(2) by (simp add: unat_of_nat_small64)
  have none: "\<forall>j < i. \<not> P (s + of_nat j)" using i(3) pq by blast
  show "firstAt P h (n - unat (h - s)) = firstAt P s n"
  proof (cases "i \<le> n")
    case True
    from firstAt_skip [of i P s n, OF none True] show ?thesis by (simp only: u i(2) [symmetric])
  next
    case False
    then have "firstAt P s n = None" unfolding firstAt_None using none by (meson less_trans not_le)
    with False show ?thesis by (simp add: u)
  qed
qed

section \<open>A zero byte in a word\<close>

text \<open>On the integers: the lowest zero byte borrows, the nonzero bytes below it do not.\<close>

lemma haszero_step:
  assumes "0 < b" and "b < (256 :: int)"
  shows "drop_bit 8 ((b + 256 * x - (1 + 256 * o')) AND NOT (b + 256 * x) AND (0x80 + 256 * h)) = (x - o') AND NOT x AND h"
proof -
  have "drop_bit 8 (b + 256 * x - (1 + 256 * o')) = x - o'"
  proof -
    have "b + 256 * x - (1 + 256 * o') = (b - 1) + (x - o') * 256" by simp
    then show ?thesis using assms by (simp add: drop_bit_eq_div div_add1_eq)
  qed
  moreover have "drop_bit 8 (NOT (b + 256 * x)) = NOT x"
  proof -
    have "drop_bit 8 (NOT (b + 256 * x)) = NOT (drop_bit 8 (b + 256 * x))"
      by (rule bit_eqI) (simp add: bit_drop_bit_eq bit_not_iff)
    then show ?thesis using assms by (simp add: drop_bit_eq_div)
  qed
  moreover have "drop_bit 8 (0x80 + 256 * h) = h" by (simp add: drop_bit_eq_div)
  ultimately show ?thesis by (simp add: drop_bit_and)
qed

lemma haszero_here: "bit ((256 * x - (1 + 256 * o')) AND NOT (256 * x) AND (0x80 + 256 * h)) (7 :: nat)" for x :: int
proof -
  have "256 * x - (1 + 256 * o') = 127 + (2 * (x - o' - 1) + 1) * 128" by simp
  then have "(256 * x - (1 + 256 * o')) div 128 = 2 * (x - o' - 1) + 1" by (simp add: div_add1_eq)
  then have "bit (256 * x - (1 + 256 * o')) (7 :: nat)" by (simp add: bit_iff_odd)
  moreover have "\<not> bit (256 * x) (7 :: nat)" by (simp add: bit_iff_odd)
  moreover have "bit (0x80 + 256 * h) (7 :: nat)" by (simp add: bit_iff_odd)
  ultimately show ?thesis by (simp add: bit_and_iff bit_not_iff)
qed

lemma nonzero_bits: "bit a n \<Longrightarrow> a \<noteq> 0" "drop_bit n a \<noteq> 0 \<Longrightarrow> a \<noteq> 0" for a :: int
  by auto

lemma haszero_bytes:
  "0 \<in> set bs \<Longrightarrow> (int (le_nat bs) - int (le_nat (map (\<lambda>_. 1) bs))) AND NOT (int (le_nat bs))
     AND int (le_nat (map (\<lambda>_. 0x80) bs)) \<noteq> 0"
proof (induction bs)
  case (Cons b bs)
  let ?x = "int (le_nat bs)" and ?o = "int (le_nat (map (\<lambda>_. 1) bs))" and ?h = "int (le_nat (map (\<lambda>_. 0x80) bs))"
  have c: "int (le_nat (b # bs)) = int (unat b) + 256 * ?x" "int (le_nat (map (\<lambda>_. 1) (b # bs))) = 1 + 256 * ?o"
    "int (le_nat (map (\<lambda>_. 0x80) (b # bs))) = 0x80 + 256 * ?h" by (simp_all del: unat_eq_0)
  show ?case
  proof (cases "b = 0")
    case True
    have "bit ((int (unat b) + 256 * ?x - (1 + 256 * ?o)) AND NOT (int (unat b) + 256 * ?x) AND (0x80 + 256 * ?h)) 7"
      using haszero_here [of ?x ?o ?h] True by simp
    then show ?thesis unfolding c by (rule nonzero_bits(1))
  next
    case False
    then have "0 < unat b" by (simp add: unat_gt_0)
    with unat_byte [of b] have "0 < int (unat b)" "int (unat b) < 256" by linarith+
    from haszero_step [OF this, of ?x ?o ?h] Cons False
    have "drop_bit 8 ((int (unat b) + 256 * ?x - (1 + 256 * ?o)) AND NOT (int (unat b) + 256 * ?x) AND (0x80 + 256 * ?h)) \<noteq> 0"
      by simp
    then show ?thesis unfolding c by (rule nonzero_bits(2))
  qed
qed simp

lemma take_bit_and_last:
  fixes a :: int
  assumes "take_bit n c = c"
  shows "take_bit n (a AND b AND c) = a AND b AND c"
proof (rule bit_eqI)
  fix k
  have "bit c k \<longleftrightarrow> k < n \<and> bit c k" using bit_take_bit_iff [of n c k] assms by simp
  then show "bit (take_bit n (a AND b AND c)) k \<longleftrightarrow> bit (a AND b AND c) k" by (auto simp: bit_and_iff bit_take_bit_iff)
qed

text \<open>A word without a byte marked has no zero byte.\<close>

lemma HASZERO_bytes:
  assumes "length bs = 8" and "0 \<in> set bs"
  shows "HASZERO (of_nat (le_nat bs)) \<noteq> 0"
proof
  let ?x = "int (le_nat bs)"
  assume "HASZERO (of_nat (le_nat bs)) = 0"
  obtain b0 b1 b2 b3 b4 b5 b6 b7 where bs: "bs = [b0, b1, b2, b3, b4, b5, b6, b7]"
    using assms(1) by (auto simp: numeral_eq_Suc length_Suc_conv)
  have o: "ONES = of_int (int (le_nat (map (\<lambda>_. 1) bs)))" "HIGHS = of_int (int (le_nat (map (\<lambda>_. 0x80) bs)))"
    unfolding bs by (simp_all add: ONES_def HIGHS_def)
  have h: "int (le_nat (map (\<lambda>_. 0x80) bs)) = take_bit 64 (int (le_nat (map (\<lambda>_. 0x80) bs)))"
    unfolding bs by (simp add: take_bit_eq_mod)
  let ?r = "(?x - int (le_nat (map (\<lambda>_. 1) bs))) AND NOT ?x AND int (le_nat (map (\<lambda>_. 0x80) bs))"
  have "of_int ?r = HASZERO (of_int ?x)"
    unfolding HASZERO_def o by (simp only: of_int_and_eq of_int_not_eq of_int_diff)
  then have "of_int ?r = (0 :: u64)" using \<open>HASZERO (of_nat (le_nat bs)) = 0\<close> by simp
  then have "take_bit 64 ?r = 0" using uint_word_of_int_eq [of ?r, where 'a = 64] by simp
  moreover have "take_bit 64 ?r = ?r" by (rule take_bit_and_last [OF h [symmetric]])
  ultimately have "?r = 0" by simp
  with haszero_bytes [OF assms(2)] show False by simp
qed

lemma le_nat_concat: "int (le_nat (b # bs)) = concat_bit 8 (uint b) (int (le_nat bs))"
proof -
  have "take_bit 8 (uint b) = uint b" by (rule bit_eqI) (auto simp: bit_take_bit_iff bit_uint_iff)
  then show ?thesis by (simp add: concat_bit_eq push_bit_eq_mult)
qed

lemma le_nat_xor:
  "length bs = length cs \<Longrightarrow> int (le_nat (map2 (XOR) bs cs)) = int (le_nat bs) XOR int (le_nat cs)"
proof (induction bs cs rule: list_induct2)
  case (Cons b bs c cs)
  have "concat_bit 8 (uint (b XOR c)) (int (le_nat bs) XOR int (le_nat cs))
      = concat_bit 8 (uint b) (int (le_nat bs)) XOR concat_bit 8 (uint c) (int (le_nat cs))"
    by (rule bit_eqI) (auto simp: bit_concat_bit_iff bit_xor_iff bit_uint_iff)
  with Cons show ?case by (simp only: zip_Cons_Cons list.map prod.case le_nat_concat)
qed simp

lemma ones_times: "ONES * ucast c = of_nat (le_nat (replicate 8 c))"
proof -
  have "replicate 8 c = [c, c, c, c, c, c, c, c]" by (simp add: numeral_eq_Suc)
  then have "le_nat (replicate 8 c) = 0x0101010101010101 * unat c" by simp
  then show ?thesis by (simp add: ONES_def)
qed

lemma load64_xor: "load64 m w XOR ONES * ucast c = of_nat (le_nat (map (\<lambda>b. b XOR c) (load_bytes m w 8)))"
proof -
  let ?bs = "load_bytes m w 8"
  have "map (\<lambda>b. b XOR c) ?bs = map2 (XOR) ?bs (replicate 8 c)"
    by (auto simp: list_eq_iff_nth_eq)
  then have "int (le_nat (map (\<lambda>b. b XOR c) ?bs)) = int (le_nat ?bs) XOR int (le_nat (replicate 8 c))"
    by (simp only: le_nat_xor length_load_bytes length_replicate)
  from arg_cong [OF this, of "of_int :: int \<Rightarrow> u64"] show ?thesis
    by (simp add: of_int_xor_eq load64_def ones_times)
qed

text \<open>Words that are skipped do not hold the byte.\<close>

lemma wordLoop_skips:
  "wordLoop m (ONES * ucast c) s n = (s', n') \<Longrightarrow> firstAt (\<lambda>a. m a = c) s' n' = firstAt (\<lambda>a. m a = c) s n"
proof (induction m "ONES * ucast c" s n rule: wordLoop.induct)
  case (1 m w n)
  show ?case
  proof (cases "8 \<le> n \<and> HASZERO (load64 m w XOR ONES * ucast c) = 0")
    case True
    then have "0 \<notin> set (map (\<lambda>b. b XOR c) (load_bytes m w 8))" using HASZERO_bytes unfolding load64_xor by auto
    moreover have "m (w + of_nat i) XOR c \<in> set (map (\<lambda>b. b XOR c) (load_bytes m w 8))" if "i < 8" for i
      using that by (auto simp: load_bytes_def)
    ultimately have "\<forall>i < 8. \<not> m (w + of_nat i) = c" by (metis xor_self_eq)
    from firstAt_skip [of 8 "\<lambda>a. m a = c", OF this] 1 True show ?thesis by (simp add: wordLoop.simps [of m _ w n])
  next
    case False
    with 1 show ?thesis by (auto simp: wordLoop.simps [of m _ w n])
  qed
qed

lemma alignLoop_skips: "alignLoop m c s n = (s', n') \<Longrightarrow> firstAt (\<lambda>a. m a = c) s' n' = firstAt (\<lambda>a. m a = c) s n"
  by (induction m c s n rule: alignLoop.induct) (auto split: if_splits)

lemma byteLoop_first:
  "byteLoop m c s n = (s', n') \<Longrightarrow> (if n' \<noteq> 0 then Some s' else None) = firstAt (\<lambda>a. m a = c) s n"
  by (induction m c s n rule: byteLoop.induct) (auto split: if_splits)

lemma memchr_first: "lilu_os_memchr m s c n = firstAt (\<lambda>a. m a = ucast c) s n"
proof -
  obtain s1 n1 where 1: "alignLoop m (ucast c) s n = (s1, n1)" by fastforce
  obtain s2 n2 where 2: "(if n1 \<noteq> 0 \<and> m s1 \<noteq> ucast c then wordLoop m (ONES * ucast (ucast c :: byte)) s1 n1 else (s1, n1)) = (s2, n2)" by fastforce
  obtain s3 n3 where 3: "byteLoop m (ucast c) s2 n2 = (s3, n3)" by fastforce
  have "firstAt (\<lambda>a. m a = ucast c) s2 n2 = firstAt (\<lambda>a. m a = ucast c) s1 n1"
    using 2 wordLoop_skips [of m "ucast c" s1 n1 s2 n2] by (auto split: if_splits)
  with byteLoop_first [OF 3] alignLoop_skips [OF 1] show ?thesis
    unfolding lilu_os_memchr_def Let_def 1 prod.case 2 3 by simp
qed

section \<open>Short needles\<close>

text \<open>The last bytes of the block as a number: \<open>hw\<close> holds the \<open>d\<close> bytes in front of \<open>h\<close>.\<close>

fun rollLoop :: "('w :: len word \<Rightarrow> byte \<Rightarrow> 'w word) \<Rightarrow> nat \<Rightarrow> mem \<Rightarrow> 'w word \<Rightarrow> 'w word \<Rightarrow> addr \<Rightarrow> nat \<Rightarrow> addr option" where
  "rollLoop step d m nw hw h 0 = (if hw = nw then Some (h - of_nat d) else None)"
| "rollLoop step d m nw hw h (Suc k) =
     (if hw = nw then Some (h - of_nat d) else rollLoop step d m nw (step hw (m h)) (h + 1) k)"

definition two :: "byte list \<Rightarrow> u16" where
  "two b = push_bit 8 (ucast (b ! 0)) OR ucast (b ! 1)"

definition three :: "byte list \<Rightarrow> u32" where
  "three b = push_bit 24 (ucast (b ! 0)) OR push_bit 16 (ucast (b ! 1)) OR push_bit 8 (ucast (b ! 2))"

definition four :: "byte list \<Rightarrow> u32" where
  "four b = push_bit 24 (ucast (b ! 0)) OR push_bit 16 (ucast (b ! 1)) OR push_bit 8 (ucast (b ! 2)) OR ucast (b ! 3)"

definition shiftIn :: "'w :: len word \<Rightarrow> byte \<Rightarrow> 'w word" where
  "shiftIn hw b = push_bit 8 hw OR ucast b"

definition shiftIn3 :: "u32 \<Rightarrow> byte \<Rightarrow> u32" where
  "shiftIn3 hw b = push_bit 8 (hw OR ucast b)"

definition twobyte_memmem :: "mem \<Rightarrow> addr \<Rightarrow> nat \<Rightarrow> addr \<Rightarrow> addr option" where
  "twobyte_memmem m h k n = rollLoop shiftIn 2 m (two (load_bytes m n 2)) (two (load_bytes m h 2)) (h + 2) (k - 2)"

definition threebyte_memmem :: "mem \<Rightarrow> addr \<Rightarrow> nat \<Rightarrow> addr \<Rightarrow> addr option" where
  "threebyte_memmem m h k n = rollLoop shiftIn3 3 m (three (load_bytes m n 3)) (three (load_bytes m h 3)) (h + 3) (k - 3)"

definition fourbyte_memmem :: "mem \<Rightarrow> addr \<Rightarrow> nat \<Rightarrow> addr \<Rightarrow> addr option" where
  "fourbyte_memmem m h k n = rollLoop shiftIn 4 m (four (load_bytes m n 4)) (four (load_bytes m h 4)) (h + 4) (k - 4)"

definition lilu_os_memmem :: "(mem \<Rightarrow> addr \<Rightarrow> addr \<Rightarrow> addr \<Rightarrow> nat \<Rightarrow> addr option) \<Rightarrow> mem \<Rightarrow> addr \<Rightarrow> nat \<Rightarrow> addr \<Rightarrow> nat \<Rightarrow> addr option" where
  "lilu_os_memmem twoway m h0 k n l =
     (if l = 0 then Some h0
      else if k < l then None
      else case lilu_os_memchr m h0 (ucast (m n)) k of None \<Rightarrow> None
        | Some h \<Rightarrow>
            if l = 1 then Some h
            else let k1 = k - unat (h - h0)
                 in if k1 < l then None
                    else if l = 2 then twobyte_memmem m h k1 n
                    else if l = 3 then threebyte_memmem m h k1 n
                    else if l = 4 then fourbyte_memmem m h k1 n
                    else twoway m h (h + of_nat k1) n l)"

locale rolling_window =
  fixes step :: "'w :: len word \<Rightarrow> byte \<Rightarrow> 'w word" and d :: nat and code :: "byte list \<Rightarrow> 'w word"
  assumes wide: "0 < d"
    and rolls: "Suc (length bs) = d \<Longrightarrow> step (code (b # bs)) c = code (bs @ [c])"
    and injective: "length xs = d \<Longrightarrow> length ys = d \<Longrightarrow> code xs = code ys \<Longrightarrow> xs = ys"
begin

lemma load_rolls: "step (code (load_bytes m a d)) (m (a + of_nat d)) = code (load_bytes m (a + 1) d)"
proof -
  obtain e where e: "d = Suc e" using wide by (cases d) auto
  have "load_bytes m (a + 1) e @ [m (a + of_nat d)] = load_bytes m (a + 1) d"
    by (rule nth_equalityI) (auto simp: e nth_append less_Suc_eq algebra_simps)
  with rolls [of "load_bytes m (a + 1) e" "m a"] show ?thesis by (simp add: e load_bytes_Suc [of m a])
qed

lemma rollLoop_first:
  "length p = d \<Longrightarrow> rollLoop step d m (code p) (code (load_bytes m a d)) (a + of_nat d) k
     = firstAt (\<lambda>a. load_bytes m a d = p) a (Suc k)"
proof (induction k arbitrary: a)
  case 0
  then show ?case using injective [of "load_bytes m a d" p] by auto
next
  case (Suc k)
  have e: "a + of_nat d + 1 = a + 1 + of_nat d" by simp
  show ?case
    using injective [of "load_bytes m a d" p] Suc.IH [OF Suc.prems, of "a + 1"] Suc.prems
    by (auto simp: load_rolls e simp del: firstAt.simps(2) simp: firstAt.simps(2) [of _ a])
qed

end

text \<open>The bytes are read back from the number.\<close>

lemma byte_bits: "\<not> bit (b :: byte) (8 + n)" "\<not> bit (b :: byte) (16 + n)" "\<not> bit (b :: byte) (24 + n)"
  using bit_imp_le_length [of b "8 + n"] bit_imp_le_length [of b "16 + n"] bit_imp_le_length [of b "24 + n"] by auto

lemma bytes_of_two: "length b = 2 \<Longrightarrow> b = [ucast (drop_bit 8 (two b)), ucast (two b)]"
proof -
  assume "length b = 2"
  then obtain x y where b: "b = [x, y]" by (auto simp: length_Suc_conv numeral_eq_Suc)
  show ?thesis unfolding b by (auto simp: two_def bit_simps byte_bits intro!: bit_word_eqI)
qed

lemma bytes_of_three:
  "length b = 3 \<Longrightarrow> b = [ucast (drop_bit 24 (three b)), ucast (drop_bit 16 (three b)), ucast (drop_bit 8 (three b))]"
proof -
  assume "length b = 3"
  then obtain x y z where b: "b = [x, y, z]" by (auto simp: length_Suc_conv numeral_eq_Suc)
  show ?thesis unfolding b by (auto simp: three_def bit_simps byte_bits intro!: bit_word_eqI)
qed

lemma bytes_of_four:
  "length b = 4 \<Longrightarrow> b = [ucast (drop_bit 24 (four b)), ucast (drop_bit 16 (four b)), ucast (drop_bit 8 (four b)), ucast (four b)]"
proof -
  assume "length b = 4"
  then obtain x y z u where b: "b = [x, y, z, u]" by (auto simp: length_Suc_conv numeral_eq_Suc)
  show ?thesis unfolding b by (auto simp: four_def bit_simps byte_bits intro!: bit_word_eqI)
qed

interpretation w2: rolling_window shiftIn 2 two
proof
  show "shiftIn (two (b # bs)) c = two (bs @ [c])" if "Suc (length bs) = 2" for b bs c
  proof -
    from that obtain b1 where "bs = [b1]" by (auto simp: length_Suc_conv)
    then show ?thesis by (auto simp: shiftIn_def two_def bit_simps intro!: bit_word_eqI)
  qed
  show "xs = ys" if "length xs = 2" "length ys = 2" "two xs = two ys" for xs ys
    using bytes_of_two [OF that(1)] bytes_of_two [OF that(2)] that(3) by simp
qed simp

interpretation w3: rolling_window shiftIn3 3 three
proof
  show "shiftIn3 (three (b # bs)) c = three (bs @ [c])" if "Suc (length bs) = 3" for b bs c
  proof -
    from that obtain b1 b2 where "bs = [b1, b2]" by (auto simp: length_Suc_conv numeral_eq_Suc)
    then show ?thesis by (auto simp: shiftIn3_def three_def bit_simps intro!: bit_word_eqI)
  qed
  show "xs = ys" if "length xs = 3" "length ys = 3" "three xs = three ys" for xs ys
    using bytes_of_three [OF that(1)] bytes_of_three [OF that(2)] that(3) by simp
qed simp

interpretation w4: rolling_window shiftIn 4 four
proof
  show "shiftIn (four (b # bs)) c = four (bs @ [c])" if "Suc (length bs) = 4" for b bs c
  proof -
    from that obtain b1 b2 b3 where "bs = [b1, b2, b3]" by (auto simp: length_Suc_conv numeral_eq_Suc)
    then show ?thesis by (auto simp: shiftIn_def four_def bit_simps intro!: bit_word_eqI)
  qed
  show "xs = ys" if "length xs = 4" "length ys = 4" "four xs = four ys" for xs ys
    using bytes_of_four [OF that(1)] bytes_of_four [OF that(2)] that(3) by simp
qed simp

lemma short_first:
  assumes "l \<le> k"
  shows "l = 2 \<Longrightarrow> twobyte_memmem m h k n = firstAt (\<lambda>a. load_bytes m a l = load_bytes m n l) h (Suc (k - l))"
    and "l = 3 \<Longrightarrow> threebyte_memmem m h k n = firstAt (\<lambda>a. load_bytes m a l = load_bytes m n l) h (Suc (k - l))"
    and "l = 4 \<Longrightarrow> fourbyte_memmem m h k n = firstAt (\<lambda>a. load_bytes m a l = load_bytes m n l) h (Suc (k - l))"
  using w2.rollLoop_first [of "load_bytes m n 2" m h "k - 2"] w3.rollLoop_first [of "load_bytes m n 3" m h "k - 3"]
    w4.rollLoop_first [of "load_bytes m n 4" m h "k - 4"] assms
  by (simp_all add: twobyte_memmem_def threebyte_memmem_def fourbyte_memmem_def del: firstAt.simps)

text \<open>C19: a needle of up to four bytes is found at its first place in the block, with the words compared eight bytes at
  a time in the search for its first byte and as rolling numbers behind it.\<close>

theorem memmem_leftmost:
  assumes "k < 2 ^ 64" and "l \<le> 4"
  shows "lilu_os_memmem twoway m h0 k n l = firstAt (\<lambda>a. load_bytes m a l = load_bytes m n l) h0 (k + 1 - l)"
proof (cases "l = 0 \<or> k < l")
  case True
  then show ?thesis by (auto simp: lilu_os_memmem_def load_bytes_def)
next
  case False
  let ?P = "\<lambda>a. load_bytes m a l = load_bytes m n l" and ?Q = "\<lambda>a. m a = m n"
  from False obtain l' where l: "l = Suc l'" by (cases l) auto
  have pq: "?Q a" if "?P a" for a using that by (simp add: l load_bytes_Suc)
  have n: "k + 1 - l \<le> k" using l by simp
  have "ucast (ucast (m n) :: u32) = m n" by (rule bit_word_eqI) (auto simp: bit_simps)
  then have c: "lilu_os_memchr m h0 (ucast (m n)) k = firstAt ?Q h0 k" by (simp add: memchr_first)
  show ?thesis
  proof (cases "firstAt ?Q h0 k")
    case None
    with firstAt_narrow(1) [of ?P ?Q, OF pq n] False c show ?thesis by (simp add: lilu_os_memmem_def)
  next
    case (Some h)
    let ?k = "k - unat (h - h0)"
    have f: "firstAt ?P h (?k + 1 - l) = firstAt ?P h0 (k + 1 - l)"
      using firstAt_narrow(2) [of ?P ?Q, OF pq n Some assms(1)] firstAt_inside [OF Some assms(1)] by (simp add: Suc_diff_le add.commute)
    consider "l = 1" | "l \<noteq> 1" "?k < l" | "l \<noteq> 1" "l \<le> ?k" by linarith
    then show ?thesis
    proof cases
      case 1
      then have "?P = ?Q" by (simp add: fun_eq_iff load_bytes_def)
      with 1 Some False c show ?thesis by (simp add: lilu_os_memmem_def)
    next
      case 2
      with f Some False c show ?thesis by (simp add: lilu_os_memmem_def)
    next
      case 3
      moreover have "l = 2 \<or> l = 3 \<or> l = 4" using assms(2) 3 False by linarith
      ultimately show ?thesis
        using short_first [OF 3(2), of m h n] f Some False c by (auto simp: lilu_os_memmem_def Let_def Suc_diff_le)
    qed
  qed
qed

definition demo_block :: mem where
  "demo_block = store_bytes (store_bytes (\<lambda>_. 0) 0x1003 [1, 2, 1, 2, 3, 4]) 0x2000 [1, 2, 3]"

theorem memmem_leftmost_witness:
  "lilu_os_memmem (\<lambda>m h z n l. None) demo_block 0x1000 12 0x2000 3 = Some 0x1005"
proof -
  have "firstAt (\<lambda>a. load_bytes demo_block a 3 = load_bytes demo_block 0x2000 3) 0x1000 (12 + 1 - 3) = Some 0x1005"
    by code_simp
  with memmem_leftmost [of 12 3 "\<lambda>m h z n l. None" demo_block "0x1000" "0x2000"] show ?thesis by simp
qed

end
