(* ===== verification/Lilu_Sort.thy ===== *)
theory Lilu_Sort
  imports Main "HOL-Library.Multiset"
begin

text \<open>
  The sort of \<^verbatim>\<open>Lilu/Lilu/Sources/kern_qsort.cpp\<close>, Bentley and McIlroy's quicksort.  An array is the list of its
  elements, a pointer the index of an element, and the comparator a function to the integers.  The loop of
  the function on the right part and its call of itself on the left part are two calls.
\<close>

section \<open>The sort\<close>

definition swapAt :: "nat \<Rightarrow> nat \<Rightarrow> 'a list \<Rightarrow> 'a list" where
  "swapAt i j xs = xs[i := xs ! j, j := xs ! i]"

text \<open>\<open>vecswap\<close> exchanges two runs of \<open>r\<close> elements, element by element from the left.\<close>

fun vecswap :: "nat \<Rightarrow> nat \<Rightarrow> nat \<Rightarrow> 'a list \<Rightarrow> 'a list" where
  "vecswap i j 0 xs = xs"
| "vecswap i j (Suc r) xs = vecswap (i + 1) (j + 1) r (swapAt i j xs)"

definition med3 :: "('a \<Rightarrow> 'a \<Rightarrow> int) \<Rightarrow> 'a list \<Rightarrow> nat \<Rightarrow> nat \<Rightarrow> nat \<Rightarrow> nat" where
  "med3 cmp xs a b c =
     (if cmp (xs ! a) (xs ! b) < 0
      then if cmp (xs ! b) (xs ! c) < 0 then b else if cmp (xs ! a) (xs ! c) < 0 then c else a
      else if cmp (xs ! b) (xs ! c) > 0 then b else if cmp (xs ! a) (xs ! c) < 0 then a else c)"

fun insertInner :: "('a \<Rightarrow> 'a \<Rightarrow> int) \<Rightarrow> nat \<Rightarrow> 'a list \<Rightarrow> 'a list" where
  "insertInner cmp 0 xs = xs"
| "insertInner cmp (Suc pl) xs =
     (if cmp (xs ! pl) (xs ! Suc pl) > 0 then insertInner cmp pl (swapAt (Suc pl) pl xs) else xs)"

lemma length_swapAt [simp]: "length (swapAt i j xs) = length xs"
  by (simp add: swapAt_def)

lemma length_insertInner [simp]: "length (insertInner cmp pl xs) = length xs"
  by (induction cmp pl xs rule: insertInner.induct) auto

function insertOuter :: "('a \<Rightarrow> 'a \<Rightarrow> int) \<Rightarrow> nat \<Rightarrow> 'a list \<Rightarrow> 'a list" where
  "insertOuter cmp pm xs = (if pm < length xs then insertOuter cmp (pm + 1) (insertInner cmp pm xs) else xs)"
  by pat_completeness auto
termination by (relation "measure (\<lambda>(cmp, pm, xs). length xs - pm)") auto

declare insertOuter.simps [simp del]

definition pivotIndex :: "('a \<Rightarrow> 'a \<Rightarrow> int) \<Rightarrow> 'a list \<Rightarrow> nat" where
  "pivotIndex cmp xs =
     (let n = length xs; pm = n div 2
      in if n > 7
         then let pl = 0; pn = n - 1;
                  (pl, pm, pn) =
                    (if n > 40
                     then let d = n div 8
                          in (med3 cmp xs pl (pl + d) (pl + 2 * d), med3 cmp xs (pm - d) pm (pm + d), med3 cmp xs (pn - 2 * d) (pn - d) pn)
                     else (pl, pm, pn))
              in med3 cmp xs pl pm pn
         else pm)"

text \<open>The pointers of the partition: equal elements at both ends, smaller ones up to \<open>p_b\<close>, larger ones from \<open>p_c\<close>.
  The source's \<open>pc\<close> and \<open>pd\<close> are the elements in front of \<open>p_c\<close> and \<open>p_d\<close>.\<close>

record 'a parted =
  p_a :: nat
  p_b :: nat
  p_c :: nat
  p_d :: nat
  swap_cnt :: bool
  p_xs :: "'a list"

definition upGoes :: "('a \<Rightarrow> 'a \<Rightarrow> int) \<Rightarrow> 'a parted \<Rightarrow> bool" where
  "upGoes cmp p \<longleftrightarrow> p_b p < p_c p \<and> cmp (p_xs p ! p_b p) (p_xs p ! 0) \<le> 0"

definition upStep :: "('a \<Rightarrow> 'a \<Rightarrow> int) \<Rightarrow> 'a parted \<Rightarrow> 'a parted" where
  "upStep cmp p =
     (if cmp (p_xs p ! p_b p) (p_xs p ! 0) = 0
      then p\<lparr>swap_cnt := True, p_xs := swapAt (p_a p) (p_b p) (p_xs p), p_a := p_a p + 1, p_b := p_b p + 1\<rparr>
      else p\<lparr>p_b := p_b p + 1\<rparr>)"

function upLoop :: "('a \<Rightarrow> 'a \<Rightarrow> int) \<Rightarrow> 'a parted \<Rightarrow> 'a parted" where
  "upLoop cmp p = (if upGoes cmp p then upLoop cmp (upStep cmp p) else p)"
  by pat_completeness auto
termination by (relation "measure (\<lambda>(cmp, p). p_c p - p_b p)") (auto simp: upGoes_def upStep_def)

definition downGoes :: "('a \<Rightarrow> 'a \<Rightarrow> int) \<Rightarrow> 'a parted \<Rightarrow> bool" where
  "downGoes cmp p \<longleftrightarrow> p_b p < p_c p \<and> cmp (p_xs p ! (p_c p - 1)) (p_xs p ! 0) \<ge> 0"

definition downStep :: "('a \<Rightarrow> 'a \<Rightarrow> int) \<Rightarrow> 'a parted \<Rightarrow> 'a parted" where
  "downStep cmp p =
     (if cmp (p_xs p ! (p_c p - 1)) (p_xs p ! 0) = 0
      then p\<lparr>swap_cnt := True, p_xs := swapAt (p_c p - 1) (p_d p - 1) (p_xs p), p_d := p_d p - 1, p_c := p_c p - 1\<rparr>
      else p\<lparr>p_c := p_c p - 1\<rparr>)"

function downLoop :: "('a \<Rightarrow> 'a \<Rightarrow> int) \<Rightarrow> 'a parted \<Rightarrow> 'a parted" where
  "downLoop cmp p = (if downGoes cmp p then downLoop cmp (downStep cmp p) else p)"
  by pat_completeness auto
termination by (relation "measure (\<lambda>(cmp, p). p_c p - p_b p)") (auto simp: downGoes_def downStep_def)

declare upLoop.simps [simp del] downLoop.simps [simp del]

lemma upLoop_inv:
  "(\<And>p. I p \<Longrightarrow> upGoes cmp p \<Longrightarrow> I (upStep cmp p)) \<Longrightarrow> I p \<Longrightarrow> I (upLoop cmp p) \<and> \<not> upGoes cmp (upLoop cmp p)"
proof (induction cmp p rule: upLoop.induct)
  case (1 cmp p)
  show ?case by (subst (1 2) upLoop.simps) (use 1 in auto)
qed

lemma downLoop_inv:
  "(\<And>p. I p \<Longrightarrow> downGoes cmp p \<Longrightarrow> I (downStep cmp p)) \<Longrightarrow> I p \<Longrightarrow> I (downLoop cmp p) \<and> \<not> downGoes cmp (downLoop cmp p)"
proof (induction cmp p rule: downLoop.induct)
  case (1 cmp p)
  show ?case by (subst (1 2) downLoop.simps) (use 1 in auto)
qed

lemma loops_bounds:
  "p_b p \<le> p_b (upLoop cmp p) \<and> p_c (upLoop cmp p) = p_c p"
  "p_c (downLoop cmp p) \<le> p_c p \<and> p_b (downLoop cmp p) = p_b p"
proof -
  show "p_b p \<le> p_b (upLoop cmp p) \<and> p_c (upLoop cmp p) = p_c p"
    by (rule upLoop_inv [of "\<lambda>q. p_b p \<le> p_b q \<and> p_c q = p_c p", THEN conjunct1]) (auto simp: upStep_def)
  show "p_c (downLoop cmp p) \<le> p_c p \<and> p_b (downLoop cmp p) = p_b p"
    by (rule downLoop_inv [of "\<lambda>q. p_c q \<le> p_c p \<and> p_b q = p_b p", THEN conjunct1]) (auto simp: downStep_def)
qed

definition crossStep :: "'a parted \<Rightarrow> 'a parted" where
  "crossStep p = p\<lparr>swap_cnt := True, p_xs := swapAt (p_b p) (p_c p - 1) (p_xs p), p_b := p_b p + 1, p_c := p_c p - 1\<rparr>"

function partLoop :: "('a \<Rightarrow> 'a \<Rightarrow> int) \<Rightarrow> 'a parted \<Rightarrow> 'a parted" where
  "partLoop cmp p =
     (if p_b (downLoop cmp (upLoop cmp p)) \<ge> p_c (downLoop cmp (upLoop cmp p)) then downLoop cmp (upLoop cmp p)
      else partLoop cmp (crossStep (downLoop cmp (upLoop cmp p))))"
  by pat_completeness auto
termination
proof (relation "measure (\<lambda>(cmp, p). p_c p - p_b p)", goal_cases)
  case (2 cmp p)
  then show ?case using loops_bounds(1) [of p cmp] loops_bounds(2) [of cmp "upLoop cmp p"] by (clarsimp simp: crossStep_def) linarith
qed simp

declare partLoop.simps [simp del]

definition partition_around :: "('a \<Rightarrow> 'a \<Rightarrow> int) \<Rightarrow> 'a list \<Rightarrow> 'a parted" where
  "partition_around cmp xs =
     partLoop cmp \<lparr>p_a = 1, p_b = 1, p_c = length xs, p_d = length xs, swap_cnt = False, p_xs = swapAt 0 (pivotIndex cmp xs) xs\<rparr>"

definition gather :: "'a parted \<Rightarrow> 'a list" where
  "gather p =
     (let n = length (p_xs p);
          r = min (p_a p) (p_b p - p_a p);
          xs = vecswap 0 (p_b p - r) r (p_xs p);
          r = min (p_d p - p_c p) (n - p_d p)
      in vecswap (p_b p) (n - r) r xs)"

section \<open>The partition\<close>

lemma mset_swapAt: "i < length xs \<Longrightarrow> j < length xs \<Longrightarrow> mset (swapAt i j xs) = mset xs"
  by (simp add: swapAt_def mset_swap)

lemma nth_swapAt:
  "i < length xs \<Longrightarrow> j < length xs \<Longrightarrow> swapAt i j xs ! k = (if k = j then xs ! i else if k = i then xs ! j else xs ! k)"
  by (auto simp: swapAt_def nth_list_update)

text \<open>What the loops keep for every comparator.\<close>

definition part_ok :: "'a list \<Rightarrow> 'a parted \<Rightarrow> bool" where
  "part_ok xs p \<longleftrightarrow> mset (p_xs p) = mset xs \<and> length (p_xs p) = length xs
     \<and> 1 \<le> p_a p \<and> p_a p \<le> p_b p \<and> p_b p \<le> p_c p \<and> p_c p \<le> p_d p \<and> p_d p \<le> length xs"

lemma part_ok_up: "part_ok xs p \<Longrightarrow> upGoes cmp p \<Longrightarrow> part_ok xs (upStep cmp p)"
  by (auto simp: part_ok_def upGoes_def upStep_def mset_swapAt)

lemma part_ok_down: "part_ok xs p \<Longrightarrow> downGoes cmp p \<Longrightarrow> part_ok xs (downStep cmp p)"
  by (auto simp: part_ok_def downGoes_def downStep_def mset_swapAt)

text \<open>An element in front of \<open>p_b\<close> and one from \<open>p_c\<close> on are exchanged if neither loop goes on, so they are two.\<close>

lemma part_ok_cross: "part_ok xs p \<Longrightarrow> p_b p + 1 < p_c p \<Longrightarrow> part_ok xs (crossStep p)"
  by (auto simp: part_ok_def crossStep_def mset_swapAt)

text \<open>Where a consistent comparator finds the elements.\<close>

definition consistent :: "('a \<Rightarrow> 'a \<Rightarrow> int) \<Rightarrow> bool" where
  "consistent cmp \<longleftrightarrow> (\<forall>x y. sgn (cmp x y) = - sgn (cmp y x)) \<and> (\<forall>x y z. cmp x y \<le> 0 \<and> cmp y z \<le> 0 \<longrightarrow> cmp x z \<le> 0)"

definition sides :: "('a \<Rightarrow> 'a \<Rightarrow> int) \<Rightarrow> 'a parted \<Rightarrow> bool" where
  "sides cmp p \<longleftrightarrow>
     (\<forall>i. i < p_a p \<longrightarrow> cmp (p_xs p ! i) (p_xs p ! 0) = 0)
   \<and> (\<forall>i. p_a p \<le> i \<and> i < p_b p \<longrightarrow> cmp (p_xs p ! i) (p_xs p ! 0) < 0)
   \<and> (\<forall>i. p_c p \<le> i \<and> i < p_d p \<longrightarrow> cmp (p_xs p ! i) (p_xs p ! 0) > 0)
   \<and> (\<forall>i. p_d p \<le> i \<and> i < length (p_xs p) \<longrightarrow> cmp (p_xs p ! i) (p_xs p ! 0) = 0)"

lemma sides_up: "part_ok xs p \<Longrightarrow> sides cmp p \<Longrightarrow> upGoes cmp p \<Longrightarrow> sides cmp (upStep cmp p)"
  by (auto simp: part_ok_def sides_def upGoes_def upStep_def nth_swapAt less_Suc_eq)

lemma sides_down: "part_ok xs p \<Longrightarrow> sides cmp p \<Longrightarrow> downGoes cmp p \<Longrightarrow> sides cmp (downStep cmp p)"
proof -
  assume a: "part_ok xs p" "sides cmp p" "downGoes cmp p"
  obtain c d where cd: "p_c p = Suc c" "p_d p = Suc d"
    using a(1,3) by (cases "p_c p"; cases "p_d p") (auto simp: part_ok_def downGoes_def)
  have "i = c \<or> Suc c \<le> i" if "c \<le> i" for i using that by auto
  with a cd show ?thesis by (fastforce simp: part_ok_def sides_def downGoes_def downStep_def nth_swapAt)
qed

lemma sides_cross:
  "part_ok xs p \<Longrightarrow> sides cmp p \<Longrightarrow> p_b p + 1 < p_c p \<Longrightarrow> cmp (p_xs p ! p_b p) (p_xs p ! 0) > 0
   \<Longrightarrow> cmp (p_xs p ! (p_c p - 1)) (p_xs p ! 0) < 0 \<Longrightarrow> sides cmp (crossStep p)"
proof -
  assume a: "part_ok xs p" "sides cmp p" "p_b p + 1 < p_c p" "cmp (p_xs p ! p_b p) (p_xs p ! 0) > 0"
    "cmp (p_xs p ! (p_c p - 1)) (p_xs p ! 0) < 0"
  obtain c where c: "p_c p = Suc c" using a(3) by (cases "p_c p") auto
  have "i = c \<or> Suc c \<le> i" if "c \<le> i" for i using that by auto
  with a c show ?thesis by (fastforce simp: part_ok_def sides_def crossStep_def nth_swapAt less_Suc_eq)
qed

definition stopped :: "('a \<Rightarrow> 'a \<Rightarrow> int) \<Rightarrow> 'a parted \<Rightarrow> bool" where
  "stopped cmp p \<longleftrightarrow> p_b p < p_c p \<longrightarrow> cmp (p_xs p ! p_b p) (p_xs p ! 0) > 0"

lemma stopped_down: "part_ok xs p \<Longrightarrow> stopped cmp p \<Longrightarrow> downGoes cmp p \<Longrightarrow> stopped cmp (downStep cmp p)"
  by (auto simp: part_ok_def stopped_def downGoes_def downStep_def nth_swapAt)

text \<open>One turn of the partition: both loops stop, at two different elements unless the pointers have met.\<close>

lemma turn_ok:
  assumes "part_ok xs p" and "q = downLoop cmp (upLoop cmp p)"
  shows "part_ok xs q \<and> stopped cmp q \<and> \<not> downGoes cmp q \<and> (sides cmp p \<longrightarrow> sides cmp q)"
proof -
  let ?u = "upLoop cmp p"
  have u: "part_ok xs ?u \<and> \<not> upGoes cmp ?u" using upLoop_inv [of "part_ok xs", OF part_ok_up assms(1)] .
  have us: "sides cmp p \<longrightarrow> sides cmp ?u"
    using upLoop_inv [of "\<lambda>q. part_ok xs q \<and> sides cmp q" cmp p] assms(1) part_ok_up sides_up by blast
  have "stopped cmp ?u" using u by (auto simp: stopped_def upGoes_def)
  then have d: "(part_ok xs q \<and> stopped cmp q) \<and> \<not> downGoes cmp q"
    unfolding assms(2) using downLoop_inv [of "\<lambda>q. part_ok xs q \<and> stopped cmp q" cmp ?u] u part_ok_down stopped_down by blast
  have "sides cmp ?u \<longrightarrow> sides cmp q"
    unfolding assms(2) using downLoop_inv [of "\<lambda>q. part_ok xs q \<and> sides cmp q" cmp ?u] u part_ok_down sides_down by blast
  with us d show ?thesis by blast
qed

lemma partLoop_ok:
  "part_ok xs p \<Longrightarrow> part_ok xs (partLoop cmp p) \<and> p_b (partLoop cmp p) = p_c (partLoop cmp p)
     \<and> (sides cmp p \<longrightarrow> sides cmp (partLoop cmp p))"
proof (induction cmp p rule: partLoop.induct)
  case (1 cmp p)
  let ?q = "downLoop cmp (upLoop cmp p)"
  have q: "part_ok xs ?q" "stopped cmp ?q" "\<not> downGoes cmp ?q" "sides cmp p \<longrightarrow> sides cmp ?q"
    using turn_ok [OF "1.prems" refl] by blast+
  show ?case
  proof (cases "p_b ?q \<ge> p_c ?q")
    case True
    then have "partLoop cmp p = ?q" by (simp add: partLoop.simps)
    moreover have "p_b ?q = p_c ?q" using True q(1) by (simp add: part_ok_def)
    ultimately show ?thesis using q by simp
  next
    case False
    then have e: "partLoop cmp p = partLoop cmp (crossStep ?q)" by (subst partLoop.simps) simp
    have s: "cmp (p_xs ?q ! p_b ?q) (p_xs ?q ! 0) > 0" "cmp (p_xs ?q ! (p_c ?q - 1)) (p_xs ?q ! 0) < 0"
      using False q(2,3) by (auto simp: stopped_def downGoes_def)
    then have "p_b ?q \<noteq> p_c ?q - 1" by auto
    with False have b: "p_b ?q + 1 < p_c ?q" by linarith
    from "1.IH" [OF False part_ok_cross [OF q(1) b]] sides_cross [of xs ?q cmp, OF q(1) _ b s] q(4) show ?thesis
      unfolding e by blast
  qed
qed

lemma med3_less: "a < n \<Longrightarrow> b < n \<Longrightarrow> c < n \<Longrightarrow> med3 cmp xs a b c < n"
  by (simp add: med3_def)

lemma pivotIndex_less: "xs \<noteq> [] \<Longrightarrow> pivotIndex cmp xs < length xs"
proof -
  assume "xs \<noteq> []"
  then have "0 < length xs" by simp
  moreover have "length xs div 8 \<le> length xs" "2 * (length xs div 8) < length xs" "length xs div 2 + length xs div 8 < length xs"
    if "0 < length xs" using that by linarith+
  ultimately show ?thesis by (auto simp: pivotIndex_def Let_def intro!: med3_less)
qed

lemma partition_ok:
  assumes "xs \<noteq> []" and "p = partition_around cmp xs"
  shows "part_ok xs p" and "p_b p = p_c p" and "consistent cmp \<Longrightarrow> sides cmp p"
proof -
  let ?p = "\<lparr>p_a = 1, p_b = 1, p_c = length xs, p_d = length xs, swap_cnt = False, p_xs = swapAt 0 (pivotIndex cmp xs) xs\<rparr>"
  have "1 \<le> length xs" using assms(1) by (cases xs) auto
  then have "part_ok xs ?p" using assms(1) mset_swapAt [OF _ pivotIndex_less [OF assms(1), of cmp], of 0] by (simp add: part_ok_def)
  from partLoop_ok [OF this, of cmp] show "part_ok xs p" "p_b p = p_c p" unfolding assms(2) partition_around_def by blast+
  assume c: "consistent cmp"
  have "cmp x x = 0" for x
  proof -
    have "sgn (cmp x x) = - sgn (cmp x x)" using c unfolding consistent_def by blast
    then show ?thesis by (simp add: sgn_if split: if_splits)
  qed
  then have "sides cmp ?p" by (simp add: sides_def)
  with partLoop_ok [OF \<open>part_ok xs ?p\<close>, of cmp] show "sides cmp p" unfolding assms(2) partition_around_def by blast
qed

section \<open>Gathering the equal elements\<close>

lemma length_vecswap [simp]: "length (vecswap i j r xs) = length xs"
  by (induction i j r xs rule: vecswap.induct) auto

lemma mset_vecswap: "i + r \<le> length xs \<Longrightarrow> j + r \<le> length xs \<Longrightarrow> mset (vecswap i j r xs) = mset xs"
  by (induction i j r xs rule: vecswap.induct) (auto simp: mset_swapAt)

lemma nth_vecswap:
  "i + r \<le> j \<Longrightarrow> j + r \<le> length xs \<Longrightarrow>
   vecswap i j r xs ! k = (if i \<le> k \<and> k < i + r then xs ! (j + (k - i)) else if j \<le> k \<and> k < j + r then xs ! (i + (k - j)) else xs ! k)"
proof (induction i j r xs rule: vecswap.induct)
  case (2 i j r xs)
  then have IH: "vecswap (i + 1) (j + 1) r (swapAt i j xs) ! k =
      (if i + 1 \<le> k \<and> k < i + 1 + r then swapAt i j xs ! (j + 1 + (k - (i + 1)))
       else if j + 1 \<le> k \<and> k < j + 1 + r then swapAt i j xs ! (i + 1 + (k - (j + 1))) else swapAt i j xs ! k)"
    by simp
  consider "k = i" | "k = j" | "i < k" "k < i + Suc r" | "j < k" "k < j + Suc r"
    | "k \<noteq> i" "k \<noteq> j" "\<not> (i < k \<and> k < i + Suc r)" "\<not> (j < k \<and> k < j + Suc r)" by linarith
  then show ?case using "2.prems" unfolding vecswap.simps IH by cases (auto simp: nth_swapAt Suc_diff_Suc)
qed auto

text \<open>A run of \<open>Q\<close>s followed by a run of \<open>P\<close>s changes places with it, up to the order within the runs.\<close>

lemma vecswap_runs:
  assumes "s + a + b \<le> length xs" and "r = min a b"
    and Q: "\<And>i. s \<le> i \<Longrightarrow> i < s + a \<Longrightarrow> Q (xs ! i)" and P: "\<And>i. s + a \<le> i \<Longrightarrow> i < s + a + b \<Longrightarrow> P (xs ! i)"
  defines "ys \<equiv> vecswap s (s + a + b - r) r xs"
  shows "s \<le> i \<Longrightarrow> i < s + b \<Longrightarrow> P (ys ! i)" and "s + b \<le> i \<Longrightarrow> i < s + a + b \<Longrightarrow> Q (ys ! i)"
    and "i < s \<or> s + a + b \<le> i \<Longrightarrow> ys ! i = xs ! i"
proof -
  have n: "ys ! i = (if s \<le> i \<and> i < s + r then xs ! (s + a + b - r + (i - s))
      else if s + a + b - r \<le> i \<and> i < s + a + b - r + r then xs ! (s + (i - (s + a + b - r))) else xs ! i)"
    unfolding ys_def by (rule nth_vecswap) (use assms(1,2) in auto)
  show "P (ys ! i)" if i: "s \<le> i" "i < s + b"
  proof (cases "i < s + r")
    case True
    then show ?thesis unfolding n using i assms(2) by (auto intro!: P)
  next
    case False
    then have "r = a" "s + a \<le> i" "\<not> s + a + b - r \<le> i" using i assms(2) by auto
    then show ?thesis unfolding n using False i by (auto intro!: P)
  qed
  show "Q (ys ! i)" if i: "s + b \<le> i" "i < s + a + b"
  proof (cases "s + a + b - r \<le> i")
    case True
    then show ?thesis unfolding n using i assms(2) by (auto intro!: Q)
  next
    case False
    then have "r = b" "i < s + a" "\<not> i < s + r" using i assms(2) by auto
    then show ?thesis unfolding n using False i by (auto intro!: Q)
  qed
  show "ys ! i = xs ! i" if "i < s \<or> s + a + b \<le> i"
    unfolding n using that assms(2) by auto
qed

lemma length_gather [simp]: "length (gather p) = length (p_xs p)"
  by (simp add: gather_def Let_def)

lemma mset_gather: "part_ok xs p \<Longrightarrow> p_b p = p_c p \<Longrightarrow> mset (gather p) = mset xs"
  by (auto simp: gather_def Let_def part_ok_def mset_vecswap)

lemma gather_sides:
  assumes "part_ok xs p" and "p_b p = p_c p" and "sides cmp p"
  defines "v \<equiv> p_xs p ! 0" and "l \<equiv> p_b p - p_a p" and "g \<equiv> p_d p - p_c p"
  shows "i < l \<Longrightarrow> cmp (gather p ! i) v < 0" and "l \<le> i \<Longrightarrow> i < length xs - g \<Longrightarrow> cmp (gather p ! i) v = 0"
    and "length xs - g \<le> i \<Longrightarrow> i < length xs \<Longrightarrow> cmp (gather p ! i) v > 0"
proof -
  let ?n = "length xs" and ?xs = "p_xs p" and ?r = "min (p_a p) l" and ?r' = "min g (length xs - p_d p)"
  let ?ys = "vecswap 0 (p_b p - ?r) ?r ?xs"
  have b: "length ?xs = ?n" "p_a p \<le> p_b p" "p_b p \<le> p_d p" "p_d p \<le> ?n" "0 + p_a p + l = p_b p" "p_b p + g + (?n - p_d p) = ?n"
    using assms(1,2) by (auto simp: part_ok_def l_def g_def)
  have z: "gather p = vecswap (p_b p) (?n - ?r') ?r' ?ys" using b(1) by (simp add: gather_def Let_def l_def g_def)
  note s = assms(3) [unfolded sides_def, folded v_def]
  have "0 + p_a p + l \<le> length ?xs" using b by simp
  note runs1 = vecswap_runs [of 0 "p_a p" l ?xs ?r "\<lambda>x. cmp x v = 0" "\<lambda>x. cmp x v < 0", OF this refl, unfolded b(5)]
  have 1: "cmp (?ys ! i) v < 0" if "i < l" for i by (rule runs1(1)) (use s that b(5) l_def in auto)
  have 2: "cmp (?ys ! i) v = 0" if "l \<le> i" "i < p_b p" for i by (rule runs1(2)) (use s that b(5) l_def in auto)
  have 3: "?ys ! i = ?xs ! i" if "p_b p \<le> i" for i by (rule runs1(3)) (use s that b(5) l_def in auto)
  have "p_b p + g + (?n - p_d p) \<le> length ?ys" using b by simp
  note runs2 = vecswap_runs [of "p_b p" g "?n - p_d p" ?ys ?r' "\<lambda>x. cmp x v > 0" "\<lambda>x. cmp x v = 0", OF this refl, unfolded b(6), folded z]
  have Q: "cmp (?ys ! i) v > 0" if "p_b p \<le> i" "i < p_b p + g" for i
    using s that 3 [OF that(1)] assms(2) by (simp add: g_def)
  have P: "cmp (?ys ! i) v = 0" if "p_b p + g \<le> i" "i < ?n" for i
    using s that 3 [of i] b by (simp add: g_def assms(2))
  have 4: "gather p ! i = ?ys ! i" if "i < p_b p" for i by (rule runs2(3)) (use Q P that in auto)
  have 5: "cmp (gather p ! i) v = 0" if "p_b p \<le> i" "i < p_b p + (?n - p_d p)" for i by (rule runs2(1)) (use Q P that in auto)
  have 6: "cmp (gather p ! i) v > 0" if "p_b p + (?n - p_d p) \<le> i" "i < ?n" for i by (rule runs2(2)) (use Q P that in auto)
  show "cmp (gather p ! i) v < 0" if "i < l"
  proof -
    have "i < p_b p" using that by (simp add: l_def)
    with 1 [OF that] 4 show ?thesis by simp
  qed
  show "cmp (gather p ! i) v = 0" if "l \<le> i" "i < ?n - g"
    using 2 [OF that(1)] 4 [of i] 5 [of i] that b(6) by (cases "i < p_b p") auto
  show "cmp (gather p ! i) v > 0" if "?n - g \<le> i" "i < ?n"
    using 6 [of i] that b(6) by auto
qed

section \<open>Insertion\<close>

abbreviation ordered :: "('a \<Rightarrow> 'a \<Rightarrow> int) \<Rightarrow> 'a list \<Rightarrow> bool" where
  "ordered cmp \<equiv> sorted_wrt (\<lambda>x y. cmp x y \<le> 0)"

lemma consistentD:
  assumes "consistent cmp"
  shows "cmp x y > 0 \<longleftrightarrow> cmp y x < 0" and "cmp x y \<le> 0 \<Longrightarrow> cmp y z \<le> 0 \<Longrightarrow> cmp x z \<le> 0" and "cmp x y = 0 \<longleftrightarrow> cmp y x = 0"
proof -
  have s: "sgn (cmp x y) = - sgn (cmp y x)" using assms unfolding consistent_def by blast
  then show "cmp x y > 0 \<longleftrightarrow> cmp y x < 0" "cmp x y = 0 \<longleftrightarrow> cmp y x = 0"
    by (auto simp: sgn_if split: if_splits)
  show "cmp x y \<le> 0 \<Longrightarrow> cmp y z \<le> 0 \<Longrightarrow> cmp x z \<le> 0" using assms unfolding consistent_def by blast
qed

lemma insertInner_inserts:
  "\<exists>ws. insertInner cmp (length ys) (ys @ x # zs) = ws @ zs \<and> mset ws = add_mset x (mset ys)
     \<and> (consistent cmp \<and> ordered cmp ys \<longrightarrow> ordered cmp ws)"
proof (induction ys arbitrary: zs rule: rev_induct)
  case Nil
  then show ?case by (intro exI [of _ "[x]"]) simp
next
  case (snoc y ys)
  show ?case
  proof (cases "cmp y x > 0")
    case True
    have "swapAt (Suc (length ys)) (length ys) (ys @ y # x # zs) = ys @ x # y # zs"
      by (rule nth_equalityI) (auto simp: nth_swapAt nth_append nth_Cons split: nat.split)
    then have e: "insertInner cmp (length (ys @ [y])) ((ys @ [y]) @ x # zs) = insertInner cmp (length ys) (ys @ x # y # zs)"
      using True by (simp add: nth_append)
    from snoc [of "y # zs"] obtain ws where ws: "insertInner cmp (length ys) (ys @ x # y # zs) = ws @ y # zs"
      "mset ws = add_mset x (mset ys)" "consistent cmp \<and> ordered cmp ys \<longrightarrow> ordered cmp ws" by blast
    have "ordered cmp (ws @ [y])" if "consistent cmp" "ordered cmp (ys @ [y])"
    proof -
      have "cmp x y \<le> 0" using True consistentD(1) [OF that(1), of y x] by simp
      moreover have "set ws = insert x (set ys)" using ws(2) by (metis set_mset_add_mset_insert set_mset_mset)
      ultimately show ?thesis using ws(3) that by (auto simp: sorted_wrt_append)
    qed
    with ws(1,2) e show ?thesis by (intro exI [of _ "ws @ [y]"]) simp
  next
    case False
    have "ordered cmp (ys @ [y, x])" if "consistent cmp" "ordered cmp (ys @ [y])"
      using that False consistentD(2) [OF that(1), of _ y x] by (auto simp: sorted_wrt_append)
    with False show ?thesis by (intro exI [of _ "ys @ [y, x]"]) (auto simp: nth_append)
  qed
qed

lemma insertOuter_sorts:
  "mset (insertOuter cmp pm xs) = mset xs \<and> (consistent cmp \<and> ordered cmp (take pm xs) \<longrightarrow> ordered cmp (insertOuter cmp pm xs))"
proof (induction cmp pm xs rule: insertOuter.induct)
  case (1 cmp pm xs)
  show ?case
  proof (cases "pm < length xs")
    case True
    then have xs: "xs = take pm xs @ xs ! pm # drop (pm + 1) xs" by (simp add: id_take_nth_drop)
    from insertInner_inserts [of cmp "take pm xs" "xs ! pm" "drop (pm + 1) xs"] True xs obtain ws where
      ws: "insertInner cmp pm xs = ws @ drop (pm + 1) xs" "mset ws = add_mset (xs ! pm) (mset (take pm xs))"
        "consistent cmp \<and> ordered cmp (take pm xs) \<longrightarrow> ordered cmp ws" by auto
    have "length ws = pm + 1" using arg_cong [OF ws(1), of length] True by simp
    then have "take (pm + 1) (insertInner cmp pm xs) = ws" by (simp add: ws(1))
    moreover have "mset (insertInner cmp pm xs) = mset xs"
      using arg_cong [OF xs, of mset] by (simp add: ws(1,2))
    ultimately show ?thesis using 1 [OF True] ws(3) True by (simp add: insertOuter.simps [of cmp pm xs])
  next
    case False
    then show ?thesis by (simp add: insertOuter.simps)
  qed
qed

lemma insertion_sorts: "mset (insertOuter cmp 1 xs) = mset xs" "consistent cmp \<Longrightarrow> ordered cmp (insertOuter cmp 1 xs)"
proof -
  have "ordered cmp (take 1 xs)" by (cases xs) auto
  with insertOuter_sorts [of cmp 1 xs] show "mset (insertOuter cmp 1 xs) = mset xs"
    "consistent cmp \<Longrightarrow> ordered cmp (insertOuter cmp 1 xs)" by blast+
qed

section \<open>The whole sort\<close>

lemma parts_smaller:
  assumes "\<not> length xs < 7" and "p = partition_around cmp xs"
  shows "p_b p - p_a p < length xs" and "p_d p - p_c p < length xs" and "length (gather p) = length xs"
    and "p_b p - p_a p + (p_d p - p_c p) \<le> length xs"
proof -
  have "xs \<noteq> []" using assms(1) by auto
  from partition_ok(1,2) [OF this assms(2)] assms(1)
  show "p_b p - p_a p < length xs" "p_d p - p_c p < length xs" "length (gather p) = length xs"
    "p_b p - p_a p + (p_d p - p_c p) \<le> length xs" by (auto simp: part_ok_def)
qed

function qsortLoop :: "('a \<Rightarrow> 'a \<Rightarrow> int) \<Rightarrow> 'a list \<Rightarrow> 'a list" where
  "qsortLoop cmp xs =
     (if length xs < 7 then insertOuter cmp 1 xs
      else let p = partition_around cmp xs
           in if \<not> swap_cnt p then insertOuter cmp 1 (p_xs p)
              else let zs = gather p; n = length zs; l = p_b p - p_a p; g = p_d p - p_c p
                   in (if l > 1 then qsortLoop cmp (take l zs) else take l zs)
                      @ take (n - g - l) (drop l zs)
                      @ (if g > 1 then qsortLoop cmp (drop (n - g) zs) else drop (n - g) zs))"
  by pat_completeness auto
termination
proof (relation "measure (\<lambda>(cmp, xs). length xs)", goal_cases)
  case (2 cmp xs p zs n l g)
  then show ?case using parts_smaller(1,3) [OF 2(1), of p cmp] by simp
next
  case (3 cmp xs p zs n l g)
  then show ?case using parts_smaller(2,3) [OF 3(1), of p cmp] by simp
qed simp

declare qsortLoop.simps [simp del]

text \<open>The offsets of the partition are kept in variables of type \<open>int\<close>; arrays whose size does not fit one have no
  value here.\<close>

definition qsort :: "nat \<Rightarrow> ('a \<Rightarrow> 'a \<Rightarrow> int) \<Rightarrow> 'a list \<Rightarrow> 'a list option" where
  "qsort es cmp xs = (if 7 \<le> length xs \<and> 2 ^ 31 \<le> length xs * es then None else Some (qsortLoop cmp xs))"

lemma ordered_parts:
  assumes "consistent cmp" and "ordered cmp as" and "ordered cmp bs"
    and "\<forall>a\<in>set as. cmp a v < 0" and "\<forall>m\<in>set ms. cmp m v = 0" and "\<forall>b\<in>set bs. cmp b v > 0"
  shows "ordered cmp (as @ ms @ bs)"
proof -
  have le: "cmp a y \<le> 0" if "cmp a v \<le> 0" "cmp y v \<ge> 0" for a y
  proof -
    have "cmp v y \<le> 0"
      using that(2) consistentD(1,3) [OF assms(1), of y v] by (cases "cmp y v = 0") auto
    with consistentD(2) [OF assms(1) that(1)] show ?thesis .
  qed
  have "cmp (ms ! i) (ms ! j) \<le> 0" if "i < j" "j < length ms" for i j
    by (rule le) (use assms(5) that in simp_all)
  then have "ordered cmp ms" unfolding sorted_wrt_iff_nth_less by blast
  moreover have "cmp a y \<le> 0" if "a \<in> set as \<and> y \<in> set ms \<union> set bs \<or> a \<in> set ms \<and> y \<in> set bs" for a y
    by (rule le) (use that assms(4-6) in fastforce)+
  ultimately show ?thesis using assms(2,3) unfolding sorted_wrt_append set_append by blast
qed

lemma ordered_short: "\<not> length xs > 1 \<Longrightarrow> ordered cmp xs"
  by (cases xs) auto

lemma qsortLoop_sorts: "mset (qsortLoop cmp xs) = mset xs \<and> (consistent cmp \<longrightarrow> ordered cmp (qsortLoop cmp xs))"
proof (induction cmp xs rule: qsortLoop.induct)
  case (1 cmp xs)
  let ?p = "partition_around cmp xs"
  let ?zs = "gather ?p" and ?l = "p_b ?p - p_a ?p" and ?g = "p_d ?p - p_c ?p"
  consider "length xs < 7" | "\<not> length xs < 7" "\<not> swap_cnt ?p" | "\<not> length xs < 7" "swap_cnt ?p" by blast
  then show ?case
  proof cases
    case 1
    then show ?thesis using insertion_sorts [where cmp = cmp and xs = xs] by (simp add: qsortLoop.simps [of cmp xs])
  next
    case 2
    then have "xs \<noteq> []" by auto
    from partition_ok(1) [OF this refl, of cmp] have "mset (p_xs ?p) = mset xs" by (simp add: part_ok_def)
    with 2 insertion_sorts [where cmp = cmp and xs = "p_xs ?p"] show ?thesis by (simp add: qsortLoop.simps [of cmp xs] Let_def)
  next
    case 3
    then have "xs \<noteq> []" by auto
    note ok = partition_ok [OF this refl, of cmp]
    note b = parts_smaller [OF 3(1) refl, of cmp]
    let ?as = "if ?l > 1 then qsortLoop cmp (take ?l ?zs) else take ?l ?zs"
    let ?ms = "take (length xs - ?g - ?l) (drop ?l ?zs)"
    let ?bs = "if ?g > 1 then qsortLoop cmp (drop (length xs - ?g) ?zs) else drop (length xs - ?g) ?zs"
    have e: "qsortLoop cmp xs = ?as @ ?ms @ ?bs" using 3 b(3) by (simp add: qsortLoop.simps [of cmp xs] Let_def)
    have as: "mset ?as = mset (take ?l ?zs)" "consistent cmp \<Longrightarrow> ordered cmp ?as"
      using 1(1) [OF 3(1) refl _ refl refl refl refl] 3(2) ordered_short [of "take ?l ?zs" cmp] by auto
    have bs: "mset ?bs = mset (drop (length xs - ?g) ?zs)" "consistent cmp \<Longrightarrow> ordered cmp ?bs"
      using 1(2) [OF 3(1) refl _ refl refl refl refl] 3(2) b(3) ordered_short [of "drop (length xs - ?g) ?zs" cmp] by auto
    have "?ms @ drop (length xs - ?g) ?zs = drop ?l ?zs"
      using b(4) append_take_drop_id [of "length xs - ?g - ?l" "drop ?l ?zs"] by simp
    then have "mset (qsortLoop cmp xs) = mset ?zs"
      unfolding e using as(1) bs(1) append_take_drop_id [of ?l ?zs] by (metis mset_append)
    then have m: "mset (qsortLoop cmp xs) = mset xs" using mset_gather [OF ok(1,2)] by simp
    moreover have "ordered cmp (qsortLoop cmp xs)" if c: "consistent cmp"
    proof -
      let ?v = "p_xs ?p ! 0"
      note g = gather_sides [OF ok(1,2) ok(3) [OF c]]
      have "\<forall>a\<in>set ?as. cmp a ?v < 0"
        unfolding mset_eq_setD [OF as(1)] using g(1) by (auto simp: set_conv_nth)
      moreover have "\<forall>m\<in>set ?ms. cmp m ?v = 0" using g(2) b(3,4) by (auto simp: set_conv_nth)
      moreover have "\<forall>y\<in>set ?bs. cmp y ?v > 0"
        unfolding mset_eq_setD [OF bs(1)] using g(3) b(3) by (auto simp: set_conv_nth)
      ultimately show ?thesis unfolding e by (rule ordered_parts [OF c as(2) [OF c] bs(2) [OF c]])
    qed
    ultimately show ?thesis by blast
  qed
qed

text \<open>C18: the sort returns a permutation of the array that is ordered, for every comparator that orders its elements,
  whatever equal elements there are.\<close>

theorem qsort_sorts:
  assumes "length xs * es < 2 ^ 31"
  shows "\<exists>ys. qsort es cmp xs = Some ys \<and> mset ys = mset xs \<and> (consistent cmp \<longrightarrow> sorted_wrt (\<lambda>x y. cmp x y \<le> 0) ys)"
  using assms qsortLoop_sorts [of cmp xs] by (simp add: qsort_def)

theorem qsort_sorts_witness:
  "consistent (\<lambda>x y :: int. x - y) \<and> qsort 4 (\<lambda>x y. x - y) [5, 3, 8, 1, 9, 2, 7, 3 :: int] = Some [1, 2, 3, 3, 5, 7, 8, 9]"
proof -
  let ?xs = "[5, 3, 8, 1, 9, 2, 7, 3 :: int]"
  have c: "consistent (\<lambda>x y :: int. x - y)" by (auto simp: consistent_def sgn_if)
  from qsort_sorts [of ?xs 4 "\<lambda>x y. x - y"] c obtain ys where
    ys: "qsort 4 (\<lambda>x y. x - y) ?xs = Some ys" "mset ys = mset ?xs" "sorted_wrt (\<lambda>x y. x - y \<le> 0) ys" by auto
  have "sorted ys" using ys(3) by simp
  then have "ys = sort ?xs" using ys(2) by (metis properties_for_sort)
  then show ?thesis using c ys(1) by simp
qed

end
