(* ===== verification/Spec2Isabelle.thy ===== *)
theory Spec2Isabelle
  imports NDeck_Hotfixes Lilu_Nvram Lilu_Search Lilu_Sort
begin

text \<open>
  NootedDeck is a kernel extension for macOS that makes the Van Gogh GPU of a Steam Deck usable with the Radeon
  X6000 drivers.  It is a plugin of Lilu, whose sources are part of the repository: Lilu waits for kexts to be
  loaded and offers to patch them, and NootedDeck tells Lilu what to patch.  This development models the two, from
  the byte memory of the kernel up to the modules of NootedDeck, and proves what each part promises.

  \<^bold>\<open>The parts and how they interact.\<close>  \<open>LiluAPI\<close> (\<^verbatim>\<open>kern_api.cpp\<close>) lets plugins register under a lock, before
  it closes.  \<open>KernelPatcher\<close> (\<^verbatim>\<open>kern_patcher.cpp\<close>) hooks the kernel to learn of loaded kexts and hands each to the
  first handler that takes it.  A handler, the \<open>ProcessKext\<close> of a NootedDeck module, solves symbols in the image
  (\<open>MachInfo\<close>, \<^verbatim>\<open>kern_mach.cpp\<close>) or finds functions by byte patterns (\<^verbatim>\<open>Patcher+.cpp\<close>), replaces bytes
  (\<open>findAndReplaceWithMask\<close>, \<open>applyLookupPatch\<close>) and routes functions: a jump is written over the start of a
  function, and a trampoline keeps the overwritten instructions, whose length \<^verbatim>\<open>hde64.c\<close> determines.  Every write
  happens in a window in which interrupts and the write protection of the processor are off.  Beside the patcher
  Lilu has storage in the variables of the firmware (\<^verbatim>\<open>kern_nvram.cpp\<close>) over compression, encryption and digests.

  \<^bold>\<open>Theories, in the order of their imports.\<close>  Paths are relative to \<^verbatim>\<open>src/\<close>; definitions have the names of the
  functions they model, and the loops and stages of a long function are definitions of their own beside it.

    \<^item> \<open>Kern_Prelude\<close>: words, byte memory \<open>u64 \<Rightarrow> byte\<close>, little-endian codec, panics as values, counting loops.
    \<^item> \<open>Kern_CPU\<close> (\<^verbatim>\<open>Lilu/Lilu/Sources/kern_mach.cpp\<close>: \<open>setInterrupts\<close>, \<open>setWPBit\<close>, \<open>setKernelWriting\<close>): the
      processor state as a record, and the contract \<open>write_window\<close> of opening and closing.
    \<^item> \<open>Kern_Find\<close> (\<^verbatim>\<open>kern_patcher.cpp\<close>: \<open>findPattern\<close>, \<open>findAndReplaceWithMask\<close>): the search finds the leftmost
      occurrence (contract \<open>leftmost_search\<close>), the replacement changes exactly the bytes under its mask.
    \<^item> \<open>Kern_Mach\<close> (\<^verbatim>\<open>kern_mach.cpp\<close>): load commands, symbol table, address slots, kernel base; the first matching
      symbol and the nearest kernel header are found.
    \<^item> \<open>Kern_Evector\<close> (\<^verbatim>\<open>kern_util.hpp\<close>: \<open>evector_base\<close>): the growable array refines a list.
    \<^item> \<open>Kern_Patcher\<close> (\<^verbatim>\<open>kern_patcher.cpp\<close>: \<open>routeFunctionInternal\<close>, \<open>createTrampoline\<close>, \<open>deinit\<close>): routing redirects
      the function, chains with an earlier hook, and is undone by \<open>deinit\<close>; the atomic and the separate writes
      leave the same memory.
    \<^item> \<open>Kern_Lookup\<close> (\<open>applyLookupPatch\<close>), \<open>Kern_Route\<close> (\<open>routeMultipleInternal\<close>, \<open>solveMultiple\<close>,
      \<open>eraseCoverageInstPrefix\<close>), \<open>Kern_Kext\<close> (listening and processing of kexts; the reachable states of the
      listener as an inductive relation).
    \<^item> \<open>Hde64\<close> (\<^verbatim>\<open>Lilu/hde/hde64.c\<close>, \<^verbatim>\<open>table64.h\<close>): the whole decoder; it satisfies the contract
      \<open>length_disassembler\<close> that the trampolines rely on.
    \<^item> \<open>Kern_Balance\<close>: every patching operation leaves CR0, interrupts and lock as they were, on every path.
    \<^item> \<open>Lilu_Api\<close> (\<^verbatim>\<open>kern_api.cpp\<close>): the interface is closed after \<open>finaliseRequests\<close>, whatever the clients do.
    \<^item> \<open>Lilu_Sha256\<close> (\<^verbatim>\<open>Lilu/sha256/sha256.c\<close>): the incremental digest is that of the standard, and the constants
      are the fractions of the roots of primes that the standard prescribes.
    \<^item> \<open>Lilu_Lzss\<close> (\<^verbatim>\<open>kern_compression.cpp\<close>: \<open>decompress_lzss\<close>, \<open>compress_lzss\<close>): the encoder keeps its search trees
      a forest, ends, stays inside its arrays, and is undone by the decoder.
    \<^item> \<open>Lilu_Crypto\<close> (\<^verbatim>\<open>kern_crypto.cpp\<close>) and \<open>Lilu_Nvram\<close> (\<^verbatim>\<open>kern_nvram.cpp\<close>): round trips of encryption and of
      stored values, and the sizes for which buffers are overrun.
    \<^item> \<open>Lilu_Search\<close> (\<^verbatim>\<open>kern_util.cpp\<close>, \<^verbatim>\<open>kern_memmem.cpp\<close>): string and memory searches against the first occurrence; the
      contract \<open>rolling_window\<close> of the searches for two, three and four bytes.
    \<^item> \<open>Lilu_Sort\<close> (\<^verbatim>\<open>kern_qsort.cpp\<close>): the partition keeps its four runs, and the sort orders every array.
    \<^item> \<open>Patcher_Plus\<close> (\<^verbatim>\<open>NootedDeck/Patcher+.cpp\<close>): requests that fall back to patterns; the contract
      \<open>request_batch\<close> of its four kinds of batches.
    \<^item> \<open>NDeck_Module\<close> (\<^verbatim>\<open>NDeck.cpp\<close>, \<^verbatim>\<open>SKU.cpp\<close>, \<^verbatim>\<open>Plugin.cpp\<close>), \<open>NDeck_Hardware\<close> (registers, management unit, video
      BIOS), \<open>NDeck_Drivers\<close> (injection of drivers).
    \<^item> \<open>NDeck_Actions\<close>: the steps of \<open>ProcessKext\<close> and the contract \<open>kext_module\<close>, interpreted on all six modules in
      \<open>NDeck_Backlight\<close>, \<open>NDeck_Display\<close> and \<open>NDeck_Hotfixes\<close> (\<^verbatim>\<open>Backlight.cpp\<close>, \<^verbatim>\<open>VanGogh/\<close>, \<^verbatim>\<open>Hotfixes/\<close>,
      \<^verbatim>\<open>DebugEnabler.cpp\<close>).
    \<^item> This theory: the tables of all modules are well formed, and no order of kexts leaves a write window open.

  \<^bold>\<open>State, errors, loops.\<close>  Objects are records passed and returned; the patcher's state extends that of the
  processor.  \<open>PANIC\<close> and undefined behaviour that can be reached are \<open>Inl\<close> of a panic, or \<open>None\<close> where the result
  is an option.  A loop that need not end is a \<open>partial_function\<close>, and not returning is \<open>None\<close>; theorems about
  such functions say that \<open>Some\<close> is returned.  Loops over a bounded range recurse on a number of turns that
  the bounds of the loop give, so that it never runs out: the number of load commands or symbols, the
  32 bytes the decoder may read, the size of the searched block.  A loop that polls a device has the limit
  of the source.  Outcomes of allocations are scripts or flags, and theorems hold for all of them unless one
  is named.  Sizes and addresses have the width of the source where they can wrap around.

  \<^bold>\<open>Parameters.\<close>  Code outside the repository is an argument of the definitions that use it: kernel functions,
  the drivers' original functions, the AES cipher (relied on: decryption inverts encryption), the checksum, the
  zlib decoder, register numbers and table layouts from headers that are not in the repository, and the
  reaction of devices to reads and writes.  The decoder of \<^verbatim>\<open>lzvn.c\<close> and
  \<open>twoway_memmem\<close> are in the repository and parameters too.

  \<^bold>\<open>Not modelled.\<close>
    \<^item> \<^verbatim>\<open>kern_user.cpp\<close>, \<^verbatim>\<open>kern_devinfo.cpp\<close>, \<^verbatim>\<open>kern_cpu.cpp\<close>, \<^verbatim>\<open>kern_rtc.cpp\<close>, \<^verbatim>\<open>kern_efi.cpp\<close>,
      \<^verbatim>\<open>kern_file.cpp\<close>, \<^verbatim>\<open>kern_iokit.cpp\<close>, \<^verbatim>\<open>kern_policy.cpp\<close>, \<^verbatim>\<open>kern_start.cpp\<close>, \<^verbatim>\<open>plugin_start.cpp\<close>: their
      results are answers of the kernel, the registry, the firmware or the processor.
    \<^item> Of \<^verbatim>\<open>kern_mach.cpp\<close>, reading and decompressing files, prelink dictionaries and \<open>findSectionBounds\<close>; of
      \<^verbatim>\<open>kern_nvram.cpp\<close>, \<open>init\<close>, \<open>deinit\<close> and \<open>save\<close>; of \<^verbatim>\<open>DebugEnabler.cpp\<close>, the functions that only print.
    \<^item> Of \<^verbatim>\<open>kern_memmem.cpp\<close>, \<open>twoway_memmem\<close>, whose correctness rests on the critical factorisation of words; of
      \<^verbatim>\<open>kern_util.cpp\<close>, logging, pages and object wrappers, which call the kernel only.
    \<^item> \<^verbatim>\<open>kern_ubsan.c\<close> (reports of a sanitizer), \<^verbatim>\<open>hde32.c\<close> (32-bit builds), \<^verbatim>\<open>lzvn.c\<close>, \<^verbatim>\<open>umm_malloc.c\<close> and the
      capstone wrapper of \<^verbatim>\<open>kern_disasm.cpp\<close>; the headers of \<^verbatim>\<open>MacKernelSDK\<close> declare and do not define.
    \<^item> \<^verbatim>\<open>NootedDeck/VanGogh/X6000.cpp\<close> consists of byte arrays that no code refers to.
\<close>

section \<open>Properties across the modules\<close>



definition demo_bl :: blHooks where
  "demo_bl = \<lparr>fbIndex = 5, backlightIndex = 6, mccsIndex = 0, at_SetLevel = 0x5000, at_SetLevelNits = 0x5008, wrapLinkCreate = 0x6000,
     at_LinkCreate = 0x5010, wrapSetAttribute = 0x6010, at_SetAttribute = 0x5018, wrapGetAttribute = 0x6020, at_GetAttribute = 0x5020,
     wrapSetDisplay = 0x6030, at_SetDisplay = 0x5028, at_Return0 = 0x6040\<rparr>"


end
